(* ===== verification/Prelude.thy ===== *)
theory Prelude
  imports Main
begin

text \<open>
  Shared vocabulary of the development: names of the basic types, the outcome of one atomic
  step of a call, the operations of \<^verbatim>\<open>Vec\<close> and \<^verbatim>\<open>VecDeque\<close> that the
  code uses on its wait lists and queues, reachability of a transition system, and the
  invariant rule as a locale that every machine of the development interprets.
\<close>

section \<open>Types\<close>

text \<open>
  Threads and async tasks are both called agents and are numbered; an instant
  (\<^verbatim>\<open>std::time::Instant\<close>) is the number of ticks of a monotone clock; the two
  halves of a continuation share its number.
\<close>

type_synonym tid = nat
type_synonym instant = nat
type_synonym cont_id = nat

text \<open>One atomic step of a call either moves its program counter, returns, or panics.\<close>

datatype ('p, 'r) ctl = Next 'p | Return 'r | Panic

named_theorems step_defs \<open>definitions of the step functions of a machine\<close>
named_theorems vec_defs \<open>definitions of the container operations\<close>

section \<open>Containers\<close>

text \<open>\<^verbatim>\<open>Vec::push\<close>, \<^verbatim>\<open>Vec::pop\<close> (from the end), \<^verbatim>\<open>std::mem::take\<close>,
  \<^verbatim>\<open>VecDeque::pop_front\<close>, \<^verbatim>\<open>Iterator::position\<close> and \<^verbatim>\<open>Vec::remove\<close>.\<close>

definition vec_push :: "'a list \<Rightarrow> 'a \<Rightarrow> 'a list" where
  [vec_defs]: "vec_push xs x = xs @ [x]"

definition vec_pop :: "'a list \<Rightarrow> 'a option \<times> 'a list" where
  [vec_defs]: "vec_pop xs = (if xs = [] then (None, []) else (Some (last xs), butlast xs))"

definition mem_take :: "'a list \<Rightarrow> 'a list \<times> 'a list" where
  [vec_defs]: "mem_take xs = (xs, [])"

definition pop_front :: "'a list \<Rightarrow> 'a option \<times> 'a list" where
  [vec_defs]: "pop_front xs = (case xs of [] \<Rightarrow> (None, []) | x # ys \<Rightarrow> (Some x, ys))"

fun vec_position :: "('a \<Rightarrow> bool) \<Rightarrow> 'a list \<Rightarrow> nat option" where
  "vec_position P [] = None"
| "vec_position P (x # xs) = (if P x then Some 0 else map_option Suc (vec_position P xs))"

definition vec_remove :: "'a list \<Rightarrow> nat \<Rightarrow> 'a list" where
  [vec_defs]: "vec_remove xs i = take i xs @ drop (Suc i) xs"

lemma set_vec_push [simp]: "set (vec_push xs x) = insert x (set xs)"
  by (auto simp: vec_push_def)

lemma vec_push_not_Nil [simp]: "vec_push xs x \<noteq> []"
  by (simp add: vec_push_def)

lemma vec_pop_push [simp]: "vec_pop (vec_push xs x) = (Some x, xs)"
  by (simp add: vec_pop_def vec_push_def)

lemma vec_pop_None_iff [simp]: "fst (vec_pop xs) = None \<longleftrightarrow> xs = []"
  by (simp add: vec_pop_def)

lemma vec_pop_SomeD: "vec_pop xs = (Some x, ys) \<Longrightarrow> xs = ys @ [x]"
  by (auto simp: vec_pop_def split: if_splits)

lemma vec_position_None_iff [simp]: "vec_position P xs = None \<longleftrightarrow> (\<forall>x \<in> set xs. \<not> P x)"
  by (induction xs) auto

lemma vec_position_SomeD:
  "vec_position P xs = Some i \<Longrightarrow> i < length xs \<and> P (xs ! i) \<and> (\<forall>j < i. \<not> P (xs ! j))"
proof (induction xs arbitrary: i)
  case (Cons x xs)
  then show ?case
    by (cases "P x") (auto simp: nth_Cons split: nat.splits)
qed simp

lemma set_vec_remove_subset: "set (vec_remove xs i) \<subseteq> set xs"
  by (auto simp: vec_remove_def dest: in_set_takeD in_set_dropD)

lemma vec_remove_split:
  "i < length xs \<Longrightarrow> xs = take i xs @ xs ! i # drop (Suc i) xs"
  by (simp add: id_take_nth_drop)

lemma length_vec_remove: "i < length xs \<Longrightarrow> length (vec_remove xs i) = length xs - 1"
  by (simp add: vec_remove_def)

section \<open>Atomic operations\<close>

text \<open>\<^verbatim>\<open>compare_exchange(current, new)\<close> on an atomic: \<open>Inr\<close> of the old value and the
  new one stored, or \<open>Inl\<close> of the old value and nothing stored.\<close>

definition compare_exchange :: "'w \<Rightarrow> 'w \<Rightarrow> 'w \<Rightarrow> ('w + 'w) \<times> 'w" where
  [step_defs]: "compare_exchange cur new x = (if x = cur then (Inr x, new) else (Inl x, x))"

section \<open>Exclusive ownership\<close>

text \<open>
  A flag and a program counter per agent agree: when the flag is set exactly one agent is at
  an owning program counter, and when it is clear none is.
\<close>

definition exclusive :: "('p \<Rightarrow> bool) \<Rightarrow> bool \<Rightarrow> ('t \<Rightarrow> 'p) \<Rightarrow> bool" where
  "exclusive own b f \<longleftrightarrow> (\<exists>t. \<forall>u. own (f u) \<longleftrightarrow> b \<and> u = t)"

lemma exclusive_owner: "exclusive own b f \<Longrightarrow> own (f t) \<Longrightarrow> b \<and> (\<forall>u. u \<noteq> t \<longrightarrow> \<not> own (f u))"
  unfolding exclusive_def by metis

lemma exclusive_unique: "exclusive own b f \<Longrightarrow> own (f t) \<Longrightarrow> own (f u) \<Longrightarrow> t = u"
  unfolding exclusive_def by metis

lemma exclusive_free: "exclusive own False f \<Longrightarrow> \<not> own (f u)"
  unfolding exclusive_def by metis

lemma exclusive_held: "exclusive own b f \<Longrightarrow> b \<longleftrightarrow> (\<exists>u. own (f u))"
  unfolding exclusive_def by metis

lemma exclusive_init: "(\<And>u. \<not> own (f u)) \<Longrightarrow> exclusive own False f"
  by (simp add: exclusive_def)

lemma exclusive_gain: "exclusive own False f \<Longrightarrow> own r \<Longrightarrow> exclusive own True (f(t := r))"
  unfolding exclusive_def by (rule exI [of _ t]) auto

lemma exclusive_keep: "exclusive own b f \<Longrightarrow> own (f t) \<Longrightarrow> own r \<Longrightarrow> exclusive own b (f(t := r))"
  by (drule (1) exclusive_owner) (auto simp: exclusive_def intro!: exI [of _ t])

lemma exclusive_lose: "exclusive own b f \<Longrightarrow> own (f t) \<Longrightarrow> \<not> own r \<Longrightarrow> exclusive own False (f(t := r))"
  by (drule (1) exclusive_owner) (auto simp: exclusive_def)

lemma exclusive_other:
  "exclusive own b f \<Longrightarrow> \<not> own (f t) \<Longrightarrow> \<not> own r \<Longrightarrow> exclusive own b (f(t := r))"
  unfolding exclusive_def by (metis fun_upd_apply)

section \<open>Reachability and invariants\<close>

inductive reach :: "('s \<Rightarrow> bool) \<Rightarrow> ('s \<Rightarrow> 's \<Rightarrow> bool) \<Rightarrow> 's \<Rightarrow> bool"
  for ini :: "'s \<Rightarrow> bool" and stp :: "'s \<Rightarrow> 's \<Rightarrow> bool" where
  reach_init: "ini s \<Longrightarrow> reach ini stp s"
| reach_step: "reach ini stp s \<Longrightarrow> stp s s' \<Longrightarrow> reach ini stp s'"

lemma reach_rtranclp: "reach ini stp s \<Longrightarrow> stp\<^sup>*\<^sup>* s s' \<Longrightarrow> reach ini stp s'"
  by (rotate_tac, induction rule: rtranclp_induct) (auto intro: reach_step)

text \<open>
  The invariant rule. A machine interprets this locale with its initial states, its step
  relation and a predicate on states; the laws are the two obligations of the rule and the
  fact it gives is that the predicate holds in every reachable state.
\<close>

locale machine_invariant =
  fixes ini :: "'s \<Rightarrow> bool" and stp :: "'s \<Rightarrow> 's \<Rightarrow> bool" and inv :: "'s \<Rightarrow> bool"
  assumes inv_init: "ini s \<Longrightarrow> inv s"
    and inv_step: "stp s s' \<Longrightarrow> inv s \<Longrightarrow> inv s'"
begin

lemma reach_inv: "reach ini stp s \<Longrightarrow> inv s"
  by (induction rule: reach.induct) (auto intro: inv_init inv_step)

lemma steps_inv: "stp\<^sup>*\<^sup>* s s' \<Longrightarrow> inv s \<Longrightarrow> inv s'"
  by (induction rule: rtranclp_induct) (auto intro: inv_step)

end

text \<open>
  A simulation: the second machine is an abstract specification and every step of the first
  from a state that satisfies the invariant maps under \<open>absf\<close> to steps of the second
  (none or several).
\<close>

locale machine_simulation = machine_invariant ini stp inv
  for ini :: "'s \<Rightarrow> bool" and stp :: "'s \<Rightarrow> 's \<Rightarrow> bool" and inv :: "'s \<Rightarrow> bool" +
  fixes aini :: "'t \<Rightarrow> bool" and astp :: "'t \<Rightarrow> 't \<Rightarrow> bool" and absf :: "'s \<Rightarrow> 't"
  assumes sim_init: "ini s \<Longrightarrow> aini (absf s)"
    and sim_step: "stp s s' \<Longrightarrow> inv s \<Longrightarrow> astp\<^sup>*\<^sup>* (absf s) (absf s')"
begin

lemma sim_reach: "reach ini stp s \<Longrightarrow> reach aini astp (absf s)"
proof (induction rule: reach.induct)
  case (reach_init s)
  then show ?case by (blast intro: reach.reach_init sim_init)
next
  case (reach_step s s')
  then show ?case by (blast intro: reach_rtranclp sim_step reach_inv)
qed

end

section \<open>Running one call on its own\<close>

text \<open>
  \<open>run_alone stp n p s\<close> gives a call at most \<open>n\<close> atomic steps while no other agent
  moves. It ends in \<open>Return\<close> or \<open>Panic\<close>, or in \<open>Next\<close> of the program counter
  it has reached.
\<close>

fun run_alone :: "('p \<Rightarrow> 's \<Rightarrow> ('p, 'r) ctl \<times> 's) \<Rightarrow> nat \<Rightarrow> 'p \<Rightarrow> 's \<Rightarrow> ('p, 'r) ctl \<times> 's" where
  "run_alone stp 0 p s = (Next p, s)"
| "run_alone stp (Suc n) p s =
     (case stp p s of
        (Next p', s') \<Rightarrow> run_alone stp n p' s'
      | (Return r, s') \<Rightarrow> (Return r, s')
      | (Panic, s') \<Rightarrow> (Panic, s'))"

lemma run_alone_Return_mono:
  "run_alone stp n p s = (Return r, s') \<Longrightarrow> run_alone stp (n + m) p s = (Return r, s')"
  by (induction n arbitrary: p s) (auto split: prod.splits ctl.splits)

lemma run_alone_12:
  "run_alone stp 1 p w = (case stp p w of (Next p', w') \<Rightarrow> (Next p', w') | (Return r, w') \<Rightarrow> (Return r, w') | (Panic, w') \<Rightarrow> (Panic, w'))"
  "run_alone stp 2 p w =
     (case stp p w of (Next p', w') \<Rightarrow> run_alone stp 1 p' w' | (Return r, w') \<Rightarrow> (Return r, w') | (Panic, w') \<Rightarrow> (Panic, w'))"
  by (auto simp: numeral_2_eq_2 split: prod.splits ctl.splits)

section \<open>Folds of effects\<close>

text \<open>The loops \<^verbatim>\<open>for t in threads { ... }\<close> that only set a flag per element.\<close>

lemma fold_set_flag: "fold (\<lambda>h f. f(h := True)) hs f = (\<lambda>h. h \<in> set hs \<or> f h)"
  by (induction hs arbitrary: f) auto

end
