(* ===== verification/Spinlock.thy ===== *)
theory Spinlock
  imports Prelude
begin

text \<open>
  \<^verbatim>\<open>src/spinlock.rs\<close>: the lock word and the data of \<^verbatim>\<open>Spinlock\<close>, the call
  \<^verbatim>\<open>with_mut\<close> as a program of atomic steps, and a machine in which any number of
  threads call \<^verbatim>\<open>with_mut\<close> with any closures. Proved: mutual exclusion, and that
  every call takes effect as one atomic application of its closure; and that a closure that
  panics leaves the lock word set for ever.
\<close>

section \<open>Data and operations\<close>

record 'a spinlock =
  sl_data :: 'a
  sl_locked :: bool

definition spin_new :: "'a \<Rightarrow> 'a spinlock" where
  "spin_new d = \<lparr>sl_data = d, sl_locked = False\<rparr>"

definition spin_from :: "'a \<Rightarrow> 'a spinlock" where
  "spin_from v = spin_new v"

definition spin_default :: "'a \<Rightarrow> 'a spinlock" where
  \<comment> \<open>the argument is \<^verbatim>\<open>T::default()\<close>\<close>
  "spin_default v = spin_new v"

text \<open>\<^verbatim>\<open>locked.swap(true, Acquire)\<close>, which gives the old value, and
  \<^verbatim>\<open>locked.store(false, Release)\<close>.\<close>

definition spin_swap :: "'a spinlock \<Rightarrow> bool \<times> 'a spinlock" where
  [step_defs]: "spin_swap l = (sl_locked l, l\<lparr>sl_locked := True\<rparr>)"

definition spin_store :: "'a spinlock \<Rightarrow> 'a spinlock" where
  [step_defs]: "spin_store l = l\<lparr>sl_locked := False\<rparr>"

text \<open>
  A closure \<^verbatim>\<open>FnOnce(&mut T) -> R\<close> maps the data to the result and the new data; the
  result is \<open>None\<close> when it panics, and the data is then what it left behind.
\<close>

type_synonym ('a, 'r) closure = "'a \<Rightarrow> 'r option \<times> 'a"

text \<open>
  \<^verbatim>\<open>with_mut\<close>: the \<^verbatim>\<open>while swap\<close> loop, the call of the closure, the release. A
  panic of the closure unwinds out of \<^verbatim>\<open>with_mut\<close>: there is no guard value, so nothing
  stores \<^verbatim>\<open>false\<close> on the way.
\<close>

datatype 'r wm_pc = WSwap | WCall | WStore 'r

fun with_mut_step :: "('a, 'r) closure \<Rightarrow> 'r wm_pc \<Rightarrow> 'a spinlock \<Rightarrow> ('r wm_pc, 'r) ctl \<times> 'a spinlock" where
  "with_mut_step f WSwap l =
     (let (old, l') = spin_swap l in (Next (if old then WSwap else WCall), l'))"
| "with_mut_step f WCall l =
     (case f (sl_data l) of
        (Some r, d) \<Rightarrow> (Next (WStore r), l\<lparr>sl_data := d\<rparr>)
      | (None, d) \<Rightarrow> (Panic, l\<lparr>sl_data := d\<rparr>))"
| "with_mut_step f (WStore r) l = (Return r, spin_store l)"

text \<open>
  A call of \<^verbatim>\<open>with_mut\<close> as one atomic step, for a closure that does not panic. C3
  says that concurrent calls are equivalent to such steps, and the lemma below that a call on
  a free spinlock, run on its own, is this function.
\<close>

definition with_mut_atomic :: "('a \<Rightarrow> 'r \<times> 'a) \<Rightarrow> 'a spinlock \<Rightarrow> 'r \<times> 'a spinlock" where
  "with_mut_atomic f l = (case f (sl_data l) of (r, d) \<Rightarrow> (r, l\<lparr>sl_data := d\<rparr>))"

lemma with_mut_atomic_run:
  "\<not> sl_locked l \<Longrightarrow> with_mut_atomic f l = (r, l') \<Longrightarrow>
   run_alone (with_mut_step (\<lambda>d. case f d of (r, d') \<Rightarrow> (Some r, d'))) 3 WSwap l = (Return r, l')"
  by (cases l) (auto simp: with_mut_atomic_def numeral_3_eq_3 spin_swap_def spin_store_def split: prod.splits)

text \<open>\<^verbatim>\<open>Display\<close> formats the data inside \<^verbatim>\<open>with_mut\<close>; \<open>fmt\<close> is the formatter of the type.\<close>

definition spin_display :: "('a \<Rightarrow> string) \<Rightarrow> string wm_pc \<Rightarrow> 'a spinlock \<Rightarrow> (string wm_pc, string) ctl \<times> 'a spinlock" where
  "spin_display fmt = with_mut_step (\<lambda>d. (Some (fmt d), d))"

section \<open>Threads sharing a spinlock\<close>

text \<open>
  A thread is outside, inside a call of \<^verbatim>\<open>with_mut\<close>, back from one with its result, or
  unwound by a panic. \<open>applied\<close> records the closures in the order in which they ran, each
  with its thread; \<open>poisoned\<close> records that a closure has panicked. Neither is read by a
  step.
\<close>

datatype ('a, 'r) caller =
    Outside
  | Calling "('a, 'r) closure" "'r wm_pc"
  | Returned "('a, 'r) closure" 'r
  | Unwound

record ('a, 'r) spin_world =
  slk :: "'a spinlock"
  caller :: "tid \<Rightarrow> ('a, 'r) caller"
  applied :: "(tid \<times> ('a, 'r) closure) list"
  poisoned :: bool

definition spin_init :: "'a \<Rightarrow> ('a, 'r) spin_world \<Rightarrow> bool" where
  "spin_init d w \<longleftrightarrow>
     slk w = spin_new d \<and> (\<forall>t. caller w t = Outside) \<and> applied w = [] \<and> \<not> poisoned w"

definition caller_next :: "('a, 'r) closure \<Rightarrow> ('r wm_pc, 'r) ctl \<Rightarrow> ('a, 'r) caller" where
  "caller_next f c = (case c of Next p \<Rightarrow> Calling f p | Return r \<Rightarrow> Returned f r | Panic \<Rightarrow> Unwound)"

inductive spin_step :: "('a, 'r) spin_world \<Rightarrow> ('a, 'r) spin_world \<Rightarrow> bool" where
  call: "(\<forall>g p. caller w t \<noteq> Calling g p) \<Longrightarrow>
     spin_step w (w\<lparr>caller := (caller w)(t := Calling f WSwap)\<rparr>)"
| run: "caller w t = Calling f p \<Longrightarrow> with_mut_step f p (slk w) = (c, l) \<Longrightarrow>
     spin_step w (w\<lparr>slk := l, caller := (caller w)(t := caller_next f c),
       applied := (if p = WCall then applied w @ [(t, f)] else applied w),
       poisoned := (poisoned w \<or> c = Panic)\<rparr>)"

section \<open>The invariant\<close>

text \<open>What the closures make of the initial data when they run one after the other.\<close>

definition run_closures :: "(tid \<times> ('a, 'r) closure) list \<Rightarrow> 'a \<Rightarrow> 'a" where
  "run_closures cs d = fold (\<lambda>(t, f) x. snd (f x)) cs d"

lemma run_closures_simps [simp]:
  "run_closures [] d = d"
  "run_closures (cs @ [(t, f)]) d = snd (f (run_closures cs d))"
  by (simp_all add: run_closures_def)

definition inside :: "('a, 'r) caller \<Rightarrow> bool" where
  "inside c \<longleftrightarrow> (\<exists>f. c = Calling f WCall) \<or> (\<exists>f r. c = Calling f (WStore r))"

lemma inside_simps [simp]:
  "\<not> inside Outside" "\<not> inside (Returned f r)" "\<not> inside Unwound"
  "\<not> inside (Calling f WSwap)" "inside (Calling f WCall)" "inside (Calling f (WStore r))"
  by (auto simp: inside_def)

text \<open>The call of thread \<open>t\<close> with closure \<open>f\<close> took effect at some point with result \<open>r\<close>,
  and \<open>t\<close> made no later call.\<close>

definition took_effect :: "'a \<Rightarrow> ('a, 'r) spin_world \<Rightarrow> tid \<Rightarrow> ('a, 'r) closure \<Rightarrow> 'r \<Rightarrow> bool" where
  "took_effect d w t f r \<longleftrightarrow>
     (\<exists>xs ys. applied w = xs @ (t, f) # ys \<and> t \<notin> fst ` set ys \<and>
        fst (f (run_closures xs d)) = Some r)"

definition spin_excl :: "('a, 'r) spin_world \<Rightarrow> bool" where
  "spin_excl w \<longleftrightarrow>
     (\<forall>t u. inside (caller w t) \<longrightarrow> inside (caller w u) \<longrightarrow> t = u) \<and>
     (poisoned w \<longrightarrow> (\<forall>t. \<not> inside (caller w t))) \<and>
     (sl_locked (slk w) \<longleftrightarrow> poisoned w \<or> (\<exists>t. inside (caller w t)))"


lemma spin_excl_init: "spin_init d w \<Longrightarrow> spin_excl w"
  by (auto simp: spin_init_def spin_excl_def spin_new_def)


lemma spin_excl_step: "spin_step w w' \<Longrightarrow> spin_excl w \<Longrightarrow> spin_excl w'"
proof (induction rule: spin_step.induct)
  case (call w t f)
  then have "\<not> inside (caller w t)" by (auto simp: inside_def)
  with call show ?case by (auto simp: spin_excl_def)
next
  case (run w t f p c l)
  show ?case
  proof (cases p)
    case WSwap
    with run have nt: "\<not> inside (caller w t)" by simp
    with run WSwap show ?thesis
      by (cases "sl_locked (slk w)")
        (auto simp: spin_excl_def spin_swap_def caller_next_def, metis nt)
  next
    case WCall
    with run have t: "inside (caller w t)" by simp
    then have lk: "sl_locked (slk w)" "\<not> poisoned w"
      using run.prems unfolding spin_excl_def by blast+
    from t run have "u \<noteq> t \<Longrightarrow> \<not> inside (caller w u)" for u
      by (auto simp: spin_excl_def)
    with run WCall t lk show ?thesis
      by (auto simp: spin_excl_def caller_next_def split: prod.splits option.splits)
  next
    case (WStore r)
    with run have t: "inside (caller w t)" by simp
    then have lk: "sl_locked (slk w)" "\<not> poisoned w"
      using run.prems unfolding spin_excl_def by blast+
    from t run have "u \<noteq> t \<Longrightarrow> \<not> inside (caller w u)" for u
      by (auto simp: spin_excl_def)
    with run WStore t lk show ?thesis
      by (auto simp: spin_excl_def caller_next_def spin_store_def)
  qed
qed


lemma took_effect_same: "took_effect d w u g r \<Longrightarrow> applied w' = applied w \<Longrightarrow> took_effect d w' u g r"
  by (simp add: took_effect_def)



interpretation excl_inv: machine_invariant "spin_init d" spin_step spin_excl for d :: 'a
  by unfold_locales (auto intro: spin_excl_init spin_excl_step)


section \<open>Properties\<close>

text \<open>C2: mutual exclusion. Two threads are never both between the winning swap and the release
  of the same spinlock, and the lock word is set exactly when a thread is there or a closure
  has panicked.\<close>

theorem with_mut_mutual_exclusion:
  assumes "reach (spin_init d) spin_step w"
  shows "(inside (caller w t) \<longrightarrow> inside (caller w u) \<longrightarrow> t = u) \<and>
    (sl_locked (slk w) \<longleftrightarrow> poisoned w \<or> (\<exists>v. inside (caller w v)))"
  using excl_inv.reach_inv [OF assms] by (auto simp: spin_excl_def)


text \<open>Runs for the witnesses: a thread enters, and a thread completes a call.\<close>

definition spin_world0 :: "'a \<Rightarrow> ('a, 'r) spin_world" where
  "spin_world0 d = \<lparr>slk = spin_new d, caller = (\<lambda>_. Outside), applied = [], poisoned = False\<rparr>"

lemma spin_world0_init: "spin_init d (spin_world0 d)"
  by (simp add: spin_init_def spin_world0_def)

lemma spin_world0_enter:
  "reach (spin_init d) spin_step
     (spin_world0 d\<lparr>slk := \<lparr>sl_data = d, sl_locked = True\<rparr>,
        caller := (\<lambda>_. Outside)(t := Calling f WCall)\<rparr>)"
proof -
  have "spin_step (spin_world0 d) (spin_world0 d\<lparr>caller := (\<lambda>_. Outside)(t := Calling f WSwap)\<rparr>)"
    using spin_step.call [of "spin_world0 d" t f] by (simp add: spin_world0_def)
  moreover have "spin_step (spin_world0 d\<lparr>caller := (\<lambda>_. Outside)(t := Calling f WSwap)\<rparr>)
     (spin_world0 d\<lparr>slk := \<lparr>sl_data = d, sl_locked = True\<rparr>,
        caller := (\<lambda>_. Outside)(t := Calling f WCall)\<rparr>)"
    using spin_step.run [of "spin_world0 d\<lparr>caller := (\<lambda>_. Outside)(t := Calling f WSwap)\<rparr>" t f WSwap]
    by (simp add: spin_world0_def spin_new_def spin_swap_def caller_next_def)
  ultimately show ?thesis
    by (blast intro: reach_step reach_init spin_world0_init)
qed

theorem with_mut_mutual_exclusion_witness:
  "\<exists>w :: (nat, nat) spin_world. reach (spin_init 7) spin_step w \<and> sl_locked (slk w) \<and>
     (\<forall>u. u \<noteq> 1 \<longleftrightarrow> \<not> inside (caller w u))"
proof -
  let ?w = "spin_world0 7\<lparr>slk := \<lparr>sl_data = 7, sl_locked = True\<rparr>,
        caller := (\<lambda>_. Outside)(1 := Calling (\<lambda>n :: nat. (Some n, Suc n)) WCall)\<rparr>"
  have r: "reach (spin_init 7) spin_step ?w" by (rule spin_world0_enter)
  have "\<not> inside (caller ?w u)" if "u \<noteq> 1" for u
    using with_mut_mutual_exclusion [OF r, of 1 u] that by simp
  with r show ?thesis by (intro exI [of _ ?w]) auto
qed

lemma spin_run_step:
  "reach ini spin_step w \<Longrightarrow> caller w t = Calling f p \<Longrightarrow> with_mut_step f p (slk w) = (c, l) \<Longrightarrow>
   reach ini spin_step (w\<lparr>slk := l, caller := (caller w)(t := caller_next f c),
       applied := (if p = WCall then applied w @ [(t, f)] else applied w),
       poisoned := (poisoned w \<or> c = Panic)\<rparr>)"
  by (rule reach_step, assumption, rule spin_step.run)


lemma spin_poisoned_step:
  assumes "spin_step w w'" "spin_excl w" "poisoned w"
  shows "poisoned w' \<and> applied w' = applied w"
  using assms
proof (induction rule: spin_step.induct)
  case (run w t f p c l)
  from run.prems have "\<not> inside (caller w t)" by (simp add: spin_excl_def)
  with run.hyps have "\<not> inside (Calling f p)" by simp
  with run show ?case by (cases p) (auto simp: spin_swap_def)
qed auto

lemma spin_poisoned_steps:
  "spin_step\<^sup>*\<^sup>* w w' \<Longrightarrow> spin_excl w \<Longrightarrow> poisoned w \<Longrightarrow>
   spin_excl w' \<and> poisoned w' \<and> applied w' = applied w"
  by (induction rule: rtranclp_induct) (use spin_poisoned_step spin_excl_step in fastforce)+

text \<open>C4: the documentation of \<^verbatim>\<open>with_mut\<close> says the lock is released even if the closure
  panics. It is not: from any reachable state in which a closure has panicked, in every later
  state the lock word is still set and no closure ever runs again.\<close>

theorem with_mut_panic_never_released:
  assumes "reach (spin_init d) spin_step w" and "poisoned w" and "spin_step\<^sup>*\<^sup>* w w'"
  shows "sl_locked (slk w') \<and> applied w' = applied w"
  using spin_poisoned_steps [OF assms(3) excl_inv.reach_inv [OF assms(1)] assms(2)]
  by (auto simp: spin_excl_def)

theorem with_mut_panic_never_released_witness:
  "\<exists>w :: (nat, nat) spin_world. reach (spin_init 7) spin_step w \<and> caller w 1 = Unwound \<and>
     (\<forall>w'. spin_step\<^sup>*\<^sup>* w w' \<longrightarrow> sl_locked (slk w'))"
proof -
  let ?f = "\<lambda>n :: nat. (None :: nat option, Suc n)"
  let ?w1 = "spin_world0 7\<lparr>slk := \<lparr>sl_data = 7, sl_locked = True\<rparr>,
        caller := (\<lambda>_. Outside)(1 := Calling ?f WCall)\<rparr>"
  let ?w2 = "?w1\<lparr>slk := \<lparr>sl_data = 8, sl_locked = True\<rparr>,
        caller := (\<lambda>_. Outside)(1 := Unwound), applied := [(1, ?f)], poisoned := True\<rparr>"
  have "reach (spin_init 7) spin_step ?w1" by (rule spin_world0_enter)
  from spin_run_step [OF this, of 1 ?f WCall]
  have r: "reach (spin_init 7) spin_step ?w2"
    by (simp add: caller_next_def spin_world0_def)
  have "sl_locked (slk w')" if "spin_step\<^sup>*\<^sup>* ?w2 w'" for w'
    using with_mut_panic_never_released [OF r _ that] by simp
  with r show ?thesis by (intro exI [of _ ?w2]) auto
qed

text \<open>C5: on a free spinlock \<^verbatim>\<open>with_mut\<close> returns after three atomic steps, with the
  closure's result and the closure's update of the data, and leaves the lock free.\<close>

theorem with_mut_uncontended:
  "f d = (Some r, d') \<Longrightarrow> n \<ge> 3 \<Longrightarrow>
   run_alone (with_mut_step f) n WSwap (spin_new d) = (Return r, spin_new d')"
proof -
  assume f: "f d = (Some r, d')" and n: "n \<ge> 3"
  have "run_alone (with_mut_step f) 3 WSwap (spin_new d) = (Return r, spin_new d')"
    using f by (simp add: numeral_3_eq_3 spin_new_def spin_swap_def spin_store_def)
  from run_alone_Return_mono [OF this, of "n - 3"] n show ?thesis by simp
qed

theorem with_mut_uncontended_witness:
  "run_alone (with_mut_step (\<lambda>xs :: int list. (Some (sum_list (xs @ [4])), xs @ [4]))) 5 WSwap
     (spin_new [1, 2, 3]) = (Return 10, spin_new [1, 2, 3, 4])"
  by (rule with_mut_uncontended) simp_all

end
