(* ===== verification/Platform.thy ===== *)
theory Platform
  imports Prelude
begin

text \<open>
  What the crate uses of its surroundings: the run-time probe of
  \<^verbatim>\<open>src/wasm_support.rs\<close>, the choice between blocking and spinning made by the
  \<^verbatim>\<open>_sync\<close> methods, thread parking, the clock, the timeout threads, and the
  third-party crate \<^verbatim>\<open>continue\<close>, which is a parameter of the model.
\<close>

section \<open>The Atomics.wait probe\<close>

text \<open>
  The JavaScript globals the probe looks at: whether \<^verbatim>\<open>SharedArrayBuffer\<close> and
  \<^verbatim>\<open>Atomics\<close> are defined, whether \<^verbatim>\<open>Atomics.wait\<close> is a function, whether the
  allocation in the \<^verbatim>\<open>try\<close> block throws, and what \<^verbatim>\<open>Atomics.wait(ia, 0, 0, 0)\<close>
  does: \<open>None\<close> when it throws, as it does on a browser's main thread.
\<close>

record js_env =
  js_shared_array_buffer :: bool
  js_atomics :: bool
  js_wait_is_function :: bool
  js_alloc_throws :: bool
  js_wait_result :: "string option"

definition atomics_wait_supported :: "js_env \<Rightarrow> bool" where
  "atomics_wait_supported e =
     (if \<not> js_shared_array_buffer e then False
      else if \<not> js_atomics e \<or> \<not> js_wait_is_function e then False
      else if js_alloc_throws e then False
      else (case js_wait_result e of
              None \<Rightarrow> False
            | Some result \<Rightarrow> result = ''timed-out'' \<or> result = ''not-equal''))"

section \<open>Targets and the adaptive choice\<close>

datatype target = Native | Wasm32 js_env

datatype strategy = Blocking | Spinning

text \<open>The shape shared by every \<^verbatim>\<open>_sync\<close> method: \<^verbatim>\<open>cfg(target_arch)\<close>, then the probe.\<close>

definition sync_strategy :: "target \<Rightarrow> strategy" where
  "sync_strategy g = (case g of
       Native \<Rightarrow> Blocking
     | Wasm32 e \<Rightarrow> if atomics_wait_supported e then Blocking else Spinning)"

section \<open>The environment of a run\<close>

text \<open>
  \<open>continuation\<close>, \<open>send\<close> and \<open>is_ready\<close> are the operations of the crate
  \<^verbatim>\<open>continue\<close> the code calls: make a sender and receiver pair, complete the receiver,
  and ask whether polling the receiver gives \<^verbatim>\<open>Poll::Ready\<close>. They act on a state of a
  type of their own. \<open>is_live\<close> says which pairs have been made. \<open>can_park\<close> and
  \<open>can_spawn\<close> say whether \<^verbatim>\<open>thread::park\<close> and thread spawning work on this target.
\<close>

record 'k env =
  continuation :: "'k \<Rightarrow> cont_id \<times> 'k"
  send :: "cont_id \<Rightarrow> 'k \<Rightarrow> 'k"
  is_ready :: "'k \<Rightarrow> cont_id \<Rightarrow> bool"
  is_live :: "'k \<Rightarrow> cont_id \<Rightarrow> bool"
  can_park :: bool
  can_spawn :: bool

text \<open>
  The documented behaviour of a one-shot continuation: sending completes exactly its own
  receiver, completion is permanent, and a new pair is fresh and incomplete.
\<close>

definition cont_ok :: "'k env \<Rightarrow> bool" where
  "cont_ok E \<longleftrightarrow>
     (\<forall>k i j. is_ready E (send E i k) j = (j = i \<or> is_ready E k j)) \<and>
     (\<forall>k i j. is_live E (send E i k) j = is_live E k j) \<and>
     (\<forall>k i k'. continuation E k = (i, k') \<longrightarrow>
        \<not> is_live E k i \<and> \<not> is_ready E k' i \<and>
        (\<forall>j. is_live E k' j = (j = i \<or> is_live E k j)) \<and>
        (\<forall>j. j \<noteq> i \<longrightarrow> is_ready E k' j = is_ready E k j))"

lemma cont_ok_send:
  assumes "cont_ok E"
  shows "is_ready E (send E i k) j = (j = i \<or> is_ready E k j)"
    and "is_live E (send E i k) j = is_live E k j"
  using assms unfolding cont_ok_def by blast+

lemma cont_ok_new:
  assumes "cont_ok E" "continuation E k = (i, k')"
  shows "\<not> is_live E k i" and "\<not> is_ready E k' i"
    and "is_live E k' j = (j = i \<or> is_live E k j)"
    and "j \<noteq> i \<Longrightarrow> is_ready E k' j = is_ready E k j"
  using assms unfolding cont_ok_def by blast+

text \<open>A concrete instance: pairs numbered from 0, with the set of the completed ones.\<close>

definition demo_env :: "bool \<Rightarrow> (nat \<times> nat list) env" where
  "demo_env p =
     \<lparr>continuation = (\<lambda>(n, rs). (n, (Suc n, filter (\<lambda>r. r \<noteq> n) rs))),
      send = (\<lambda>i (n, rs). (n, i # rs)),
      is_ready = (\<lambda>(n, rs) i. i \<in> set rs),
      is_live = (\<lambda>(n, rs) i. i < n),
      can_park = p, can_spawn = True\<rparr>"

lemma demo_env_ok: "cont_ok (demo_env p)"
  by (auto simp: cont_ok_def demo_env_def)

section \<open>The state of the platform\<close>

text \<open>
  \<open>now\<close> is what \<^verbatim>\<open>Instant::now()\<close> reads. \<open>token t\<close> is the parking token of
  thread \<open>t\<close>: \<^verbatim>\<open>unpark\<close> sets it and \<^verbatim>\<open>park\<close> returns by consuming it.
  \<open>timers\<close> holds the sleeping timeout threads, each with its deadline and its sender.
\<close>

record 'k os =
  now :: instant
  token :: "tid \<Rightarrow> bool"
  conts :: 'k
  timers :: "(instant \<times> cont_id) list"

definition unpark :: "tid \<Rightarrow> ('k, 'z) os_scheme \<Rightarrow> ('k, 'z) os_scheme" where
  [step_defs]: "unpark t w = w\<lparr>token := (token w)(t := True)\<rparr>"

definition send_to :: "'k env \<Rightarrow> cont_id \<Rightarrow> ('k, 'z) os_scheme \<Rightarrow> ('k, 'z) os_scheme" where
  [step_defs]: "send_to E r w = w\<lparr>conts := send E r (conts w)\<rparr>"

text \<open>
  \<^verbatim>\<open>thread::park\<close>: panics where parking is not available, returns by consuming the
  token, and otherwise blocks (\<open>Next\<close> of itself). A spurious return is a token set by the
  environment. \<^verbatim>\<open>park_timeout\<close> also returns at the instant \<open>until\<close>.
\<close>

definition park :: "'k env \<Rightarrow> tid \<Rightarrow> ('k, 'z) os_scheme \<Rightarrow> (unit, unit) ctl \<times> ('k, 'z) os_scheme" where
  [step_defs]: "park E t w =
     (if \<not> can_park E then (Panic, w)
      else if token w t then (Return (), w\<lparr>token := (token w)(t := False)\<rparr>)
      else (Next (), w))"

definition park_until ::
    "'k env \<Rightarrow> tid \<Rightarrow> instant \<Rightarrow> ('k, 'z) os_scheme \<Rightarrow> (unit, unit) ctl \<times> ('k, 'z) os_scheme" where
  [step_defs]: "park_until E t until w =
     (if \<not> can_park E then (Panic, w)
      else if token w t then (Return (), w\<lparr>token := (token w)(t := False)\<rparr>)
      else if until \<le> now w then (Return (), w)
      else (Next (), w))"

section \<open>Properties\<close>


end
