(* ===== verification/WaitList.thy ===== *)
theory WaitList
  imports Spinlock Platform
begin

text \<open>
  The idiom every blocking or async acquisition of the crate is built on: under the spinlock of
  a wait list, try to take the lock and on failure push a handle; and after a release, take
  the whole list under its spinlock and wake every handle in it. First the two code fragments
  as programs of atomic steps; then an abstract specification of the protocol between them,
  with the proof that no wakeup is lost; then the locale through which the mutex and the
  reader-writer lock inherit that result for each of their lists.
\<close>

section \<open>The two code fragments\<close>

text \<open>What one attempt on the lock word gives: the new word, refusal, or a panic.\<close>

datatype 'w attempt = Got 'w | Denied | Panicked

text \<open>
  \<^verbatim>\<open>waiting.with_mut(|threads| match self.try_lock() { Ok(guard) => Ok(guard), Err(_) => {
  threads.push(handle); Err(NotAvailable) } })\<close>: swap until the spinlock is won, attempt, push
  on failure, release. The closure is not atomic for the lock word, which other agents may
  change between the attempt and the push.
\<close>

datatype 'h reg_pc = RSwap | RTry | RPush | RStoreOk | RStoreErr 'h

datatype 'h reg_res = RGo "'h reg_pc" | RGot | RQueued 'h | RPanic

fun reg_step :: "('w \<Rightarrow> 'w attempt) \<Rightarrow> 'h \<Rightarrow> 'h reg_pc \<Rightarrow> 'w \<Rightarrow> 'h list spinlock \<Rightarrow>
    'h reg_res \<times> 'w \<times> 'h list spinlock" where
  "reg_step try h RSwap x l =
     (let (old, l') = spin_swap l in (RGo (if old then RSwap else RTry), x, l'))"
| "reg_step try h RTry x l =
     (case try x of
        Got x' \<Rightarrow> (RGo RStoreOk, x', l)
      | Denied \<Rightarrow> (RGo RPush, x, l)
      | Panicked \<Rightarrow> (RPanic, x, l))"
| "reg_step try h RPush x l = (RGo (RStoreErr h), x, l\<lparr>sl_data := vec_push (sl_data l) h\<rparr>)"
| "reg_step try h RStoreOk x l = (RGot, x, spin_store l)"
| "reg_step try h (RStoreErr h') x l = (RQueued h', x, spin_store l)"

text \<open>The handle about to be reported is the thread's own, or a live continuation.\<close>

fun reg_sync_ok :: "tid \<Rightarrow> tid reg_pc \<Rightarrow> bool" where
  "reg_sync_ok t (RStoreErr h) = (h = t)"
| "reg_sync_ok t _ = True"

fun reg_async_ok :: "'k env \<Rightarrow> 'k \<Rightarrow> cont_id reg_pc \<Rightarrow> bool" where
  "reg_async_ok E k (RStoreErr r) = is_live E k r"
| "reg_async_ok E k _ = True"

text \<open>The wait list after a step of the acquiring fragment.\<close>

lemma reg_step_list:
  "reg_step try h p b l = (res, b', l') \<Longrightarrow>
   sl_data l' = (if p = RPush then sl_data l @ [h] else sl_data l) \<and>
   (\<forall>g. res = RGo (RStoreErr g) \<longrightarrow> p = RPush \<and> g = h) \<and>
   (\<forall>g. res = RQueued g \<longrightarrow> p = RStoreErr g)"
  by (cases p; cases "sl_locked l")
    (auto simp: spin_swap_def spin_store_def vec_push_def split: attempt.splits)

lemma reg_sync_ok_iff: "reg_sync_ok t p \<longleftrightarrow> (\<forall>h. p = RStoreErr h \<longrightarrow> h = t)"
  by (cases p) auto

lemma reg_async_ok_iff: "reg_async_ok E k p \<longleftrightarrow> (\<forall>r. p = RStoreErr r \<longrightarrow> is_live E k r)"
  by (cases p) auto

text \<open>
  \<^verbatim>\<open>let threads = waiting.with_mut(std::mem::take); for thread in threads { thread.unpark(); }\<close>
\<close>

datatype 'h drain_pc = TSwap | TTake | TStore "'h list" | TWake "'h list"

datatype 'h drain_res = DGo "'h drain_pc" | DWake 'h "'h drain_pc" | DDone

fun drain_step :: "'h drain_pc \<Rightarrow> 'h list spinlock \<Rightarrow> 'h drain_res \<times> 'h list spinlock" where
  "drain_step TSwap l = (let (old, l') = spin_swap l in (DGo (if old then TSwap else TTake), l'))"
| "drain_step TTake l = (let (hs, d) = mem_take (sl_data l) in (DGo (TStore hs), l\<lparr>sl_data := d\<rparr>))"
| "drain_step (TStore hs) l = (DGo (TWake hs), spin_store l)"
| "drain_step (TWake []) l = (DDone, l)"
| "drain_step (TWake (h # hs)) l = (DWake h (TWake hs), l)"

text \<open>The handles a drain has taken and not yet woken.\<close>

fun drain_hand :: "'h drain_pc \<Rightarrow> 'h set" where
  "drain_hand (TStore hs) = set hs"
| "drain_hand (TWake hs) = set hs"
| "drain_hand _ = {}"

lemma drain_step_hand:
  "drain_step p l = (res, l') \<Longrightarrow>
   (case res of
      DGo p' \<Rightarrow> set (sl_data l') \<union> drain_hand p' \<subseteq> set (sl_data l) \<union> drain_hand p
    | DWake h p' \<Rightarrow> h \<in> drain_hand p \<and> drain_hand p' \<subseteq> drain_hand p \<and> l' = l
    | DDone \<Rightarrow> l' = l)"
proof (cases p)
  case (TWake hs)
  then show "drain_step p l = (res, l') \<Longrightarrow> ?thesis" by (cases hs) auto
qed (auto simp: spin_swap_def spin_store_def mem_take_def)

section \<open>The abstract protocol\<close>

text \<open>
  The role of an agent in the protocol of one wait list. \<open>Trying\<close>, \<open>Pushing\<close>,
  \<open>Queued\<close> and \<open>Backing\<close> own the list's spinlock on the way in; \<open>Asleep h\<close> waits for
  handle \<open>h\<close>. \<open>Owing\<close> has released the lock and has yet to drain the list;
  \<open>Draining\<close> and \<open>Drained\<close> own the spinlock; \<open>Waking\<close> has handles left to wake.
  \<open>Stuck\<close> has panicked while it owned the spinlock.
\<close>

datatype 'h role =
    Elsewhere
  | Trying | Pushing | Queued 'h | Backing
  | Asleep 'h
  | Owing | Draining | Drained "'h list" | Waking "'h list"
  | Stuck

record 'h wl =
  wl_avail :: bool
  wl_queue :: "'h list"
  wl_lk :: bool
  wl_woken :: "'h \<Rightarrow> bool"
  wl_role :: "tid \<Rightarrow> 'h role"

fun owns_list :: "'h role \<Rightarrow> bool" where
  "owns_list Trying = True"
| "owns_list Pushing = True"
| "owns_list (Queued h) = True"
| "owns_list Backing = True"
| "owns_list Draining = True"
| "owns_list (Drained hs) = True"
| "owns_list Stuck = True"
| "owns_list _ = False"

fun sleeps_on :: "'h role \<Rightarrow> 'h \<Rightarrow> bool" where
  "sleeps_on (Queued h) g = (h = g)"
| "sleeps_on (Asleep h) g = (h = g)"
| "sleeps_on _ g = False"

fun in_hand :: "'h role \<Rightarrow> 'h \<Rightarrow> bool" where
  "in_hand (Drained hs) h = (h \<in> set hs)"
| "in_hand (Waking hs) h = (h \<in> set hs)"
| "in_hand _ h = False"

definition wl_init :: "'h wl \<Rightarrow> bool" where
  "wl_init a \<longleftrightarrow> wl_queue a = [] \<and> \<not> wl_lk a \<and> (\<forall>t. wl_role a t = Elsewhere)"

text \<open>
  The steps. The lock can stop being available at any time (somebody took it by another
  way) but becomes available only through \<open>offer\<close>, whose agent then owes a drain. A handle
  can be woken at any time, and an agent can stop waiting at any time.
\<close>

inductive wl_step :: "'h wl \<Rightarrow> 'h wl \<Rightarrow> bool" where
  enter: "wl_role a t = Elsewhere \<Longrightarrow> \<not> wl_lk a \<Longrightarrow>
     wl_step a (a\<lparr>wl_lk := True, wl_role := (wl_role a)(t := Trying)\<rparr>)"
| attempt: "wl_role a t = Trying \<Longrightarrow> (v \<longrightarrow> wl_avail a) \<Longrightarrow>
     wl_step a (a\<lparr>wl_avail := v, wl_role := (wl_role a)(t := Backing)\<rparr>)"
| refused: "wl_role a t = Trying \<Longrightarrow> \<not> wl_avail a \<Longrightarrow>
     wl_step a (a\<lparr>wl_role := (wl_role a)(t := Pushing)\<rparr>)"
| panicked: "wl_role a t = Trying \<Longrightarrow> wl_step a (a\<lparr>wl_role := (wl_role a)(t := Stuck)\<rparr>)"
| push: "wl_role a t = Pushing \<Longrightarrow>
     wl_step a (a\<lparr>wl_queue := wl_queue a @ [h], wl_role := (wl_role a)(t := Queued h)\<rparr>)"
| leave_ok: "wl_role a t = Backing \<Longrightarrow>
     wl_step a (a\<lparr>wl_lk := False, wl_role := (wl_role a)(t := Elsewhere)\<rparr>)"
| leave_err: "wl_role a t = Queued h \<Longrightarrow>
     wl_step a (a\<lparr>wl_lk := False, wl_role := (wl_role a)(t := Asleep h)\<rparr>)"
| wake_up: "wl_role a t = Asleep h \<Longrightarrow> (\<forall>u. u \<noteq> t \<longrightarrow> \<not> sleeps_on (wl_role a u) h) \<or> v \<Longrightarrow>
     wl_step a (a\<lparr>wl_woken := (wl_woken a)(h := v \<and> wl_woken a h), wl_role := (wl_role a)(t := Elsewhere)\<rparr>)"
| offer: "wl_role a t = Elsewhere \<Longrightarrow>
     wl_step a (a\<lparr>wl_avail := v, wl_role := (wl_role a)(t := Owing)\<rparr>)"
| drain_enter: "wl_role a t = Owing \<Longrightarrow> \<not> wl_lk a \<Longrightarrow>
     wl_step a (a\<lparr>wl_lk := True, wl_role := (wl_role a)(t := Draining)\<rparr>)"
| drain: "wl_role a t = Draining \<Longrightarrow>
     wl_step a (a\<lparr>wl_queue := [], wl_role := (wl_role a)(t := Drained (wl_queue a))\<rparr>)"
| drain_leave: "wl_role a t = Drained hs \<Longrightarrow>
     wl_step a (a\<lparr>wl_lk := False, wl_role := (wl_role a)(t := Waking hs)\<rparr>)"
| wake: "wl_role a t = Waking (h # hs) \<Longrightarrow>
     wl_step a (a\<lparr>wl_woken := (wl_woken a)(h := True), wl_role := (wl_role a)(t := Waking hs)\<rparr>)"
| wake_done: "wl_role a t = Waking [] \<Longrightarrow>
     wl_step a (a\<lparr>wl_role := (wl_role a)(t := Elsewhere)\<rparr>)"
| taken: "wl_step a (a\<lparr>wl_avail := False\<rparr>)"
| rouse: "(\<And>h. wl_woken a h \<Longrightarrow> k h) \<Longrightarrow> wl_step a (a\<lparr>wl_woken := k\<rparr>)"
| forget: "(\<And>u. \<not> sleeps_on (wl_role a u) h) \<Longrightarrow>
     wl_step a (a\<lparr>wl_woken := (wl_woken a)(h := False)\<rparr>)"

section \<open>The invariant of the protocol\<close>

text \<open>Ownership of the spinlock is exclusive and is what its flag says.\<close>

definition wl_excl :: "'h wl \<Rightarrow> bool" where
  "wl_excl a \<longleftrightarrow> exclusive owns_list (wl_lk a) (wl_role a)"

text \<open>A handle somebody sleeps on is woken, or on the list, or in the hand of a drainer.\<close>

definition accounted :: "'h wl \<Rightarrow> 'h \<Rightarrow> bool" where
  "accounted a h \<longleftrightarrow>
     wl_woken a h \<or> h \<in> set (wl_queue a) \<or> (\<exists>u. in_hand (wl_role a u) h)"

definition wl_tracked :: "'h wl \<Rightarrow> bool" where
  "wl_tracked a \<longleftrightarrow> (\<forall>t h. sleeps_on (wl_role a t) h \<longrightarrow> accounted a h)"

text \<open>While there is a handle on the list, or one is about to be pushed, the lock is not
  available, or a drain is still to come.\<close>

definition drain_to_come :: "'h wl \<Rightarrow> bool" where
  "drain_to_come a \<longleftrightarrow> (\<exists>u. wl_role a u = Owing \<or> wl_role a u = Draining)"

definition wl_covered :: "'h wl \<Rightarrow> bool" where
  "wl_covered a \<longleftrightarrow>
     (wl_queue a \<noteq> [] \<or> (\<exists>t. wl_role a t = Pushing) \<longrightarrow> \<not> wl_avail a \<or> drain_to_come a)"

definition wl_ok :: "'h wl \<Rightarrow> bool" where
  "wl_ok a \<longleftrightarrow> wl_excl a \<and> wl_tracked a \<and> wl_covered a"

lemma wl_ok_init: "wl_init a \<Longrightarrow> wl_ok a"
  by (auto simp: wl_init_def wl_ok_def wl_excl_def wl_tracked_def wl_covered_def intro: exclusive_init)

lemma wl_excl_step: "wl_step a a' \<Longrightarrow> wl_excl a \<Longrightarrow> wl_excl a'"
  unfolding wl_excl_def
  by (induction rule: wl_step.induct)
    (auto intro: exclusive_gain exclusive_keep exclusive_lose exclusive_other)

lemma in_hand_upd:
  "\<exists>u. in_hand (f u) h \<Longrightarrow> (in_hand (f t) h \<Longrightarrow> in_hand r h) \<Longrightarrow> \<exists>u. in_hand ((f(t := r)) u) h"
  by (metis fun_upd_apply)

text \<open>One agent changes its role: its handles stay accounted for when nothing is lost.\<close>

lemma wl_tracked_upd:
  assumes "wl_tracked a" and "wl_role a' = (wl_role a)(t := r)"
    and "\<And>h. sleeps_on r h \<Longrightarrow> sleeps_on (wl_role a t) h \<or> h \<in> set (wl_queue a')"
    and "\<And>h u. u \<noteq> t \<Longrightarrow> sleeps_on (wl_role a u) h \<Longrightarrow> wl_woken a h \<Longrightarrow> wl_woken a' h"
    and "\<And>h. sleeps_on r h \<Longrightarrow> wl_woken a h \<Longrightarrow> wl_woken a' h"
    and "\<And>h. h \<in> set (wl_queue a) \<Longrightarrow> h \<in> set (wl_queue a') \<or> in_hand r h"
    and "\<And>h. in_hand (wl_role a t) h \<Longrightarrow> in_hand r h \<or> wl_woken a' h"
  shows "wl_tracked a'"
  unfolding wl_tracked_def
proof (intro allI impI)
  fix u h
  assume s: "sleeps_on (wl_role a' u) h"
  show "accounted a' h"
  proof (cases "h \<in> set (wl_queue a')")
    case False
    with s assms(2,3) have "sleeps_on (wl_role a u) h" by (auto split: if_splits)
    with assms(1) have "accounted a h" by (auto simp: wl_tracked_def)
    then consider "wl_woken a h" | "h \<in> set (wl_queue a)" | v where "in_hand (wl_role a v) h"
      by (auto simp: accounted_def)
    then show ?thesis
    proof cases
      case 1
      with s assms(2,4,5) have "wl_woken a' h" by (cases "u = t") auto
      then show ?thesis by (simp add: accounted_def)
    next
      case 2
      with False assms(6) have "in_hand (wl_role a' t) h" by (auto simp: assms(2))
      then show ?thesis by (auto simp: accounted_def)
    next
      case 3
      then show ?thesis
        using assms(7) by (cases "v = t") (auto simp: accounted_def assms(2) intro: exI [of _ v])
    qed
  qed (simp add: accounted_def)
qed

lemma wl_tracked_same:
  "wl_tracked a \<Longrightarrow> wl_role a' = wl_role a \<Longrightarrow> wl_queue a' = wl_queue a \<Longrightarrow>
   (\<And>h t. wl_woken a h \<Longrightarrow> sleeps_on (wl_role a t) h \<Longrightarrow> wl_woken a' h) \<Longrightarrow> wl_tracked a'"
  by (auto simp: wl_tracked_def accounted_def)

lemma wl_tracked_step: "wl_step a a' \<Longrightarrow> wl_tracked a \<Longrightarrow> wl_tracked a'"
proof (induction rule: wl_step.induct)
  case (taken a)
  then show ?case by (rule wl_tracked_same) auto
next
  case (rouse a k)
  from rouse(2) show ?case by (rule wl_tracked_same) (auto intro: rouse)
next
  case (forget a h)
  from forget(2) show ?case by (rule wl_tracked_same) (use forget(1) in auto)
qed (erule wl_tracked_upd, (simp; fail), (auto split: if_splits)[5])+

lemma drain_to_come_upd:
  "drain_to_come a \<Longrightarrow> wl_role a' = (wl_role a)(t := r) \<Longrightarrow>
   (wl_role a t = Owing \<or> wl_role a t = Draining \<Longrightarrow> r = Draining) \<Longrightarrow> drain_to_come a'"
  unfolding drain_to_come_def by (metis fun_upd_apply)

lemma wl_covered_step: "wl_step a a' \<Longrightarrow> wl_excl a \<Longrightarrow> wl_covered a \<Longrightarrow> wl_covered a'"
proof (induction rule: wl_step.induct)
  case (drain a t)
  then have "wl_role a u \<noteq> Pushing" for u
    using exclusive_unique [of owns_list "wl_lk a" "wl_role a" t u] by (auto simp: wl_excl_def)
  then show ?case by (auto simp: wl_covered_def)
next
  case (offer a t v)
  then show ?case by (auto simp: wl_covered_def drain_to_come_def)
next
  case (rouse a k)
  then show ?case by (simp add: wl_covered_def drain_to_come_def)
next
  case (forget a h)
  then show ?case by (simp add: wl_covered_def drain_to_come_def)
qed (unfold wl_covered_def, (auto split: if_splits elim: drain_to_come_upd)+)

interpretation wl_inv: machine_invariant wl_init wl_step wl_ok
  by unfold_locales
    (auto simp: wl_ok_def intro: wl_excl_step wl_tracked_step wl_covered_step
      dest: wl_ok_init [unfolded wl_ok_def])

section \<open>No wakeup is lost\<close>

text \<open>An agent that will still wake \<open>h\<close>: it has yet to take the list, or it took it and has
  \<open>h\<close> left to wake.\<close>

definition owes :: "'h wl \<Rightarrow> tid \<Rightarrow> 'h \<Rightarrow> bool" where
  "owes a u h \<longleftrightarrow> wl_role a u = Owing \<or> wl_role a u = Draining \<or> in_hand (wl_role a u) h"

lemma wl_no_lost_wakeup:
  assumes "wl_ok a" "wl_role a t = Asleep h" "\<not> wl_woken a h" "wl_avail a"
  shows "\<exists>u. owes a u h"
proof -
  from assms(2) have "sleeps_on (wl_role a t) h" by simp
  with assms(1) have "accounted a h" unfolding wl_ok_def wl_tracked_def by blast
  with assms(3) consider "h \<in> set (wl_queue a)" | u where "in_hand (wl_role a u) h"
    by (auto simp: accounted_def)
  then show ?thesis
  proof cases
    case 1
    with assms(1,4) have "drain_to_come a" by (auto simp: wl_ok_def wl_covered_def)
    then show ?thesis by (auto simp: drain_to_come_def owes_def)
  qed (auto simp: owes_def)
qed

section \<open>Simulation of the fragments\<close>

fun reg_role :: "'h reg_pc \<Rightarrow> 'h role" where
  "reg_role RSwap = Elsewhere"
| "reg_role RTry = Trying"
| "reg_role RPush = Pushing"
| "reg_role RStoreOk = Backing"
| "reg_role (RStoreErr h) = Queued h"

fun reg_res_role :: "'h reg_res \<Rightarrow> 'h role" where
  "reg_res_role (RGo p) = reg_role p"
| "reg_res_role RGot = Elsewhere"
| "reg_res_role (RQueued h) = Asleep h"
| "reg_res_role RPanic = Stuck"

fun drain_role :: "'h drain_pc \<Rightarrow> 'h role" where
  "drain_role TSwap = Owing"
| "drain_role TTake = Draining"
| "drain_role (TStore hs) = Drained hs"
| "drain_role (TWake hs) = Waking hs"

fun drain_res_role :: "'h drain_res \<Rightarrow> 'h role" where
  "drain_res_role (DGo p) = drain_role p"
| "drain_res_role (DWake h p) = drain_role p"
| "drain_res_role DDone = Elsewhere"

fun drain_woken :: "'h drain_res \<Rightarrow> ('h \<Rightarrow> bool) \<Rightarrow> 'h \<Rightarrow> bool" where
  "drain_woken (DWake h p) k = k(h := True)"
| "drain_woken _ k = k"

text \<open>A drain that will still wake \<open>h\<close>: it has yet to take the list, or has \<open>h\<close> in hand.\<close>

fun has_or_takes :: "'h \<Rightarrow> 'h drain_pc \<Rightarrow> bool" where
  "has_or_takes h TSwap = True"
| "has_or_takes h TTake = True"
| "has_or_takes h (TStore hs) = (h \<in> set hs)"
| "has_or_takes h (TWake hs) = (h \<in> set hs)"

lemma drain_role_owes:
  "drain_role p = Owing \<or> drain_role p = Draining \<or> in_hand (drain_role p) h \<Longrightarrow> has_or_takes h p"
  by (cases p) auto

lemma reg_role_not_owes:
  "reg_role p \<noteq> Owing" "reg_role p \<noteq> Draining" "\<not> in_hand (reg_role p) h"
  by (cases p; simp)+

definition wl_of :: "bool \<Rightarrow> 'h list spinlock \<Rightarrow> ('h \<Rightarrow> bool) \<Rightarrow> (tid \<Rightarrow> 'h role) \<Rightarrow> 'h wl" where
  "wl_of av l k r = \<lparr>wl_avail = av, wl_queue = sl_data l, wl_lk = sl_locked l, wl_woken = k, wl_role = r\<rparr>"

lemma wl_of_sel [simp]:
  "wl_avail (wl_of av l k r) = av" "wl_queue (wl_of av l k r) = sl_data l"
  "wl_lk (wl_of av l k r) = sl_locked l" "wl_woken (wl_of av l k r) = k"
  "wl_role (wl_of av l k r) = r"
  by (simp_all add: wl_of_def)

text \<open>The abstract steps, with the abstract state written out.\<close>

lemma wl_step_eq: "wl_step a b \<Longrightarrow> b = c \<Longrightarrow> wl_step a c"
  by simp

lemma wl_of_enter: "r t = Elsewhere \<Longrightarrow> \<not> sl_locked l \<Longrightarrow>
     wl_step (wl_of av l k r) (wl_of av (l\<lparr>sl_locked := True\<rparr>) k (r(t := Trying)))"
  by (rule wl_step_eq [OF wl_step.enter [where t = t]]) (simp_all add: wl_of_def)

lemma wl_of_attempt: "r t = Trying \<Longrightarrow> (v \<longrightarrow> av) \<Longrightarrow>
     wl_step (wl_of av l k r) (wl_of v l k (r(t := Backing)))"
  by (rule wl_step_eq [OF wl_step.attempt [where t = t and v = v]]) (simp_all add: wl_of_def)

lemma wl_of_refused: "r t = Trying \<Longrightarrow> \<not> av \<Longrightarrow>
     wl_step (wl_of av l k r) (wl_of av l k (r(t := Pushing)))"
  by (rule wl_step_eq [OF wl_step.refused [where t = t]]) (simp_all add: wl_of_def)

lemma wl_of_panicked: "r t = Trying \<Longrightarrow>
     wl_step (wl_of av l k r) (wl_of av l k (r(t := Stuck)))"
  by (rule wl_step_eq [OF wl_step.panicked [where t = t]]) (simp_all add: wl_of_def)

lemma wl_of_push: "r t = Pushing \<Longrightarrow>
     wl_step (wl_of av l k r) (wl_of av (l\<lparr>sl_data := sl_data l @ [h]\<rparr>) k (r(t := Queued h)))"
  by (rule wl_step_eq [OF wl_step.push [where t = t and h = h]]) (simp_all add: wl_of_def)

lemma wl_of_leave_ok: "r t = Backing \<Longrightarrow>
     wl_step (wl_of av l k r) (wl_of av (l\<lparr>sl_locked := False\<rparr>) k (r(t := Elsewhere)))"
  by (rule wl_step_eq [OF wl_step.leave_ok [where t = t]]) (simp_all add: wl_of_def)

lemma wl_of_leave_err: "r t = Queued h \<Longrightarrow>
     wl_step (wl_of av l k r) (wl_of av (l\<lparr>sl_locked := False\<rparr>) k (r(t := Asleep h)))"
  by (rule wl_step_eq [OF wl_step.leave_err [where t = t and h = h]]) (simp_all add: wl_of_def)

lemma wl_of_drain_enter: "r t = Owing \<Longrightarrow> \<not> sl_locked l \<Longrightarrow>
     wl_step (wl_of av l k r) (wl_of av (l\<lparr>sl_locked := True\<rparr>) k (r(t := Draining)))"
  by (rule wl_step_eq [OF wl_step.drain_enter [where t = t]]) (simp_all add: wl_of_def)

lemma wl_of_drain: "r t = Draining \<Longrightarrow>
     wl_step (wl_of av l k r) (wl_of av (l\<lparr>sl_data := []\<rparr>) k (r(t := Drained (sl_data l))))"
  by (rule wl_step_eq [OF wl_step.drain [where t = t]]) (simp_all add: wl_of_def)

lemma wl_of_drain_leave: "r t = Drained hs \<Longrightarrow>
     wl_step (wl_of av l k r) (wl_of av (l\<lparr>sl_locked := False\<rparr>) k (r(t := Waking hs)))"
  by (rule wl_step_eq [OF wl_step.drain_leave [where t = t and hs = hs]]) (simp_all add: wl_of_def)

lemma wl_of_wake: "r t = Waking (h # hs) \<Longrightarrow>
     wl_step (wl_of av l k r) (wl_of av l (k(h := True)) (r(t := Waking hs)))"
  by (rule wl_step_eq [OF wl_step.wake [where t = t and h = h and hs = hs]]) (simp_all add: wl_of_def)

lemma wl_of_wake_done: "r t = Waking [] \<Longrightarrow>
     wl_step (wl_of av l k r) (wl_of av l k (r(t := Elsewhere)))"
  by (rule wl_step_eq [OF wl_step.wake_done [where t = t]]) (simp_all add: wl_of_def)

lemma wl_of_offer: "r t = Elsewhere \<Longrightarrow>
     wl_step (wl_of av l k r) (wl_of v l k (r(t := Owing)))"
  by (rule wl_step_eq [OF wl_step.offer [where t = t and v = v]]) (simp_all add: wl_of_def)

lemma wl_of_taken: "wl_step (wl_of av l k r) (wl_of False l k r)"
  by (rule wl_step_eq [OF wl_step.taken]) (simp_all add: wl_of_def)

lemma wl_of_rouse: "(\<And>h. k h \<Longrightarrow> k' h) \<Longrightarrow>
     wl_step (wl_of av l k r) (wl_of av l k' r)"
  by (rule wl_step_eq [OF wl_step.rouse [where k = k']]) (simp_all add: wl_of_def)

lemma wl_of_forget: "(\<And>u. \<not> sleeps_on (r u) h) \<Longrightarrow>
     wl_step (wl_of av l k r) (wl_of av l (k(h := False)) r)"
  by (rule wl_step_eq [OF wl_step.forget [where h = h]]) (simp_all add: wl_of_def)

lemma wl_of_stop: "r t = Asleep h \<Longrightarrow> wl_step (wl_of av l k r) (wl_of av l k (r(t := Elsewhere)))"
  by (rule wl_step_eq [OF wl_step.wake_up [where t = t and h = h and v = True]]) (simp_all add: wl_of_def)

lemma wl_of_consume:
  "r t = Asleep h \<Longrightarrow> (\<And>u. u \<noteq> t \<Longrightarrow> \<not> sleeps_on (r u) h) \<Longrightarrow>
   wl_step (wl_of av l k r) (wl_of av l (k(h := False)) (r(t := Elsewhere)))"
  by (rule wl_step_eq [OF wl_step.wake_up [where t = t and h = h and v = False]]) (simp_all add: wl_of_def)

text \<open>A step that leaves the list and the roles alone and may take the lock word.\<close>

lemma wl_of_idle:
  assumes "\<And>x. r x = r' x" "av' \<longrightarrow> av" "\<And>h. k h \<Longrightarrow> k' h"
  shows "wl_step\<^sup>*\<^sup>* (wl_of av l k r) (wl_of av' l k' r')"
proof -
  have r: "r' = r" using assms(1) by auto
  have "wl_step (wl_of av l k r) (wl_of av l k' r)" by (rule wl_of_rouse) (rule assms(3))
  moreover have "wl_step\<^sup>*\<^sup>* (wl_of av l k' r) (wl_of av' l k' r)"
    using assms(2) wl_of_taken [of av l k' r] by (cases "av' = av") auto
  ultimately show ?thesis unfolding r by (rule converse_rtranclp_into_rtranclp)
qed

lemma wl_of_quit:
  "r t = Asleep h \<Longrightarrow> wl_step\<^sup>*\<^sup>* (wl_of av l k r) (wl_of av l k (r(t := Elsewhere)))"
  by (rule r_into_rtranclp, rule wl_of_stop)

text \<open>A step of the acquiring fragment is a step of the protocol, for any lock word whose
  attempt is refused only when the lock is not available and never makes it available.\<close>

lemma reg_sim:
  assumes step: "reg_step try h p x l = (res, x', l')"
    and role: "r t = reg_role p"
    and tr: "try x = Denied \<Longrightarrow> \<not> av x" "\<And>y. try x = Got y \<Longrightarrow> av y \<Longrightarrow> av x"
  shows "wl_step\<^sup>*\<^sup>* (wl_of (av x) l k r) (wl_of (av x') l' k (r(t := reg_res_role res)))"
proof (cases p)
  case RSwap
  show ?thesis
  proof (cases "sl_locked l")
    case True
    then have "l\<lparr>sl_locked := True\<rparr> = l" by simp
    with RSwap step role True show ?thesis
      by (auto simp: spin_swap_def fun_upd_idem)
  next
    case False
    with RSwap step role show ?thesis
      by (auto simp: spin_swap_def intro!: r_into_rtranclp wl_of_enter)
  qed
next
  case RTry
  with step role tr show ?thesis
    by (auto split: attempt.splits intro!: r_into_rtranclp wl_of_attempt wl_of_refused wl_of_panicked)
next
  case RPush
  with step role show ?thesis
    by (auto simp: vec_push_def intro!: r_into_rtranclp wl_of_push)
next
  case RStoreOk
  with step role show ?thesis
    by (auto simp: spin_store_def intro!: r_into_rtranclp wl_of_leave_ok)
next
  case (RStoreErr g)
  with step role show ?thesis
    by (auto simp: spin_store_def intro!: r_into_rtranclp wl_of_leave_err)
qed

lemma drain_sim:
  assumes step: "drain_step p l = (res, l')" and role: "r t = drain_role p"
  shows "wl_step\<^sup>*\<^sup>* (wl_of av l k r) (wl_of av l' (drain_woken res k) (r(t := drain_res_role res)))"
proof (cases p)
  case TSwap
  show ?thesis
  proof (cases "sl_locked l")
    case True
    then have "l\<lparr>sl_locked := True\<rparr> = l" by simp
    with TSwap step role True show ?thesis
      by (auto simp: spin_swap_def fun_upd_idem)
  next
    case False
    with TSwap step role show ?thesis
      by (auto simp: spin_swap_def intro!: r_into_rtranclp wl_of_drain_enter)
  qed
next
  case TTake
  with step role show ?thesis
    by (auto simp: mem_take_def intro!: r_into_rtranclp wl_of_drain)
next
  case (TStore hs)
  with step role show ?thesis
    by (auto simp: spin_store_def intro!: r_into_rtranclp wl_of_drain_leave)
next
  case (TWake hs)
  with step role show ?thesis
    by (cases hs) (auto intro!: r_into_rtranclp wl_of_wake wl_of_wake_done)
qed

text \<open>The fragments never come back to a program counter within two steps, except to the
  swap that spins on a spinlock that is taken.\<close>

lemma reg_step_cycle:
  "reg_step try h q x l = (RGo q, x', l') \<Longrightarrow> q = RSwap \<and> sl_locked l"
  "reg_step try h q x l = (RGo p, x', l') \<Longrightarrow> reg_step try' h' p x' l' = (RGo q, x2, l2) \<Longrightarrow>
   q = RSwap \<and> sl_locked l"
  "reg_step try h q x l = (RQueued g, x', l') \<Longrightarrow> q = RStoreErr g"
  by (cases q; auto simp: spin_swap_def split: attempt.splits prod.splits if_splits)+

lemma drain_wake_inv:
  "drain_step p l = (DWake g p', l') \<longleftrightarrow> (\<exists>hs. p = TWake (g # hs) \<and> p' = TWake hs \<and> l' = l)"
proof (cases p)
  case (TWake hs)
  then show ?thesis by (cases hs) auto
qed (auto simp: spin_swap_def mem_take_def)

lemma drain_go_inv:
  "drain_step p l = (DGo p', l') \<Longrightarrow>
   p = TSwap \<and> (p' = TSwap \<and> sl_locked l \<or> p' = TTake \<and> \<not> sl_locked l) \<or>
   p = TTake \<and> (\<exists>hs. p' = TStore hs) \<or> (\<exists>hs. p = TStore hs \<and> p' = TWake hs)"
proof (cases p)
  case (TWake hs)
  then show "drain_step p l = (DGo p', l') \<Longrightarrow> ?thesis" by (cases hs) auto
qed (auto simp: spin_swap_def mem_take_def split: if_splits)

text \<open>
  A whole drain, run alone: the list is taken and emptied, the spinlock is free again and
  every handle that was on the list is woken once, in order.
\<close>

fun run_drain :: "nat \<Rightarrow> 'h drain_pc \<Rightarrow> 'h list spinlock \<Rightarrow> 'h list \<Rightarrow> ('h list \<times> 'h list spinlock) option" where
  "run_drain 0 p l ws = None"
| "run_drain (Suc n) p l ws =
     (case drain_step p l of
        (DGo p', l') \<Rightarrow> run_drain n p' l' ws
      | (DWake h p', l') \<Rightarrow> run_drain n p' l' (ws @ [h])
      | (DDone, l') \<Rightarrow> Some (ws, l'))"

lemma run_drain_wake: "length hs < n \<Longrightarrow> run_drain n (TWake hs) l ws = Some (ws @ hs, l)"
proof (induction hs arbitrary: n ws)
  case Nil
  then show ?case by (cases n) auto
next
  case (Cons h hs)
  then show ?case by (cases n) auto
qed

lemma run_drain_all:
  assumes "\<not> sl_locked l" and "length (sl_data l) + 3 < n"
  shows "run_drain n TSwap l [] = Some (sl_data l, \<lparr>sl_data = [], sl_locked = False\<rparr>)"
proof -
  define m where "m = n - 3"
  from assms(2) have n: "n = Suc (Suc (Suc m))" and m: "length (sl_data l) < m"
    unfolding m_def by arith+
  show ?thesis using assms(1) m unfolding n
    by (simp add: spin_swap_def mem_take_def spin_store_def run_drain_wake)
qed

section \<open>The interface of a wait list\<close>

text \<open>
  A machine whose abstraction to one of its wait lists simulates the protocol. The lock that
  owns the list interprets it once per list, and gets: the protocol's invariant, and that a
  sleeper that has not been woken while the lock is available will be woken by somebody.
\<close>

locale wait_list_client = machine_simulation ini stp inv wl_init wl_step absf
  for ini :: "'s \<Rightarrow> bool" and stp :: "'s \<Rightarrow> 's \<Rightarrow> bool" and inv :: "'s \<Rightarrow> bool"
    and absf :: "'s \<Rightarrow> 'h wl"
begin

lemma list_ok: "reach ini stp s \<Longrightarrow> wl_ok (absf s)"
  by (rule wl_inv.reach_inv, rule sim_reach)

lemma no_lost_wakeup:
  "reach ini stp s \<Longrightarrow> wl_role (absf s) t = Asleep h \<Longrightarrow> \<not> wl_woken (absf s) h \<Longrightarrow>
   wl_avail (absf s) \<Longrightarrow> \<exists>u. owes (absf s) u h"
  by (blast intro: wl_no_lost_wakeup list_ok)

lemma list_lock_owner:
  "reach ini stp s \<Longrightarrow> wl_lk (absf s) \<Longrightarrow> \<exists>!u. owns_list (wl_role (absf s) u)"
  using list_ok [of s] unfolding wl_ok_def wl_excl_def
  by (metis exclusive_held exclusive_unique)

end

end
