(* ===== verification/Mutex.thy ===== *)
theory Mutex
  imports WaitList
begin

text \<open>
  \<^verbatim>\<open>src/mutex.rs\<close>, \<^verbatim>\<open>src/mutex/*.rs\<close> and the mutex guard of \<^verbatim>\<open>src/guard.rs\<close>:
  the data of \<^verbatim>\<open>Mutex\<close>, every locking method as a program of atomic steps, the guard's
  drop with \<^verbatim>\<open>did_unlock\<close>, and the \<^verbatim>\<open>with_*\<close> methods.
\<close>

section \<open>Data\<close>

record 'a mutex =
  inner :: 'a
  data_lock :: bool
  waiting_sync_threads :: "tid list spinlock"
  waiting_async_threads :: "cont_id list spinlock"

datatype not_available = NotAvailable

definition not_available_display :: "not_available \<Rightarrow> string" where
  "not_available_display e = ''lock not available''"

definition mutex_new :: "'a \<Rightarrow> 'a mutex" where
  "mutex_new v = \<lparr>inner = v, data_lock = False,
     waiting_sync_threads = spin_new [], waiting_async_threads = spin_new []\<rparr>"

definition mutex_default :: "'a \<Rightarrow> 'a mutex" where
  \<comment> \<open>the argument is \<^verbatim>\<open>T::default()\<close>\<close>
  "mutex_default v = mutex_new v"

definition mutex_from :: "'a \<Rightarrow> 'a mutex" where
  "mutex_from v = mutex_new v"

text \<open>\<^verbatim>\<open>try_lock\<close>: one compare-exchange; \<open>Inr ()\<close> stands for the guard.\<close>

definition try_lock :: "'a mutex \<Rightarrow> (not_available + unit) \<times> 'a mutex" where
  "try_lock m =
     (case compare_exchange False True (data_lock m) of
        (Inr _, b) \<Rightarrow> (Inr (), m\<lparr>data_lock := b\<rparr>)
      | (Inl _, b) \<Rightarrow> (Inl NotAvailable, m\<lparr>data_lock := b\<rparr>))"

lemma try_lock_eq:
  "try_lock m = (if data_lock m then (Inl NotAvailable, m) else (Inr (), m\<lparr>data_lock := True\<rparr>))"
  by (simp add: try_lock_def compare_exchange_def)

text \<open>The same attempt on the bare lock word, as the wait-list fragment calls it.\<close>

definition lock_attempt :: "bool \<Rightarrow> bool attempt" where
  [step_defs]: "lock_attempt b =
     (case compare_exchange False True b of (Inr _, b') \<Rightarrow> Got b' | (Inl _, _) \<Rightarrow> Denied)"

text \<open>The guard: \<^verbatim>\<open>deref\<close> reads the data and \<^verbatim>\<open>deref_mut\<close> replaces it.\<close>

definition guard_deref :: "'a mutex \<Rightarrow> 'a" where
  "guard_deref m = inner m"

definition guard_deref_mut :: "'a \<Rightarrow> 'a mutex \<Rightarrow> 'a mutex" where
  [step_defs]: "guard_deref_mut v m = m\<lparr>inner := v\<rparr>"

text \<open>\<^verbatim>\<open>AsRef\<close>, \<^verbatim>\<open>AsMut\<close> and \<^verbatim>\<open>Display\<close> of the guard go through these.\<close>

definition guard_as_ref :: "'a mutex \<Rightarrow> 'a" where
  "guard_as_ref m = guard_deref m"

definition guard_as_mut :: "'a \<Rightarrow> 'a mutex \<Rightarrow> 'a mutex" where
  "guard_as_mut v m = guard_deref_mut v m"

definition guard_display :: "('a \<Rightarrow> string) \<Rightarrow> 'a mutex \<Rightarrow> string" where
  "guard_display fmt m = fmt (guard_deref m)"

text \<open>\<^verbatim>\<open>Display\<close>: what is printed after one \<^verbatim>\<open>try_lock\<close>; \<open>fmt\<close> formats the data.\<close>

definition mutex_display :: "('a \<Rightarrow> string) \<Rightarrow> 'a mutex \<Rightarrow> string" where
  "mutex_display fmt m =
     (case try_lock m of
        (Inr _, m') \<Rightarrow> fmt (guard_deref m')
      | (Inl _, m') \<Rightarrow> ''Mutex { <locked> }'')"

section \<open>Program counters\<close>

text \<open>
  One constructor per atomic step of a locking method, with the locals that live across it:
  the deadline \<open>d\<close>, the continuation \<open>r\<close> of the notification and \<open>q\<close> of the timeout,
  the remaining time, the instant at which \<^verbatim>\<open>park_timeout\<close> gives up.
\<close>

datatype lock_pc =
    TryCas
  | SpinSwap
  | SpinTSwap instant | SpinTNow instant
  | BlockReg "tid reg_pc" | BlockPark
  | BlockTNow instant | BlockTLast instant | BlockTReg instant "tid reg_pc"
  | BlockTRem instant | BlockTCall instant nat | BlockTPark instant instant
  | AsyncReg "cont_id reg_pc" | AsyncAwait cont_id
  | AsyncTNow instant | AsyncTLast instant | AsyncTReg instant "cont_id reg_pc"
  | AsyncTSpawn instant cont_id
  | AsyncTNotify instant cont_id cont_id | AsyncTTimeout instant cont_id cont_id

text \<open>
  Where the future of an async method is suspended, at its \<^verbatim>\<open>.await\<close>, and may be dropped by
  its owner. That drops the receivers it awaits and nothing else: the sender stays on the list.
\<close>

fun lock_awaits :: "lock_pc \<Rightarrow> bool" where
  "lock_awaits (AsyncAwait r) = True"
| "lock_awaits (AsyncTNotify d r q) = True"
| "lock_awaits p = False"

text \<open>A locking method returns a guard, \<^verbatim>\<open>None\<close> at its deadline, or \<^verbatim>\<open>Err(NotAvailable)\<close>.\<close>

datatype lock_res = Acquired | NoneAt instant | Unavailable

text \<open>Dropping a guard: the store to the lock word, then \<^verbatim>\<open>did_unlock\<close>.\<close>

datatype drop_pc = DStore | DSync "tid drain_pc" | DAsync "cont_id drain_pc"

text \<open>The state of an agent with respect to one mutex.\<close>

datatype mpc =
    Idle
  | Locking lock_pc
  | Holding
  | Dropping drop_pc
  | TimedOut instant
  | Refused
  | Crashed

fun agent_awaits :: "mpc \<Rightarrow> bool" where
  "agent_awaits (Locking p) = lock_awaits p"
| "agent_awaits c = False"

record ('k, 'a) mworld = "'k os" +
  mtx :: "'a mutex"
  agents :: "tid \<Rightarrow> mpc"

section \<open>The locking methods\<close>

definition sync_reg :: "tid \<Rightarrow> tid reg_pc \<Rightarrow> 'a mutex \<Rightarrow> tid reg_res \<times> 'a mutex" where
  [step_defs]: "sync_reg t p m =
     (case reg_step lock_attempt t p (data_lock m) (waiting_sync_threads m) of
        (res, b, l) \<Rightarrow> (res, m\<lparr>data_lock := b, waiting_sync_threads := l\<rparr>))"

text \<open>In the async methods the handle is the sender of a continuation made in the closure,
  after the attempt has failed.\<close>

definition async_reg :: "'k env \<Rightarrow> cont_id reg_pc \<Rightarrow> ('k, 'a, 'z) mworld_scheme \<Rightarrow>
    cont_id reg_res \<times> ('k, 'a, 'z) mworld_scheme" where
  [step_defs]: "async_reg E p w =
     (let (r, k) = continuation E (conts w); m = mtx w in
      case reg_step lock_attempt r p (data_lock m) (waiting_async_threads m) of
        (res, b, l) \<Rightarrow> (res, w\<lparr>conts := (if p = RPush then k else conts w),
                            mtx := m\<lparr>data_lock := b, waiting_async_threads := l\<rparr>\<rparr>))"

text \<open>\<^verbatim>\<open>data_lock.swap(true, Acquire)\<close>.\<close>

definition lock_swap :: "'a mutex \<Rightarrow> bool \<times> 'a mutex" where
  [step_defs]: "lock_swap m = (data_lock m, m\<lparr>data_lock := True\<rparr>)"

fun try_step :: "('k, 'a, 'z) mworld_scheme \<Rightarrow> (lock_pc, lock_res) ctl \<times> ('k, 'a, 'z) mworld_scheme" where
  "try_step w =
     (case try_lock (mtx w) of
        (Inr _, m) \<Rightarrow> (Return Acquired, w\<lparr>mtx := m\<rparr>)
      | (Inl _, m) \<Rightarrow> (Return Unavailable, w\<lparr>mtx := m\<rparr>))"

fun last_try_step :: "instant \<Rightarrow> ('k, 'a, 'z) mworld_scheme \<Rightarrow>
    (lock_pc, lock_res) ctl \<times> ('k, 'a, 'z) mworld_scheme" where
  "last_try_step d w =
     (case try_lock (mtx w) of
        (Inr _, m) \<Rightarrow> (Return Acquired, w\<lparr>mtx := m\<rparr>)
      | (Inl _, m) \<Rightarrow> (Return (NoneAt d), w\<lparr>mtx := m\<rparr>))"

text \<open>\<^verbatim>\<open>lock_spin\<close> and \<^verbatim>\<open>lock_spin_timeout\<close>.\<close>

fun lock_spin_step :: "lock_pc \<Rightarrow> ('k, 'a, 'z) mworld_scheme \<Rightarrow>
    (lock_pc, lock_res) ctl \<times> ('k, 'a, 'z) mworld_scheme" where
  "lock_spin_step SpinSwap w =
     (let (old, m) = lock_swap (mtx w) in
      (if old then Next SpinSwap else Return Acquired, w\<lparr>mtx := m\<rparr>))"
| "lock_spin_step (SpinTSwap d) w =
     (let (old, m) = lock_swap (mtx w) in
      (if old then Next (SpinTNow d) else Return Acquired, w\<lparr>mtx := m\<rparr>))"
| "lock_spin_step (SpinTNow d) w =
     (if d \<le> now w then (Return (NoneAt d), w) else (Next (SpinTSwap d), w))"
| "lock_spin_step p w = (Next p, w)"

text \<open>\<^verbatim>\<open>lock_block\<close>.\<close>

fun lock_block_step :: "'k env \<Rightarrow> tid \<Rightarrow> lock_pc \<Rightarrow> ('k, 'a, 'z) mworld_scheme \<Rightarrow>
    (lock_pc, lock_res) ctl \<times> ('k, 'a, 'z) mworld_scheme" where
  "lock_block_step E t (BlockReg p) w =
     (case sync_reg t p (mtx w) of (res, m) \<Rightarrow>
       (case res of
          RGo p' \<Rightarrow> Next (BlockReg p')
        | RGot \<Rightarrow> Return Acquired
        | RQueued h \<Rightarrow> Next BlockPark
        | RPanic \<Rightarrow> Panic, w\<lparr>mtx := m\<rparr>))"
| "lock_block_step E t BlockPark w =
     (case park E t w of
        (Return _, w') \<Rightarrow> (Next (BlockReg RSwap), w')
      | (Next _, w') \<Rightarrow> (Next BlockPark, w')
      | (Panic, w') \<Rightarrow> (Panic, w'))"
| "lock_block_step E t p w = (Next p, w)"

text \<open>\<^verbatim>\<open>lock_block_timeout\<close>. The subtraction of instants saturates at zero, as it does for
  \<^verbatim>\<open>Instant\<close>.\<close>

fun lock_block_timeout_step :: "'k env \<Rightarrow> tid \<Rightarrow> lock_pc \<Rightarrow> ('k, 'a, 'z) mworld_scheme \<Rightarrow>
    (lock_pc, lock_res) ctl \<times> ('k, 'a, 'z) mworld_scheme" where
  "lock_block_timeout_step E t (BlockTNow d) w =
     (if d \<le> now w then (Next (BlockTLast d), w) else (Next (BlockTReg d RSwap), w))"
| "lock_block_timeout_step E t (BlockTLast d) w = last_try_step d w"
| "lock_block_timeout_step E t (BlockTReg d p) w =
     (case sync_reg t p (mtx w) of (res, m) \<Rightarrow>
       (case res of
          RGo p' \<Rightarrow> Next (BlockTReg d p')
        | RGot \<Rightarrow> Return Acquired
        | RQueued h \<Rightarrow> Next (BlockTRem d)
        | RPanic \<Rightarrow> Panic, w\<lparr>mtx := m\<rparr>))"
| "lock_block_timeout_step E t (BlockTRem d) w = (Next (BlockTCall d (d - now w)), w)"
| "lock_block_timeout_step E t (BlockTCall d rem) w = (Next (BlockTPark d (now w + rem)), w)"
| "lock_block_timeout_step E t (BlockTPark d until) w =
     (case park_until E t until w of
        (Return _, w') \<Rightarrow> (Next (BlockTNow d), w')
      | (Next _, w') \<Rightarrow> (Next (BlockTPark d until), w')
      | (Panic, w') \<Rightarrow> (Panic, w'))"
| "lock_block_timeout_step E t p w = (Next p, w)"

text \<open>\<^verbatim>\<open>lock_async\<close>: the await is pending (\<open>Next\<close> of itself) until the receiver is ready.\<close>

fun lock_async_step :: "'k env \<Rightarrow> lock_pc \<Rightarrow> ('k, 'a, 'z) mworld_scheme \<Rightarrow>
    (lock_pc, lock_res) ctl \<times> ('k, 'a, 'z) mworld_scheme" where
  "lock_async_step E (AsyncReg p) w =
     (case async_reg E p w of (res, w') \<Rightarrow>
       (case res of
          RGo p' \<Rightarrow> Next (AsyncReg p')
        | RGot \<Rightarrow> Return Acquired
        | RQueued r \<Rightarrow> Next (AsyncAwait r)
        | RPanic \<Rightarrow> Panic, w'))"
| "lock_async_step E (AsyncAwait r) w =
     (Next (if is_ready E (conts w) r then AsyncReg RSwap else AsyncAwait r), w)"
| "lock_async_step E p w = (Next p, w)"

text \<open>
  \<^verbatim>\<open>lock_async_timeout\<close>: on refusal it makes the timeout continuation, spawns the timeout
  thread, and awaits the race, whose \<^verbatim>\<open>poll\<close> looks at the notification first and at the
  timeout second; when both are pending the executor polls again.
\<close>

fun lock_async_timeout_step :: "'k env \<Rightarrow> lock_pc \<Rightarrow> ('k, 'a, 'z) mworld_scheme \<Rightarrow>
    (lock_pc, lock_res) ctl \<times> ('k, 'a, 'z) mworld_scheme" where
  "lock_async_timeout_step E (AsyncTNow d) w =
     (if d \<le> now w then (Next (AsyncTLast d), w) else (Next (AsyncTReg d RSwap), w))"
| "lock_async_timeout_step E (AsyncTLast d) w = last_try_step d w"
| "lock_async_timeout_step E (AsyncTReg d p) w =
     (case async_reg E p w of (res, w') \<Rightarrow>
       (case res of
          RGo p' \<Rightarrow> Next (AsyncTReg d p')
        | RGot \<Rightarrow> Return Acquired
        | RQueued r \<Rightarrow> Next (AsyncTSpawn d r)
        | RPanic \<Rightarrow> Panic, w'))"
| "lock_async_timeout_step E (AsyncTSpawn d r) w =
     (let (q, k) = continuation E (conts w) in
      if can_spawn E
      then (Next (AsyncTNotify d r q), w\<lparr>conts := k, timers := (d, q) # timers w\<rparr>)
      else (Panic, w\<lparr>conts := k\<rparr>))"
| "lock_async_timeout_step E (AsyncTNotify d r q) w =
     (Next (if is_ready E (conts w) r then AsyncTNow d else AsyncTTimeout d r q), w)"
| "lock_async_timeout_step E (AsyncTTimeout d r q) w =
     (if is_ready E (conts w) q then (Return (NoneAt d), w) else (Next (AsyncTNotify d r q), w))"
| "lock_async_timeout_step E p w = (Next p, w)"

text \<open>The method a program counter belongs to.\<close>

fun lock_step :: "'k env \<Rightarrow> tid \<Rightarrow> lock_pc \<Rightarrow> ('k, 'a, 'z) mworld_scheme \<Rightarrow>
    (lock_pc, lock_res) ctl \<times> ('k, 'a, 'z) mworld_scheme" where
  "lock_step E t TryCas w = try_step w"
| "lock_step E t SpinSwap w = lock_spin_step SpinSwap w"
| "lock_step E t (SpinTSwap d) w = lock_spin_step (SpinTSwap d) w"
| "lock_step E t (SpinTNow d) w = lock_spin_step (SpinTNow d) w"
| "lock_step E t (BlockReg p) w = lock_block_step E t (BlockReg p) w"
| "lock_step E t BlockPark w = lock_block_step E t BlockPark w"
| "lock_step E t (BlockTNow d) w = lock_block_timeout_step E t (BlockTNow d) w"
| "lock_step E t (BlockTLast d) w = lock_block_timeout_step E t (BlockTLast d) w"
| "lock_step E t (BlockTReg d p) w = lock_block_timeout_step E t (BlockTReg d p) w"
| "lock_step E t (BlockTRem d) w = lock_block_timeout_step E t (BlockTRem d) w"
| "lock_step E t (BlockTCall d n) w = lock_block_timeout_step E t (BlockTCall d n) w"
| "lock_step E t (BlockTPark d u) w = lock_block_timeout_step E t (BlockTPark d u) w"
| "lock_step E t (AsyncReg p) w = lock_async_step E (AsyncReg p) w"
| "lock_step E t (AsyncAwait r) w = lock_async_step E (AsyncAwait r) w"
| "lock_step E t p w = lock_async_timeout_step E p w"

text \<open>The public methods, by the program counter they start at.\<close>

datatype lock_method =
    TryLock | LockSpin | LockSpinTimeout instant | LockBlock | LockBlockTimeout instant
  | LockAsync | LockAsyncTimeout instant

fun entry :: "lock_method \<Rightarrow> lock_pc" where
  "entry TryLock = TryCas"
| "entry LockSpin = SpinSwap"
| "entry (LockSpinTimeout d) = SpinTSwap d"
| "entry LockBlock = BlockReg RSwap"
| "entry (LockBlockTimeout d) = BlockTNow d"
| "entry LockAsync = AsyncReg RSwap"
| "entry (LockAsyncTimeout d) = AsyncTNow d"

definition lock_sync :: "target \<Rightarrow> lock_method" where
  "lock_sync g = (case sync_strategy g of Blocking \<Rightarrow> LockBlock | Spinning \<Rightarrow> LockSpin)"

definition lock_sync_timeout :: "target \<Rightarrow> instant \<Rightarrow> lock_method" where
  "lock_sync_timeout g d =
     (case sync_strategy g of Blocking \<Rightarrow> LockBlockTimeout d | Spinning \<Rightarrow> LockSpinTimeout d)"

section \<open>Dropping the guard\<close>

text \<open>
  \<^verbatim>\<open>did_unlock\<close>: drain the blocking threads and unpark each, then drain the async tasks
  and send to each.
\<close>

fun did_unlock_step :: "'k env \<Rightarrow> drop_pc \<Rightarrow> ('k, 'a, 'z) mworld_scheme \<Rightarrow>
    (drop_pc, unit) ctl \<times> ('k, 'a, 'z) mworld_scheme" where
  "did_unlock_step E (DSync p) w =
     (case drain_step p (waiting_sync_threads (mtx w)) of (res, l) \<Rightarrow>
       let w' = w\<lparr>mtx := (mtx w)\<lparr>waiting_sync_threads := l\<rparr>\<rparr> in
       (case res of
          DGo p' \<Rightarrow> (Next (DSync p'), w')
        | DWake h p' \<Rightarrow> (Next (DSync p'), unpark h w')
        | DDone \<Rightarrow> (Next (DAsync TSwap), w')))"
| "did_unlock_step E (DAsync p) w =
     (case drain_step p (waiting_async_threads (mtx w)) of (res, l) \<Rightarrow>
       let w' = w\<lparr>mtx := (mtx w)\<lparr>waiting_async_threads := l\<rparr>\<rparr> in
       (case res of
          DGo p' \<Rightarrow> (Next (DAsync p'), w')
        | DWake r p' \<Rightarrow> (Next (DAsync p'), send_to E r w')
        | DDone \<Rightarrow> (Return (), w')))"
| "did_unlock_step E DStore w = (Next DStore, w)"

fun guard_drop_step :: "'k env \<Rightarrow> drop_pc \<Rightarrow> ('k, 'a, 'z) mworld_scheme \<Rightarrow>
    (drop_pc, unit) ctl \<times> ('k, 'a, 'z) mworld_scheme" where
  "guard_drop_step E DStore w =
     (Next (DSync TSwap), w\<lparr>mtx := (mtx w)\<lparr>data_lock := False\<rparr>\<rparr>)"
| "guard_drop_step E p w = did_unlock_step E p w"

section \<open>The with methods\<close>

text \<open>
  \<^verbatim>\<open>with_mut_sync\<close> and \<^verbatim>\<open>with_mut_async\<close>: lock, run the closure on the data, drop the
  guard at the end of the scope. A panic of the closure unwinds through the scope, so the guard
  is dropped then too. \<^verbatim>\<open>with_sync\<close> and \<^verbatim>\<open>with_async\<close> pass a shared reference: the
  closure cannot change the data.
\<close>

datatype 'r with_pc = WithLock lock_pc | WithBody | WithDrop "'r option" drop_pc

fun with_mut_mutex_step :: "'k env \<Rightarrow> tid \<Rightarrow> ('a, 'r) closure \<Rightarrow> 'r with_pc \<Rightarrow>
    ('k, 'a, 'z) mworld_scheme \<Rightarrow> ('r with_pc, 'r) ctl \<times> ('k, 'a, 'z) mworld_scheme" where
  "with_mut_mutex_step E t f (WithLock p) w =
     (case lock_step E t p w of (c, w') \<Rightarrow>
       (case c of
          Next p' \<Rightarrow> Next (WithLock p')
        | Return _ \<Rightarrow> Next WithBody
        | Panic \<Rightarrow> Panic, w'))"
| "with_mut_mutex_step E t f WithBody w =
     (case f (guard_deref (mtx w)) of (ro, v) \<Rightarrow>
       (Next (WithDrop ro DStore), w\<lparr>mtx := guard_deref_mut v (mtx w)\<rparr>))"
| "with_mut_mutex_step E t f (WithDrop ro p) w =
     (case guard_drop_step E p w of (c, w') \<Rightarrow>
       (case c of
          Next p' \<Rightarrow> Next (WithDrop ro p')
        | Return _ \<Rightarrow> (case ro of Some r \<Rightarrow> Return r | None \<Rightarrow> Panic)
        | Panic \<Rightarrow> Panic, w'))"

definition with_mutex_step :: "'k env \<Rightarrow> tid \<Rightarrow> ('a \<Rightarrow> 'r option) \<Rightarrow> 'r with_pc \<Rightarrow>
    ('k, 'a, 'z) mworld_scheme \<Rightarrow> ('r with_pc, 'r) ctl \<times> ('k, 'a, 'z) mworld_scheme" where
  "with_mutex_step E t f = with_mut_mutex_step E t (\<lambda>v. (f v, v))"

definition with_sync_entry :: "target \<Rightarrow> 'r with_pc" where
  "with_sync_entry g = WithLock (entry (lock_sync g))"

definition with_async_entry :: "'r with_pc" where
  "with_async_entry = WithLock (entry LockAsync)"

end
