(* ===== verification/MutexMachine.thy ===== *)
theory MutexMachine
  imports Mutex
begin

text \<open>
  Any number of agents using one mutex at the same time: a step relation whose steps are the
  atomic steps of the methods, the client's own accesses through a guard, the passing of time,
  the timeout threads, and what the rest of the program may do to the parking tokens and the
  continuations. Its invariant gives mutual exclusion, sound timeouts, and, through the
  wait-list interface, that no wakeup is lost.
\<close>

section \<open>The machine\<close>

fun at_rest :: "mpc \<Rightarrow> bool" where
  "at_rest Idle = True"
| "at_rest (TimedOut d) = True"
| "at_rest Refused = True"
| "at_rest _ = False"

fun after_lock :: "(lock_pc, lock_res) ctl \<Rightarrow> mpc" where
  "after_lock (Next p) = Locking p"
| "after_lock (Return Acquired) = Holding"
| "after_lock (Return (NoneAt d)) = TimedOut d"
| "after_lock (Return Unavailable) = Refused"
| "after_lock Panic = Crashed"

fun after_drop :: "(drop_pc, unit) ctl \<Rightarrow> mpc" where
  "after_drop (Next p) = Dropping p"
| "after_drop (Return _) = Idle"
| "after_drop Panic = Crashed"

definition set_agent :: "tid \<Rightarrow> mpc \<Rightarrow> ('k, 'a, 'z) mworld_scheme \<Rightarrow> ('k, 'a, 'z) mworld_scheme" where
  "set_agent t c w = w\<lparr>agents := (agents w)(t := c)\<rparr>"

definition run_lock :: "'k env \<Rightarrow> tid \<Rightarrow> lock_pc \<Rightarrow> ('k, 'a, 'z) mworld_scheme \<Rightarrow> ('k, 'a, 'z) mworld_scheme" where
  "run_lock E t p w = (case lock_step E t p w of (c, w') \<Rightarrow> set_agent t (after_lock c) w')"

definition run_drop :: "'k env \<Rightarrow> tid \<Rightarrow> drop_pc \<Rightarrow> ('k, 'a, 'z) mworld_scheme \<Rightarrow> ('k, 'a, 'z) mworld_scheme" where
  "run_drop E t p w = (case guard_drop_step E p w of (c, w') \<Rightarrow> set_agent t (after_drop c) w')"

text \<open>The timeout thread of a timer: sleep until the deadline, then send.\<close>

definition fire_timer :: "'k env \<Rightarrow> instant \<times> cont_id \<Rightarrow> ('k, 'z) os_scheme \<Rightarrow> ('k, 'z) os_scheme" where
  [step_defs]: "fire_timer E x w = (send_to E (snd x) w)\<lparr>timers := remove1 x (timers w)\<rparr>"

inductive mstep :: "'k env \<Rightarrow> ('k, 'a, 'z) mworld_scheme \<Rightarrow> ('k, 'a, 'z) mworld_scheme \<Rightarrow> bool"
  for E :: "'k env" where
  call: "at_rest (agents w t) \<Longrightarrow> mstep E w (set_agent t (Locking (entry c)) w)"
| lock: "agents w t = Locking p \<Longrightarrow> mstep E w (run_lock E t p w)"
| abandon: "agents w t = Locking p \<Longrightarrow> lock_awaits p \<Longrightarrow> mstep E w (set_agent t Idle w)"
| access: "agents w t = Holding \<Longrightarrow> mstep E w (w\<lparr>mtx := guard_deref_mut v (mtx w)\<rparr>)"
| release: "agents w t = Holding \<Longrightarrow> mstep E w (set_agent t (Dropping DStore) w)"
| drop: "agents w t = Dropping p \<Longrightarrow> mstep E w (run_drop E t p w)"
| tick: "mstep E w (w\<lparr>now := now w + n\<rparr>)"
| fire: "x \<in> set (timers w) \<Longrightarrow> fst x \<le> now w \<Longrightarrow> mstep E w (fire_timer E x w)"
| other_unpark: "mstep E w (unpark t w)"
| other_park: "at_rest (agents w t) \<or> agents w t = Holding \<Longrightarrow>
     mstep E w (w\<lparr>token := (token w)(t := False)\<rparr>)"
| other_cont: "continuation E (conts w) = (i, k) \<Longrightarrow> mstep E w (w\<lparr>conts := k\<rparr>)"
| other_timer: "continuation E (conts w) = (i, k) \<Longrightarrow>
     mstep E w (w\<lparr>conts := k, timers := (d, i) # timers w\<rparr>)"
| other_send: "i \<notin> snd ` set (timers w) \<Longrightarrow> mstep E w (send_to E i w)"
| other_state: "mworld.truncate w' = mworld.truncate w \<Longrightarrow> mstep E w w'"

text \<open>The start of a run: a new mutex, every agent idle, no timeout thread, and an
  environment that satisfies its contract.\<close>

definition minit :: "'k env \<Rightarrow> 'a \<Rightarrow> ('k, 'a, 'z) mworld_scheme \<Rightarrow> bool" where
  "minit E v w \<longleftrightarrow> cont_ok E \<and> mtx w = mutex_new v \<and> (\<forall>t. agents w t = Idle) \<and> timers w = []"

inductive_cases lock_stepE: "mstep E w w'"

lemma set_agent_sel [simp]:
  "agents (set_agent t c w) = (agents w)(t := c)" "mtx (set_agent t c w) = mtx w"
  "token (set_agent t c w) = token w" "conts (set_agent t c w) = conts w"
  "timers (set_agent t c w) = timers w" "now (set_agent t c w) = now w"
  by (simp_all add: set_agent_def)

lemma os_update_sel [simp]:
  "mtx (unpark t w) = mtx w" "agents (unpark t w) = agents w"
  "mtx (send_to E r w) = mtx w" "agents (send_to E r w) = agents w"
  "mtx (fire_timer E x w) = mtx w" "agents (fire_timer E x w) = agents w"
  for w :: "('k, 'a, 'z) mworld_scheme"
  by (simp_all add: unpark_def send_to_def fire_timer_def)

lemma truncate_eqD:
  "mworld.truncate w' = mworld.truncate w \<Longrightarrow>
   mtx w' = mtx w \<and> agents w' = agents w \<and> token w' = token w \<and> conts w' = conts w \<and>
   timers w' = timers w \<and> now w' = now w"
  by (simp add: mworld.truncate_def)

section \<open>Mutual exclusion\<close>

text \<open>The program counters at which an agent owns the lock word: from its successful
  attempt to its store of \<open>False\<close>.\<close>

fun lock_owns :: "lock_pc \<Rightarrow> bool" where
  "lock_owns (BlockReg RStoreOk) = True"
| "lock_owns (BlockTReg d RStoreOk) = True"
| "lock_owns (AsyncReg RStoreOk) = True"
| "lock_owns (AsyncTReg d RStoreOk) = True"
| "lock_owns _ = False"

fun owns :: "mpc \<Rightarrow> bool" where
  "owns Holding = True"
| "owns (Dropping DStore) = True"
| "owns (Locking p) = lock_owns p"
| "owns _ = False"

definition mutex_excl :: "('k, 'a, 'z) mworld_scheme \<Rightarrow> bool" where
  "mutex_excl w \<longleftrightarrow> exclusive owns (data_lock (mtx w)) (agents w)"

lemma not_owns_at_rest: "at_rest c \<Longrightarrow> \<not> owns c"
  by (cases c) auto

lemma not_owns_entry: "\<not> lock_owns (entry c)"
  by (cases c) auto

lemma not_owns_awaits: "lock_awaits p \<Longrightarrow> \<not> lock_owns p"
  by (cases p) auto

text \<open>What one step of a locking method does to the lock word, by whether the agent owned it
  before: an owner keeps it, another takes it when it is free, or nothing happens.\<close>

lemma reg_step_word:
  "reg_step lock_attempt h p b l = (res, b', l') \<Longrightarrow>
   (if p = RTry \<and> \<not> b then b' \<and> res = RGo RStoreOk else b' = b \<and> res \<noteq> RGo RStoreOk) \<and>
   (res = RGot \<longleftrightarrow> p = RStoreOk) \<and> res \<noteq> RPanic"
  by (cases p; cases "sl_locked l") (auto simp: lock_attempt_def compare_exchange_def spin_swap_def)

lemma sync_reg_word:
  "sync_reg t p m = (res, m') \<Longrightarrow>
   (if p = RTry \<and> \<not> data_lock m then data_lock m' \<and> res = RGo RStoreOk
    else data_lock m' = data_lock m \<and> res \<noteq> RGo RStoreOk) \<and>
   (res = RGot \<longleftrightarrow> p = RStoreOk) \<and> res \<noteq> RPanic \<and> inner m' = inner m \<and>
   waiting_async_threads m' = waiting_async_threads m"
  by (cases "reg_step lock_attempt t p (data_lock m) (waiting_sync_threads m)")
    (auto simp: sync_reg_def dest!: reg_step_word)

lemma async_reg_word:
  "async_reg E p w = (res, w') \<Longrightarrow>
   (if p = RTry \<and> \<not> data_lock (mtx w) then data_lock (mtx w') \<and> res = RGo RStoreOk
    else data_lock (mtx w') = data_lock (mtx w) \<and> res \<noteq> RGo RStoreOk) \<and>
   (res = RGot \<longleftrightarrow> p = RStoreOk) \<and> res \<noteq> RPanic \<and> inner (mtx w') = inner (mtx w) \<and>
   waiting_sync_threads (mtx w') = waiting_sync_threads (mtx w) \<and>
   agents w' = agents w \<and> token w' = token w \<and> timers w' = timers w \<and> now w' = now w"
  by (cases "continuation E (conts w)";
      cases "reg_step lock_attempt (fst (continuation E (conts w))) p (data_lock (mtx w))
        (waiting_async_threads (mtx w))")
    (auto simp: async_reg_def dest!: reg_step_word)

lemma park_word:
  "park E t w = (c, w') \<Longrightarrow> mtx w' = mtx w \<and> agents w' = agents w \<and> conts w' = conts w \<and>
     timers w' = timers w \<and> now w' = now w"
  "park_until E t u w = (c, w') \<Longrightarrow> mtx w' = mtx w \<and> agents w' = agents w \<and> conts w' = conts w \<and>
     timers w' = timers w \<and> now w' = now w"
  for w w' :: "('k, 'a, 'z) mworld_scheme"
  by (auto simp: park_def park_until_def split: if_splits)

lemma lock_owns_reg [simp]:
  "lock_owns (BlockReg p) \<longleftrightarrow> p = RStoreOk" "lock_owns (BlockTReg d p) \<longleftrightarrow> p = RStoreOk"
  "lock_owns (AsyncReg p') \<longleftrightarrow> p' = RStoreOk" "lock_owns (AsyncTReg d p') \<longleftrightarrow> p' = RStoreOk"
  by (cases p; simp)+ (cases p'; simp)+

definition word_ok :: "bool \<Rightarrow> mpc \<Rightarrow> 'a mutex \<Rightarrow> 'a mutex \<Rightarrow> bool" where
  "word_ok o1 c m m' \<longleftrightarrow>
     (if o1 then owns c \<and> data_lock m' = data_lock m
      else if owns c then \<not> data_lock m \<and> data_lock m'
      else data_lock m' = data_lock m) \<and> inner m' = inner m"

lemma lock_step_word:
  assumes "lock_step E t p w = (c, w')"
  shows "word_ok (lock_owns p) (after_lock c) (mtx w) (mtx w') \<and> agents w' = agents w"
proof (cases p)
  case (BlockReg q)
  with assms show ?thesis
    by (auto simp: word_ok_def split: prod.splits reg_res.splits dest!: sync_reg_word split: if_splits)
next
  case (BlockTReg d q)
  with assms show ?thesis
    by (auto simp: word_ok_def split: prod.splits reg_res.splits dest!: sync_reg_word split: if_splits)
next
  case (AsyncReg q)
  with assms show ?thesis
    by (auto simp: word_ok_def split: prod.splits reg_res.splits dest!: async_reg_word split: if_splits)
next
  case (AsyncTReg d q)
  with assms show ?thesis
    by (auto simp: word_ok_def split: prod.splits reg_res.splits dest!: async_reg_word split: if_splits)
qed (use assms in \<open>auto simp: word_ok_def try_lock_eq lock_swap_def
    dest!: park_word split: prod.splits ctl.splits if_splits\<close>)

lemma guard_drop_word:
  assumes "guard_drop_step E p w = (c, w')"
  shows "agents w' = agents w \<and> inner (mtx w') = inner (mtx w) \<and> \<not> owns (after_drop c) \<and> c \<noteq> Panic \<and>
    data_lock (mtx w') = (p \<noteq> DStore \<and> data_lock (mtx w))"
proof (cases p)
  case (DSync q)
  with assms show ?thesis
    by (auto simp: Let_def split: prod.splits drain_res.splits)
next
  case (DAsync q)
  with assms show ?thesis
    by (auto simp: Let_def split: prod.splits drain_res.splits)
qed (use assms in auto)

lemma mutex_excl_init: "minit E v w \<Longrightarrow> mutex_excl w"
  by (auto simp: minit_def mutex_excl_def mutex_new_def intro: exclusive_init)

lemma exclusive_word:
  assumes "exclusive owns (data_lock m) f" "word_ok (owns (f t)) c m m'"
  shows "exclusive owns (data_lock m') (f(t := c))"
proof (cases "owns (f t)")
  case True
  with assms show ?thesis by (auto simp: word_ok_def intro: exclusive_keep)
next
  case False
  with assms show ?thesis
    by (auto simp: word_ok_def split: if_splits intro: exclusive_gain exclusive_other)
qed

lemma mutex_excl_step: "mstep E w w' \<Longrightarrow> mutex_excl w \<Longrightarrow> mutex_excl w'"
proof (induction rule: mstep.induct)
  case (call w t c)
  then show ?case
    by (auto simp: mutex_excl_def not_owns_at_rest not_owns_entry intro!: exclusive_other)
next
  case (lock w t p)
  obtain c w' where st: "lock_step E t p w = (c, w')" by force
  with lock lock_step_word [OF st] show ?case
    unfolding mutex_excl_def run_lock_def by (auto intro: exclusive_word)
next
  case (drop w t p)
  obtain c w' where st: "guard_drop_step E p w = (c, w')" by force
  from guard_drop_word [OF st] drop st show ?case
    unfolding mutex_excl_def run_drop_def
    by (cases p) (auto intro: exclusive_lose exclusive_other)
next
  case (abandon w t p)
  then show ?case by (auto simp: mutex_excl_def not_owns_awaits intro!: exclusive_other)
next
  case (release w t)
  then show ?case by (auto simp: mutex_excl_def intro!: exclusive_keep)
next
  case (other_state w w')
  then show ?case by (auto simp: mutex_excl_def dest: truncate_eqD)
qed (auto simp: mutex_excl_def guard_deref_mut_def)

section \<open>Continuations and deadlines\<close>

text \<open>A race for the deadline \<open>d\<close> on the timeout continuation \<open>q\<close>: its timeout thread
  still sleeps and nothing has been sent, or the deadline is over.\<close>

definition polling :: "'k env \<Rightarrow> ('k, 'z) os_scheme \<Rightarrow> instant \<Rightarrow> cont_id \<Rightarrow> bool" where
  "polling E w d q \<longleftrightarrow> (d, q) \<in> set (timers w) \<and> \<not> is_ready E (conts w) q \<or> d \<le> now w"

text \<open>What holds at each program counter of agent \<open>t\<close>, for the platform state.\<close>

fun pc_ok :: "'k env \<Rightarrow> tid \<Rightarrow> ('k, 'z) os_scheme \<Rightarrow> lock_pc \<Rightarrow> bool" where
  "pc_ok E t w (BlockReg p) = reg_sync_ok t p"
| "pc_ok E t w (BlockTReg d p) = reg_sync_ok t p"
| "pc_ok E t w (BlockTLast d) = (d \<le> now w)"
| "pc_ok E t w (AsyncReg p) = reg_async_ok E (conts w) p"
| "pc_ok E t w (AsyncTReg d p) = reg_async_ok E (conts w) p"
| "pc_ok E t w (AsyncAwait r) = is_live E (conts w) r"
| "pc_ok E t w (AsyncTLast d) = (d \<le> now w)"
| "pc_ok E t w (AsyncTSpawn d r) = is_live E (conts w) r"
| "pc_ok E t w (AsyncTNotify d r q) = (is_live E (conts w) r \<and> polling E w d q)"
| "pc_ok E t w (AsyncTTimeout d r q) = (is_live E (conts w) r \<and> polling E w d q)"
| "pc_ok E t w _ = True"

fun agent_ok :: "'k env \<Rightarrow> tid \<Rightarrow> ('k, 'z) os_scheme \<Rightarrow> mpc \<Rightarrow> bool" where
  "agent_ok E t w (Locking p) = pc_ok E t w p"
| "agent_ok E t w (TimedOut d) = (d \<le> now w)"
| "agent_ok E t w _ = True"

text \<open>The senders on the async list and in the hand of a dropping agent.\<close>

fun hand :: "mpc \<Rightarrow> cont_id set" where
  "hand (Dropping (DAsync p)) = drain_hand p"
| "hand _ = {}"

definition senders :: "('k, 'a, 'z) mworld_scheme \<Rightarrow> cont_id set" where
  "senders w = set (sl_data (waiting_async_threads (mtx w))) \<union> (\<Union>t. hand (agents w t))"

text \<open>Timeout continuations are distinct, are live, and are no waiter's notification.\<close>

definition timers_ok :: "'k env \<Rightarrow> cont_id set \<Rightarrow> ('k, 'z) os_scheme \<Rightarrow> bool" where
  "timers_ok E S w \<longleftrightarrow>
     distinct (map snd (timers w)) \<and>
     (\<forall>i \<in> snd ` set (timers w) \<union> S. is_live E (conts w) i) \<and>
     S \<inter> snd ` set (timers w) = {}"

text \<open>What every step keeps of the platform state.\<close>

definition os_keeps :: "'k env \<Rightarrow> ('k, 'z) os_scheme \<Rightarrow> ('k, 'y) os_scheme \<Rightarrow> bool" where
  "os_keeps E w w' \<longleftrightarrow> now w \<le> now w' \<and> (\<forall>i. is_live E (conts w) i \<longrightarrow> is_live E (conts w') i) \<and>
     (\<forall>i. is_live E (conts w) i \<longrightarrow> is_ready E (conts w) i \<longrightarrow> is_ready E (conts w') i) \<and>
     (\<forall>d q. polling E w d q \<longrightarrow> polling E w' d q)"

lemma os_keeps_refl:
  "now w' = now w \<Longrightarrow> conts w' = conts w \<Longrightarrow> timers w' = timers w \<Longrightarrow> os_keeps E w w'"
  by (simp add: os_keeps_def polling_def)

lemma pc_ok_mono: "os_keeps E w w' \<Longrightarrow> pc_ok E t w p \<Longrightarrow> pc_ok E t w' p"
proof (cases p)
  case (AsyncReg q)
  then show "os_keeps E w w' \<Longrightarrow> pc_ok E t w p \<Longrightarrow> pc_ok E t w' p"
    by (cases q) (auto simp: os_keeps_def)
next
  case (AsyncTReg d q)
  then show "os_keeps E w w' \<Longrightarrow> pc_ok E t w p \<Longrightarrow> pc_ok E t w' p"
    by (cases q) (auto simp: os_keeps_def)
qed (auto simp: os_keeps_def)

lemma agent_ok_mono: "os_keeps E w w' \<Longrightarrow> agent_ok E t w c \<Longrightarrow> agent_ok E t w' c"
  by (cases c) (auto intro: pc_ok_mono, auto simp: os_keeps_def)

lemma timers_ok_mono:
  "timers_ok E S w \<Longrightarrow> S' \<subseteq> S \<Longrightarrow> conts w' = conts w \<Longrightarrow> timers w' = timers w \<Longrightarrow> timers_ok E S' w'"
  by (auto simp: timers_ok_def)

text \<open>A new continuation, with or without a timer on it, and with or without a sender.\<close>

lemma new_cont_keeps:
  assumes "cont_ok E" "continuation E (conts w) = (i, k)" "timers_ok E S w"
    and "conts w' = k" "now w' = now w" "timers w' = timers w \<or> timers w' = (d, i) # timers w"
  shows "os_keeps E w w'"
proof -
  note new = cont_ok_new [OF assms(1,2)]
  have "polling E w' e q" if "polling E w e q" for e q
  proof (cases "(e, q) \<in> set (timers w)")
    case True
    then have "is_live E (conts w) q" using assms(3) by (force simp: timers_ok_def)
    then have "q \<noteq> i" using new(1) by blast
    then show ?thesis using that assms(4-6) new(4) by (auto simp: polling_def)
  next
    case False
    then show ?thesis using that assms(5) by (auto simp: polling_def)
  qed
  moreover have "is_ready E k j" if "is_live E (conts w) j" "is_ready E (conts w) j" for j
    using that new(1) new(4) [of j] by (cases "j = i") auto
  ultimately show ?thesis using assms(4,5) new(3) by (simp add: os_keeps_def)
qed

lemma new_cont_timers:
  assumes "cont_ok E" "continuation E (conts w) = (i, k)" "timers_ok E S w"
    and "conts w' = k" "timers w' = timers w \<and> S' \<subseteq> insert i S \<or> timers w' = (d, i) # timers w \<and> S' \<subseteq> S"
  shows "timers_ok E S' w'"
proof -
  note new = cont_ok_new [OF assms(1,2)]
  have i: "i \<notin> snd ` set (timers w)" "i \<notin> S"
    using assms(3) new(1) by (auto simp: timers_ok_def)
  have live: "is_live E k j \<longleftrightarrow> j = i \<or> is_live E (conts w) j" for j
    by (rule new(3))
  from assms(5) show ?thesis
  proof
    assume *: "timers w' = timers w \<and> S' \<subseteq> insert i S"
    have "S \<inter> snd ` set (timers w) = {}" using assms(3) by (simp add: timers_ok_def)
    with * i have "S' \<inter> snd ` set (timers w') = {}" by auto
    moreover have "is_live E (conts w') j" if "j \<in> snd ` set (timers w') \<union> S'" for j
      using that * assms(3,4) by (auto simp: timers_ok_def live)
    ultimately show ?thesis using assms(3) * by (simp add: timers_ok_def)
  next
    assume "timers w' = (d, i) # timers w \<and> S' \<subseteq> S"
    with assms(3,4) i show ?thesis unfolding timers_ok_def by (auto simp: live)
  qed
qed

lemma send_keeps:
  assumes "cont_ok E" "i \<notin> snd ` set (timers w)"
    and "conts w' = send E i (conts w)" "now w' = now w" "timers w' = timers w"
  shows "os_keeps E w w'"
proof -
  note snt = cont_ok_send [OF assms(1), of i "conts w"]
  have "q \<noteq> i" if "(e, q) \<in> set (timers w)" for e q using that assms(2) by force
  then show ?thesis
    using assms(3-5) by (auto simp: os_keeps_def polling_def snt)
qed

lemma send_timers:
  assumes "cont_ok E" "timers_ok E S w" "S' \<subseteq> S"
    and "conts w' = send E i (conts w)" "timers w' = timers w"
  shows "timers_ok E S' w'"
  using assms(2-) by (auto simp: timers_ok_def cont_ok_send(2) [OF assms(1)])

lemma fire_keeps:
  assumes "cont_ok E" "timers_ok E S w" "x \<in> set (timers w)" "fst x \<le> now w"
  shows "os_keeps E w (fire_timer E x w)" and "timers_ok E S (fire_timer E x w)"
proof -
  note snt = cont_ok_send [OF assms(1), of "snd x" "conts w"]
  have d: "distinct (map snd (timers w))" using assms(2) by (simp add: timers_ok_def)
  then have set': "set (remove1 x (timers w)) = set (timers w) - {x}"
    by (simp add: distinct_map)
  have "polling E (fire_timer E x w) e q" if "polling E w e q" for e q
  proof (cases "(e, q) \<in> set (timers w) \<and> (e, q) \<noteq> x")
    case True
    then have "q \<noteq> snd x" using d assms(3) by (metis distinct_map inj_onD snd_conv)
    with True that show ?thesis
      by (auto simp: polling_def fire_timer_def send_to_def set' snt)
  next
    case False
    with that assms(4) show ?thesis by (auto simp: polling_def fire_timer_def send_to_def)
  qed
  then show "os_keeps E w (fire_timer E x w)"
    by (simp add: os_keeps_def fire_timer_def send_to_def snt)
  have "distinct (map snd (remove1 x (timers w)))"
    using d by (metis distinct_map distinct_remove1 inj_on_subset set_remove1_subset)
  then show "timers_ok E S (fire_timer E x w)"
    using assms(2) by (auto simp: timers_ok_def fire_timer_def send_to_def snt set')
qed


lemma sync_reg_ok:
  "sync_reg t p m = (res, m') \<Longrightarrow> reg_sync_ok t p \<Longrightarrow>
   waiting_async_threads m' = waiting_async_threads m \<and>
   (\<forall>p'. res = RGo p' \<longrightarrow> reg_sync_ok t p') \<and> (\<forall>g. res = RQueued g \<longrightarrow> g = t)"
  by (cases "reg_step lock_attempt t p (data_lock m) (waiting_sync_threads m)")
    (auto simp: sync_reg_def reg_sync_ok_iff dest!: reg_step_list)

definition platform_ok :: "'k env \<Rightarrow> cont_id set \<Rightarrow> ('k, 'a, 'z) mworld_scheme \<Rightarrow> ('k, 'a, 'z) mworld_scheme \<Rightarrow> bool" where
  "platform_ok E S w w' \<longleftrightarrow> os_keeps E w w' \<and>
     timers_ok E (S \<union> set (sl_data (waiting_async_threads (mtx w')))) w'"

lemma platform_ok_id:
  "timers_ok E S w \<Longrightarrow> set (sl_data (waiting_async_threads (mtx w'))) \<subseteq> S \<Longrightarrow>
   conts w' = conts w \<Longrightarrow> timers w' = timers w \<Longrightarrow> now w' = now w \<Longrightarrow> platform_ok E S w w'"
  unfolding platform_ok_def by (auto intro: os_keeps_refl timers_ok_mono)

lemma async_reg_ok:
  assumes "cont_ok E" "timers_ok E S w" "set (sl_data (waiting_async_threads (mtx w))) \<subseteq> S"
    and "async_reg E p w = (res, w')" "reg_async_ok E (conts w) p"
  shows "platform_ok E S w w'"
    and "res = RGo p' \<Longrightarrow> reg_async_ok E (conts w') p'" and "res = RQueued r \<Longrightarrow> is_live E (conts w') r"
proof -
  obtain i k where new: "continuation E (conts w) = (i, k)" by force
  obtain res' b' l' where st: "reg_step lock_attempt i p (data_lock (mtx w)) (waiting_async_threads (mtx w)) = (res', b', l')"
    by (metis prod_cases3)
  from assms(4) new st have w': "res = res'" "mtx w' = (mtx w)\<lparr>data_lock := b', waiting_async_threads := l'\<rparr>"
    "conts w' = (if p = RPush then k else conts w)" "timers w' = timers w" "now w' = now w"
    by (auto simp: async_reg_def)
  note l' = reg_step_list [OF st]
  show "platform_ok E S w w'"
  proof (cases "p = RPush")
    case True
    have "os_keeps E w w'"
      by (rule new_cont_keeps [OF assms(1) new assms(2)]) (use w' True in auto)
    moreover have "timers_ok E (S \<union> set (sl_data (waiting_async_threads (mtx w')))) w'"
      by (rule new_cont_timers [OF assms(1) new assms(2)]) (use w' True l' assms(3) in auto)
    ultimately show ?thesis by (simp add: platform_ok_def)
  next
    case False
    then show ?thesis using assms(2,3) w' l' by (intro platform_ok_id) auto
  qed
  show "res = RGo p' \<Longrightarrow> reg_async_ok E (conts w') p'"
    using l' w' cont_ok_new(3) [OF assms(1) new, of i] by (cases p') auto
  show "res = RQueued r \<Longrightarrow> is_live E (conts w') r"
    using l' w' assms(5) by auto
qed

lemma lock_step_ok:
  assumes "cont_ok E" "timers_ok E S w" "set (sl_data (waiting_async_threads (mtx w))) \<subseteq> S"
    and "pc_ok E t w p" and "lock_step E t p w = (c, w')"
  shows "platform_ok E S w w'" and "agent_ok E t w' (after_lock c)"
proof -
  have "platform_ok E S w w' \<and> agent_ok E t w' (after_lock c)"
  proof (cases p)
    case (BlockReg q)
    then show ?thesis using assms
      by (auto split: prod.splits reg_res.splits dest!: sync_reg_ok intro!: platform_ok_id)
  next
    case (BlockTReg d q)
    then show ?thesis using assms
      by (auto split: prod.splits reg_res.splits dest!: sync_reg_ok intro!: platform_ok_id)
  next
    case (AsyncReg q)
    then show ?thesis using assms(4,5) async_reg_ok [OF assms(1-3)]
      by (auto split: prod.splits reg_res.splits)
  next
    case (AsyncTReg d q)
    then show ?thesis using assms(4,5) async_reg_ok [OF assms(1-3)]
      by (auto split: prod.splits reg_res.splits)
  next
    case (AsyncTSpawn d r)
    obtain i k where new: "continuation E (conts w) = (i, k)" by force
    note fresh = cont_ok_new [OF assms(1) new]
    from AsyncTSpawn assms(5) new have w': "conts w' = k" "now w' = now w" "mtx w' = mtx w"
        "timers w' = timers w \<or> timers w' = (d, i) # timers w"
      and c: "after_lock c = (if can_spawn E then Locking (AsyncTNotify d r i) else Crashed)"
        "can_spawn E \<Longrightarrow> timers w' = (d, i) # timers w"
      by (auto split: if_splits)
    have "os_keeps E w w'" by (rule new_cont_keeps [OF assms(1) new assms(2)]) (use w' in auto)
    moreover have "timers_ok E (S \<union> set (sl_data (waiting_async_threads (mtx w')))) w'"
      by (rule new_cont_timers [OF assms(1) new assms(2)]) (use w' assms(3) in auto)
    moreover have "agent_ok E t w' (after_lock c)"
      using c w' AsyncTSpawn assms(4) fresh(2) fresh(3) [of r] by (auto simp: polling_def)
    ultimately show ?thesis by (simp add: platform_ok_def)
  qed (use assms in \<open>auto intro!: platform_ok_id dest!: park_word
      simp: try_lock_eq lock_swap_def polling_def split: prod.splits ctl.splits if_splits\<close>, blast+)
  then show "platform_ok E S w w'" and "agent_ok E t w' (after_lock c)" by blast+
qed


definition carried :: "mpc \<Rightarrow> 'a mutex \<Rightarrow> cont_id set" where
  "carried c m = set (sl_data (waiting_async_threads m)) \<union> hand c"

lemma guard_drop_ok:
  assumes "cont_ok E" "timers_ok E S w" "carried (Dropping p) (mtx w) \<subseteq> S"
    and "guard_drop_step E p w = (c, w')"
  shows "os_keeps E w w' \<and> timers_ok E S w' \<and>
    carried (after_drop c) (mtx w') \<subseteq> carried (Dropping p) (mtx w)"
proof (cases p)
  case DStore
  with assms show ?thesis by (auto simp: carried_def intro: os_keeps_refl timers_ok_mono)
next
  case (DSync q)
  with assms(2,4) show ?thesis
    by (auto simp: carried_def unpark_def Let_def
        split: prod.splits drain_res.splits intro: os_keeps_refl timers_ok_mono)
next
  case (DAsync q)
  obtain res l' where d: "drain_step q (waiting_async_threads (mtx w)) = (res, l')" by force
  note dh = drain_step_hand [OF d]
  show ?thesis
  proof (cases res)
    case (DWake r q')
    with DAsync assms(4) d dh have w': "conts w' = send E r (conts w)" "now w' = now w" "timers w' = timers w"
      "c = Next (DAsync q')" "mtx w' = mtx w"
      by (auto simp: send_to_def)
    from assms(2,3) DAsync dh DWake have "r \<notin> snd ` set (timers w)"
      unfolding carried_def timers_ok_def by auto
    then have "os_keeps E w w'" by (rule send_keeps [OF assms(1)]) (use w' in auto)
    moreover have "timers_ok E S w'"
      by (rule send_timers [OF assms(1,2) subset_refl]) (use w' in auto)
    ultimately show ?thesis using DAsync DWake dh w' by (auto simp: carried_def)
  qed (use DAsync assms(2,4) d dh in \<open>auto simp: carried_def intro: os_keeps_refl timers_ok_mono\<close>)
qed

section \<open>The invariant\<close>

definition minv :: "'k env \<Rightarrow> ('k, 'a, 'z) mworld_scheme \<Rightarrow> bool" where
  "minv E w \<longleftrightarrow> cont_ok E \<and> mutex_excl w \<and> timers_ok E (senders w) w \<and>
     (\<forall>t. agent_ok E t w (agents w t))"

lemma carried_senders: "carried (agents w t) (mtx w) \<subseteq> senders w"
  by (auto simp: carried_def senders_def)

lemma senders_upd:
  assumes "agents w' = (agents w)(t := c)" and "carried c (mtx w') \<subseteq> S"
    and "(\<Union>u. hand (agents w u)) \<subseteq> S"
  shows "senders w' \<subseteq> S"
  using assms by (auto simp: senders_def carried_def split: if_splits) blast+

text \<open>
  The parts of the invariant that speak about the platform, after one agent's step. \<open>X\<close> are
  senders that somebody else keeps, which are on no timeout thread either.
\<close>

definition plat_inv :: "'k env \<Rightarrow> cont_id set \<Rightarrow> ('k, 'a, 'z) mworld_scheme \<Rightarrow> ('k, 'a, 'z) mworld_scheme \<Rightarrow> bool" where
  "plat_inv E X w w' \<longleftrightarrow> os_keeps E w w' \<and> timers_ok E (senders w' \<union> X) w' \<and>
     (\<forall>u. agent_ok E u w' (agents w' u))"

lemma platform_step:
  assumes "minv E w" and "agents w' = (agents w)(t := c)" and "agent_ok E t w' c"
    and "os_keeps E w w'" "timers_ok E S w'" "carried c (mtx w') \<subseteq> S" "senders w \<union> X \<subseteq> S"
  shows "plat_inv E X w w'"
proof -
  have "senders w' \<union> X \<subseteq> S"
    using assms(2,6,7) senders_upd [OF assms(2,6)] by (auto simp: senders_def)
  with assms(5) have "timers_ok E (senders w' \<union> X) w'" by (auto intro: timers_ok_mono)
  moreover have "agent_ok E u w' (agents w' u)" for u
    using assms(1-4) by (auto simp: minv_def intro: agent_ok_mono)
  ultimately show ?thesis using assms(4) by (simp add: plat_inv_def)
qed

lemma platform_plain:
  assumes "minv E w" "timers_ok E (senders w \<union> X) w"
    "agents w' = (agents w)(t := c)" "agent_ok E t w' c" "hand c = {}"
    "waiting_async_threads (mtx w') = waiting_async_threads (mtx w)"
    "conts w' = conts w" "timers w' = timers w" "now w' = now w"
  shows "plat_inv E X w w'"
proof (rule platform_step [OF assms(1,3,4), where S = "senders w \<union> X"])
  show "os_keeps E w w'" by (rule os_keeps_refl) (use assms in auto)
  show "timers_ok E (senders w \<union> X) w'"
    by (rule timers_ok_mono [OF assms(2)]) (use assms in auto)
  show "carried c (mtx w') \<subseteq> senders w \<union> X"
    using assms(5,6) by (auto simp: carried_def senders_def)
qed simp

lemma platform_os:
  assumes "minv E w" "agents w' = agents w"
    "waiting_async_threads (mtx w') = waiting_async_threads (mtx w)"
    "os_keeps E w w'" "timers_ok E (senders w \<union> X) w'"
  shows "plat_inv E X w w'"
proof -
  have "senders w' = senders w" using assms(2,3) by (simp add: senders_def)
  with assms show ?thesis by (auto simp: minv_def plat_inv_def intro: agent_ok_mono)
qed

lemma platform_unchanged:
  assumes "minv E w" "timers_ok E (senders w \<union> X) w" "agents w' = agents w"
    "waiting_async_threads (mtx w') = waiting_async_threads (mtx w)"
    "conts w' = conts w" "timers w' = timers w" "now w' = now w"
  shows "plat_inv E X w w'"
proof (rule platform_os [OF assms(1,3,4)])
  show "os_keeps E w w'" by (rule os_keeps_refl) (use assms in auto)
  show "timers_ok E (senders w \<union> X) w'"
    by (rule timers_ok_mono [OF assms(2)]) (use assms in auto)
qed

lemma entry_ok: "pc_ok E t w (entry c)"
  by (cases c) auto

lemma minv_init: "minit E v w \<Longrightarrow> minv E w"
  by (auto simp: minv_def mutex_excl_init)
    (auto simp: minit_def timers_ok_def senders_def mutex_new_def spin_new_def)

lemma set_agent_ok [simp]:
  "agent_ok E t (set_agent u c w) = agent_ok E t w"
  "os_keeps E w' (set_agent u c w) = os_keeps E w' w"
  "timers_ok E S (set_agent u c w) = timers_ok E S w"
proof -
  have "pc_ok E t (set_agent u c w) p = pc_ok E t w p" for p
    by (cases p) (auto simp: polling_def)
  then show "agent_ok E t (set_agent u c w) = agent_ok E t w"
    by (intro ext, rename_tac x, case_tac x) auto
qed (simp_all add: os_keeps_def polling_def timers_ok_def)

lemma mstep_platform:
  "mstep E w w' \<Longrightarrow> minv E w \<Longrightarrow> timers_ok E (senders w \<union> X) w \<Longrightarrow> plat_inv E X w w'"
proof (induction rule: mstep.induct)
  case (call w t c)
  then show ?case
    by (intro platform_plain [where w = w and t = t and c = "Locking (entry c)"])
      (auto simp: entry_ok)
next
  case (lock w t p)
  obtain c w' where st: "lock_step E t p w = (c, w')" by force
  note inv = lock.prems(1) [unfolded minv_def]
  from inv have "agent_ok E t w (agents w t)" by blast
  with lock.hyps have pc: "pc_ok E t w p" by simp
  have "set (sl_data (waiting_async_threads (mtx w))) \<subseteq> senders w \<union> X" by (auto simp: senders_def)
  with inv have "platform_ok E (senders w \<union> X) w w'" "agent_ok E t w' (after_lock c)"
    using lock_step_ok [OF _ lock.prems(2) _ pc st] by blast+
  moreover have "hand (after_lock c) = {}" by (cases c rule: after_lock.cases) auto
  moreover have "agents w' = agents w" using lock_step_word [OF st] by simp
  ultimately show ?case unfolding run_lock_def st
    by (intro platform_step [OF lock.prems(1), where t = t and c = "after_lock c"
          and S = "senders w \<union> X \<union> set (sl_data (waiting_async_threads (mtx w')))"])
      (auto simp: platform_ok_def carried_def)
next
  case (abandon w t p)
  then show ?case by (intro platform_plain [where w = w and t = t and c = Idle]) auto
next
  case (access w t v)
  then show ?case by (intro platform_unchanged [where w = w]) (auto simp: guard_deref_mut_def)
next
  case (release w t)
  then show ?case
    by (intro platform_plain [where w = w and t = t and c = "Dropping DStore"]) auto
next
  case (drop w t p)
  obtain c w' where st: "guard_drop_step E p w = (c, w')" by force
  have E: "cont_ok E" using drop.prems(1) by (simp add: minv_def)
  have "carried (Dropping p) (mtx w) \<subseteq> senders w \<union> X"
    using carried_senders [of w t] drop.hyps by auto
  with guard_drop_ok [OF E drop.prems(2) _ st] have
    ok: "os_keeps E w w'" "timers_ok E (senders w \<union> X) w'" "carried (after_drop c) (mtx w') \<subseteq> senders w \<union> X"
    by blast+
  have "agent_ok E t w' (after_drop c)" by (cases c) auto
  moreover have "agents w' = agents w" using guard_drop_word [OF st] by simp
  ultimately show ?case unfolding run_drop_def st
    by (intro platform_step [OF drop.prems(1), where t = t and c = "after_drop c" and S = "senders w \<union> X"])
      (use ok in auto)
next
  case (tick w n)
  have "os_keeps E w (w\<lparr>now := now w + n\<rparr>)" by (auto simp: os_keeps_def polling_def)
  moreover have "timers_ok E (senders w \<union> X) (w\<lparr>now := now w + n\<rparr>)"
    using tick.prems(2) by (simp add: timers_ok_def)
  ultimately show ?case using tick.prems(1) by (intro platform_os [where w = w]) simp_all
next
  case (fire x w)
  then show ?case by (intro platform_os [where w = w]) (auto simp: minv_def intro: fire_keeps)
next
  case (other_cont w i k)
  then have E: "cont_ok E" by (simp add: minv_def)
  note new = new_cont_keeps [OF E other_cont.hyps other_cont.prems(2)]
    new_cont_timers [OF E other_cont.hyps other_cont.prems(2)]
  from other_cont.prems(1) show ?case by (rule platform_os) (auto intro: new)
next
  case (other_timer w i k d)
  then have E: "cont_ok E" by (simp add: minv_def)
  note new = new_cont_keeps [OF E other_timer.hyps other_timer.prems(2), where d = d]
    new_cont_timers [OF E other_timer.hyps other_timer.prems(2), where d = d]
  from other_timer.prems(1) show ?case by (rule platform_os) (auto intro: new)
next
  case (other_send i w)
  then have E: "cont_ok E" by (simp add: minv_def)
  note snt = send_keeps [OF E other_send.hyps] send_timers [OF E other_send.prems(2)]
  from other_send.prems(1) show ?case by (rule platform_os) (auto simp: send_to_def intro: snt)
next
  case (other_state w' w)
  then show ?case by (intro platform_unchanged [where w = w]) (auto dest!: truncate_eqD)
qed (intro platform_unchanged; auto simp: unpark_def)+

lemma minv_platform_step:
  "mstep E w w' \<Longrightarrow> minv E w \<Longrightarrow>
   timers_ok E (senders w') w' \<and> (\<forall>u. agent_ok E u w' (agents w' u))"
  using mstep_platform [of E w w' "{}"] by (simp add: plat_inv_def minv_def)

lemma minv_step: "mstep E w w' \<Longrightarrow> minv E w \<Longrightarrow> minv E w'"
  using mutex_excl_step minv_platform_step unfolding minv_def by blast

interpretation mutex_inv: machine_invariant "minit E v" "mstep E" "minv E" for E v
  by unfold_locales (auto intro: minv_init minv_step)

end
