(* ===== verification/MutexLists.thy ===== *)
theory MutexLists
  imports MutexMachine
begin

text \<open>
  The two wait lists of the mutex refine the abstract protocol of \<^verbatim>\<open>WaitList\<close>: for each
  list a role for every program counter, the abstraction function, the simulation of every
  step of the machine, and the interpretation of the wait-list interface.
\<close>

section \<open>Roles\<close>

fun lock_sync_role :: "tid \<Rightarrow> lock_pc \<Rightarrow> tid role" where
  "lock_sync_role t (BlockReg p) = reg_role p"
| "lock_sync_role t (BlockTReg d p) = reg_role p"
| "lock_sync_role t BlockPark = Asleep t"
| "lock_sync_role t (BlockTRem d) = Asleep t"
| "lock_sync_role t (BlockTCall d n) = Asleep t"
| "lock_sync_role t (BlockTPark d u) = Asleep t"
| "lock_sync_role t _ = Elsewhere"

fun sync_role :: "tid \<Rightarrow> mpc \<Rightarrow> tid role" where
  "sync_role t (Locking p) = lock_sync_role t p"
| "sync_role t (Dropping (DSync p)) = drain_role p"
| "sync_role t _ = Elsewhere"

fun lock_async_role :: "lock_pc \<Rightarrow> cont_id role" where
  "lock_async_role (AsyncReg p) = reg_role p"
| "lock_async_role (AsyncTReg d p) = reg_role p"
| "lock_async_role (AsyncAwait r) = Asleep r"
| "lock_async_role (AsyncTSpawn d r) = Asleep r"
| "lock_async_role (AsyncTNotify d r q) = Asleep r"
| "lock_async_role (AsyncTTimeout d r q) = Asleep r"
| "lock_async_role _ = Elsewhere"

fun async_role :: "mpc \<Rightarrow> cont_id role" where
  "async_role (Locking p) = lock_async_role p"
| "async_role (Dropping DStore) = Elsewhere"
| "async_role (Dropping (DSync p)) = Owing"
| "async_role (Dropping (DAsync p)) = drain_role p"
| "async_role _ = Elsewhere"

definition sync_abs :: "('k, 'a, 'z) mworld_scheme \<Rightarrow> tid wl" where
  "sync_abs w = wl_of (\<not> data_lock (mtx w)) (waiting_sync_threads (mtx w)) (token w)
     (\<lambda>t. sync_role t (agents w t))"

definition async_abs :: "'k env \<Rightarrow> ('k, 'a, 'z) mworld_scheme \<Rightarrow> cont_id wl" where
  "async_abs E w = wl_of (\<not> data_lock (mtx w)) (waiting_async_threads (mtx w))
     (is_ready E (conts w)) (\<lambda>t. async_role (agents w t))"

lemma sync_role_at_rest [simp]: "at_rest c \<Longrightarrow> sync_role t c = Elsewhere"
  by (cases c) auto

lemma async_role_at_rest [simp]: "at_rest c \<Longrightarrow> async_role c = Elsewhere"
  by (cases c) auto

lemma entry_role [simp]:
  "lock_sync_role t (entry c) = Elsewhere" "lock_async_role (entry c) = Elsewhere"
  by (cases c; simp)+

lemma after_lock_role [simp]:
  "sync_role t (after_lock (Return x)) = Elsewhere" "async_role (after_lock (Return x)) = Elsewhere"
  by (cases x; simp)+

lemma lock_awaits_role [simp]:
  "lock_awaits p \<Longrightarrow> lock_sync_role t p = Elsewhere" "lock_awaits p \<Longrightarrow> \<exists>r. lock_async_role p = Asleep r"
  by (cases p; simp)+

section \<open>The abstraction after an agent's step\<close>

lemma sync_abs_set:
  "agents w' = agents w \<Longrightarrow> sync_abs (set_agent t c w') =
     wl_of (\<not> data_lock (mtx w')) (waiting_sync_threads (mtx w')) (token w')
       ((\<lambda>u. sync_role u (agents w u))(t := sync_role t c))"
  by (auto simp: sync_abs_def intro!: arg_cong [where f = "wl_of _ _ _"])

lemma async_abs_set:
  "agents w' = agents w \<Longrightarrow> async_abs E (set_agent t c w') =
     wl_of (\<not> data_lock (mtx w')) (waiting_async_threads (mtx w')) (is_ready E (conts w'))
       ((\<lambda>u. async_role (agents w u))(t := async_role c))"
  by (auto simp: async_abs_def intro!: arg_cong [where f = "wl_of _ _ _"])

lemma lock_attempt_sim:
  "lock_attempt b = Denied \<Longrightarrow> \<not> \<not> b" "lock_attempt b = Got y \<Longrightarrow> \<not> y \<Longrightarrow> \<not> b"
  by (auto simp: lock_attempt_def compare_exchange_def split: if_splits)

section \<open>The list of blocked threads\<close>

lemma sync_sleeper:
  assumes "minv E w" "sleeps_on (sync_role u (agents w u)) h"
  shows "h = u"
proof (cases "agents w u")
  case (Locking p)
  from assms(1) have "agent_ok E u w (agents w u)" by (simp add: minv_def)
  with Locking have ok: "pc_ok E u w p" by simp
  have "sleeps_on (reg_role q) h \<Longrightarrow> q = RStoreErr h" for q :: "tid reg_pc"
    by (cases q) auto
  with assms(2) Locking ok show ?thesis by (cases p) (auto simp: reg_sync_ok_iff)
next
  case (Dropping p)
  have "\<not> sleeps_on (drain_role q) h" for q :: "tid drain_pc" by (cases q) auto
  with assms(2) Dropping show ?thesis by (cases p) auto
qed (use assms(2) in auto)

lemma sync_reg_sim:
  assumes "sync_reg t p m = (res, m')" "reg_sync_ok t p" "r t = reg_role p"
  shows "res \<noteq> RPanic \<and> (\<forall>g. res = RQueued g \<longrightarrow> g = t) \<and> wl_step\<^sup>*\<^sup>* (wl_of (\<not> data_lock m) (waiting_sync_threads m) k r)
    (wl_of (\<not> data_lock m') (waiting_sync_threads m') k (r(t := reg_res_role res)))"
proof -
  obtain b l where st: "reg_step lock_attempt t p (data_lock m) (waiting_sync_threads m) = (res, b, l)"
    and m': "m' = m\<lparr>data_lock := b, waiting_sync_threads := l\<rparr>"
    using assms(1) by (auto simp: sync_reg_def split: prod.splits)
  from reg_sim [of lock_attempt t p _ _ _ _ _ r t "\<lambda>b. \<not> b", OF st assms(3)]
    sync_reg_word [OF assms(1)] sync_reg_ok [OF assms(1,2)]
  show ?thesis unfolding m' by (auto dest: lock_attempt_sim)
qed

lemma sync_park_sim:
  assumes "minv E w" "sync_role t (agents w t) = Asleep t" "agents w' = agents w" "mtx w' = mtx w"
    "token w' = token w \<or> token w' = (token w)(t := False) \<and> sync_role t c = Elsewhere"
    "sync_role t c = Asleep t \<or> sync_role t c = Elsewhere"
  shows "wl_step\<^sup>*\<^sup>* (sync_abs w) (sync_abs (set_agent t c w'))"
proof -
  have "u = t" if "sleeps_on (sync_role u (agents w u)) t" for u
    using sync_sleeper [OF assms(1) that] by simp
  then have "wl_step\<^sup>*\<^sup>* (sync_abs w) (wl_of (\<not> data_lock (mtx w)) (waiting_sync_threads (mtx w))
      ((token w)(t := False)) ((\<lambda>u. sync_role u (agents w u))(t := Elsewhere)))"
    using assms(2) unfolding sync_abs_def
    by (intro r_into_rtranclp wl_of_consume) auto
  moreover have "wl_step\<^sup>*\<^sup>* (sync_abs w) (wl_of (\<not> data_lock (mtx w)) (waiting_sync_threads (mtx w))
      (token w) ((\<lambda>u. sync_role u (agents w u))(t := Elsewhere)))"
    unfolding sync_abs_def by (rule wl_of_quit [where h = t]) (simp add: assms(2))
  moreover have "(\<lambda>u. sync_role u (agents w u))(t := Asleep t) = (\<lambda>u. sync_role u (agents w u))"
    using assms(2) by auto
  ultimately show ?thesis
    using assms(4-6) by (auto simp: sync_abs_set [OF assms(3)]) (auto simp: sync_abs_def)
qed

lemma sync_idle_sim:
  assumes "sync_role t (agents w t) = sync_role t c" "agents w' = agents w"
    "waiting_sync_threads (mtx w') = waiting_sync_threads (mtx w)"
    "data_lock (mtx w) \<longrightarrow> data_lock (mtx w')" "\<And>h. token w h \<Longrightarrow> token w' h"
  shows "wl_step\<^sup>*\<^sup>* (sync_abs w) (sync_abs (set_agent t c w'))"
  unfolding sync_abs_set [OF assms(2)] unfolding sync_abs_def assms(3)
  by (rule wl_of_idle) (use assms in auto)

lemma park_token:
  "park E t w = (c, w') \<Longrightarrow> token w' = token w \<or> token w' = (token w)(t := False) \<and> c = Return ()"
  "park_until E t u w = (c, w') \<Longrightarrow> token w' = token w \<or> token w' = (token w)(t := False) \<and> c = Return ()"
  for w w' :: "('k, 'a, 'z) mworld_scheme"
  by (auto simp: park_def park_until_def split: if_splits)

text \<open>A step that is not on the blocking path.\<close>

fun on_block_path :: "lock_pc \<Rightarrow> bool" where
  "on_block_path (BlockReg p) = True"
| "on_block_path (BlockTReg d p) = True"
| "on_block_path BlockPark = True"
| "on_block_path (BlockTPark d u) = True"
| "on_block_path _ = False"

fun on_async_reg :: "lock_pc \<Rightarrow> bool" where
  "on_async_reg (AsyncReg p) = True"
| "on_async_reg (AsyncTReg d p) = True"
| "on_async_reg _ = False"

definition sync_frame :: "tid \<Rightarrow> lock_pc \<Rightarrow> mpc \<Rightarrow> ('k, 'a, 'z) mworld_scheme \<Rightarrow> ('k, 'a, 'z) mworld_scheme \<Rightarrow> bool" where
  "sync_frame t p c w w' \<longleftrightarrow> waiting_sync_threads (mtx w') = waiting_sync_threads (mtx w) \<and>
     token w' = token w \<and> (data_lock (mtx w) \<longrightarrow> data_lock (mtx w')) \<and>
     lock_sync_role t p = sync_role t c"

lemma lock_step_sync_frame:
  assumes "lock_step E t p w = (c, w')" "\<not> on_block_path p"
  shows "sync_frame t p (after_lock c) w w'"
proof (cases "on_async_reg p")
  case True
  then obtain q d where "p = AsyncReg q \<or> p = AsyncTReg d q" by (cases p) auto
  then show ?thesis using assms(1)
    by (auto simp: sync_frame_def split: prod.splits reg_res.splits if_splits dest!: async_reg_word)
next
  case False
  with assms show ?thesis
    by (cases p) (auto simp: sync_frame_def try_lock_eq lock_swap_def split: prod.splits if_splits)
qed

lemma lock_sync_sim:
  assumes "minv E w" "agents w t = Locking p" "lock_step E t p w = (c, w')"
  shows "wl_step\<^sup>*\<^sup>* (sync_abs w) (sync_abs (set_agent t (after_lock c) w'))"
proof -
  have ag: "agents w' = agents w" using lock_step_word [OF assms(3)] by simp
  have ok: "pc_ok E t w p" using assms(1,2) by (metis agent_ok.simps(1) minv_def)
  let ?r = "\<lambda>u. sync_role u (agents w u)"
  consider (reg) q where "p = BlockReg q" | (treg) d q where "p = BlockTReg d q"
    | (park) "p = BlockPark" | (tpark) d u where "p = BlockTPark d u" | (frame) "\<not> on_block_path p"
    by (cases p) auto
  then show ?thesis
  proof cases
    case reg
    obtain res m where st: "sync_reg t q (mtx w) = (res, m)" by force
    note sim = sync_reg_sim [OF st, of ?r "token w"]
    from reg assms(2,3) ok st sim show ?thesis
      unfolding sync_abs_set [OF ag] unfolding sync_abs_def by (cases res) auto
  next
    case treg
    obtain res m where st: "sync_reg t q (mtx w) = (res, m)" by force
    note sim = sync_reg_sim [OF st, of ?r "token w"]
    from treg assms(2,3) ok st sim show ?thesis
      unfolding sync_abs_set [OF ag] unfolding sync_abs_def by (cases res) auto
  next
    case park
    obtain c' w1 where st: "park E t w = (c', w1)" by force
    from park assms(2,3) st park_word(1) [OF st] park_token(1) [OF st] show ?thesis
      by (cases c') (auto intro!: sync_park_sim [OF assms(1)])
  next
    case tpark
    obtain c' w1 where st: "park_until E t u w = (c', w1)" by force
    from tpark assms(2,3) st park_word(2) [OF st] park_token(2) [OF st] show ?thesis
      by (cases c') (auto intro!: sync_park_sim [OF assms(1)])
  next
    case frame
    from lock_step_sync_frame [OF assms(3) frame] assms(2) show ?thesis
      by (intro sync_idle_sim ag) (simp_all add: sync_frame_def)
  qed
qed

lemma drop_sync_sim:
  assumes "agents w t = Dropping p" "guard_drop_step E p w = (c, w')"
  shows "wl_step\<^sup>*\<^sup>* (sync_abs w) (sync_abs (set_agent t (after_drop c) w'))"
proof -
  have ag: "agents w' = agents w" using guard_drop_word [OF assms(2)] by simp
  let ?r = "\<lambda>u. sync_role u (agents w u)"
  show ?thesis
  proof (cases p)
    case DStore
    with assms ag show ?thesis
      unfolding sync_abs_set [OF ag] unfolding sync_abs_def
      by (auto intro!: r_into_rtranclp wl_of_offer)
  next
    case (DSync q)
    obtain res l where st: "drain_step q (waiting_sync_threads (mtx w)) = (res, l)" by force
    from drain_sim [OF st, of ?r t "\<not> data_lock (mtx w)" "token w"] assms DSync st
    show ?thesis unfolding sync_abs_set [OF ag] unfolding sync_abs_def
      by (cases res) (auto simp: unpark_def)
  next
    case (DAsync q)
    obtain res l where st: "drain_step q (waiting_async_threads (mtx w)) = (res, l)" by force
    with assms DAsync show ?thesis
      by (intro sync_idle_sim ag; cases res) (auto simp: send_to_def)
  qed
qed

lemma sync_abs_sim:
  "mstep E w w' \<Longrightarrow> minv E w \<Longrightarrow> wl_step\<^sup>*\<^sup>* (sync_abs w) (sync_abs w')"
proof (induction rule: mstep.induct)
  case (lock w t p)
  then show ?case by (auto simp: run_lock_def intro: lock_sync_sim split: prod.splits)
next
  case (drop w t p)
  then show ?case by (auto simp: run_drop_def intro: drop_sync_sim split: prod.splits)
next
  case (other_unpark w t)
  then show ?case by (auto simp: sync_abs_def unpark_def intro: wl_of_idle)
next
  case (other_park w t)
  have "sync_role t (agents w t) = Elsewhere" using other_park by auto
  then have "\<not> sleeps_on (sync_role u (agents w u)) t" for u
    using sync_sleeper [OF other_park.prems, of u t] by auto
  then show ?case by (auto simp: sync_abs_def intro: r_into_rtranclp wl_of_forget)
next
  case (other_state w' w)
  then show ?case by (auto simp: sync_abs_def dest!: truncate_eqD)
qed (auto simp: sync_abs_def guard_deref_mut_def fire_timer_def send_to_def set_agent_def
  intro!: wl_of_idle)

section \<open>The list of waiting tasks\<close>

lemma async_sleeper_live:
  assumes "minv E w" "sleeps_on (async_role (agents w u)) r"
  shows "is_live E (conts w) r"
proof (cases "agents w u")
  case (Locking p)
  from assms(1) have "agent_ok E u w (agents w u)" by (simp add: minv_def)
  with Locking have ok: "pc_ok E u w p" by simp
  have "sleeps_on (reg_role q) r \<Longrightarrow> q = RStoreErr r" for q :: "cont_id reg_pc"
    by (cases q) auto
  with assms(2) Locking ok show ?thesis by (cases p) (auto simp: reg_async_ok_iff)
next
  case (Dropping p)
  have "\<not> sleeps_on (drain_role q) r" for q :: "cont_id drain_pc" by (cases q) auto
  with assms(2) Dropping show ?thesis by (cases p) auto
qed (use assms(2) in auto)

lemma new_cont_sim:
  assumes "minv E w" "continuation E (conts w) = (i, k)"
  shows "wl_step\<^sup>*\<^sup>* (async_abs E w) (wl_of (\<not> data_lock (mtx w)) (waiting_async_threads (mtx w))
    (is_ready E k) (\<lambda>t. async_role (agents w t)))"
proof -
  from assms(1) have "cont_ok E" by (simp add: minv_def)
  note new = cont_ok_new [OF this assms(2)]
  have "is_ready E k = (is_ready E (conts w))(i := False)"
    by (rule ext) (use new(2,4) in auto)
  moreover have "\<not> sleeps_on (async_role (agents w u)) i" for u
    using async_sleeper_live [OF assms(1)] new(1) by blast
  ultimately show ?thesis
    unfolding async_abs_def by (auto intro: r_into_rtranclp wl_of_forget)
qed

lemma async_reg_sim:
  assumes "minv E w" "async_reg E p w = (res, w')" "async_role (agents w t) = reg_role p"
  shows "res \<noteq> RPanic \<and> wl_step\<^sup>*\<^sup>* (async_abs E w)
    (wl_of (\<not> data_lock (mtx w')) (waiting_async_threads (mtx w')) (is_ready E (conts w'))
      ((\<lambda>u. async_role (agents w u))(t := reg_res_role res)))"
proof -
  obtain i k where new: "continuation E (conts w) = (i, k)" by force
  obtain b l where st: "reg_step lock_attempt i p (data_lock (mtx w)) (waiting_async_threads (mtx w)) = (res, b, l)"
    and w': "w' = w\<lparr>conts := (if p = RPush then k else conts w),
      mtx := (mtx w)\<lparr>data_lock := b, waiting_async_threads := l\<rparr>\<rparr>"
    using assms(2) new by (auto simp: async_reg_def Let_def split: prod.splits)
  let ?r = "\<lambda>u. async_role (agents w u)"
  let ?k = "is_ready E (conts w')"
  have "wl_step\<^sup>*\<^sup>* (async_abs E w)
      (wl_of (\<not> data_lock (mtx w)) (waiting_async_threads (mtx w)) ?k ?r)"
    using new_cont_sim [OF assms(1) new] by (auto simp: w' async_abs_def)
  moreover have "wl_step\<^sup>*\<^sup>* (wl_of (\<not> data_lock (mtx w)) (waiting_async_threads (mtx w)) ?k ?r)
      (wl_of (\<not> b) l ?k (?r(t := reg_res_role res)))"
    by (rule reg_sim [OF st, where av = "\<lambda>b. \<not> b" and r = ?r and t = t])
      (use assms(3) lock_attempt_sim in auto)
  ultimately show ?thesis using async_reg_word [OF assms(2)] by (auto simp: w')
qed

definition async_frame :: "lock_pc \<Rightarrow> mpc \<Rightarrow> ('k, 'a, 'z) mworld_scheme \<Rightarrow> ('k, 'a, 'z) mworld_scheme \<Rightarrow> bool" where
  "async_frame p c w w' \<longleftrightarrow> waiting_async_threads (mtx w') = waiting_async_threads (mtx w) \<and>
     conts w' = conts w \<and> (data_lock (mtx w) \<longrightarrow> data_lock (mtx w')) \<and>
     (async_role c = lock_async_role p \<or> async_role c = Elsewhere \<and> (\<exists>r. lock_async_role p = Asleep r))"

lemma lock_step_async_frame:
  assumes "lock_step E t p w = (c, w')" "\<not> on_async_reg p" "\<forall>d r. p \<noteq> AsyncTSpawn d r"
  shows "async_frame p (after_lock c) w w'"
proof -
  consider q d where "p = BlockReg q \<or> p = BlockTReg d q"
    | d u where "p = BlockPark \<or> p = BlockTPark d u"
    | "\<not> on_block_path p" by (cases p) auto
  then show ?thesis
  proof cases
    case 1
    then show ?thesis using assms(1)
      by (auto simp: async_frame_def split: prod.splits reg_res.splits if_splits dest!: sync_reg_word)
  next
    case 2
    then show ?thesis using assms(1)
      by (auto simp: async_frame_def split: prod.splits ctl.splits dest!: park_word)
  next
    case 3
    with assms show ?thesis
      by (cases p) (auto simp: async_frame_def try_lock_eq lock_swap_def split: prod.splits if_splits)
  qed
qed

lemma async_idle_sim:
  assumes "agents w' = agents w" "lock_async_role p = async_role (agents w t)" "async_frame p c w w'"
  shows "wl_step\<^sup>*\<^sup>* (async_abs E w) (async_abs E (set_agent t c w'))"
proof -
  let ?r = "\<lambda>u. async_role (agents w u)" and ?l = "waiting_async_threads (mtx w)"
  let ?k = "is_ready E (conts w)"
  have "wl_step\<^sup>*\<^sup>* (async_abs E w) (wl_of (\<not> data_lock (mtx w)) ?l ?k (?r(t := async_role c)))"
    using assms(2,3) unfolding async_frame_def async_abs_def
    by (auto simp: fun_upd_idem intro: wl_of_quit)
  also have "wl_step\<^sup>*\<^sup>* (wl_of (\<not> data_lock (mtx w)) ?l ?k (?r(t := async_role c)))
      (wl_of (\<not> data_lock (mtx w')) ?l ?k (?r(t := async_role c)))"
    by (rule wl_of_idle) (use assms(3) in \<open>auto simp: async_frame_def\<close>)
  finally show ?thesis
    using assms(3) by (simp add: async_abs_set [OF assms(1)] async_frame_def)
qed

lemma lock_async_sim:
  assumes "minv E w" "agents w t = Locking p" "lock_step E t p w = (c, w')"
  shows "wl_step\<^sup>*\<^sup>* (async_abs E w) (async_abs E (set_agent t (after_lock c) w'))"
proof -
  have ag: "agents w' = agents w" using lock_step_word [OF assms(3)] by simp
  let ?r = "\<lambda>u. async_role (agents w u)"
  consider (reg) q where "p = AsyncReg q" | (treg) d q where "p = AsyncTReg d q"
    | (spawn) d r where "p = AsyncTSpawn d r"
    | (frame) "\<not> on_async_reg p \<and> (\<forall>d r. p \<noteq> AsyncTSpawn d r)"
    by (cases p) auto
  then show ?thesis
  proof cases
    case reg
    obtain res w1 where st: "async_reg E q w = (res, w1)" by force
    note sim = async_reg_sim [OF assms(1) st, of t]
    from reg assms(2,3) st sim show ?thesis
      unfolding async_abs_set [OF ag] by (cases res) auto
  next
    case treg
    obtain res w1 where st: "async_reg E q w = (res, w1)" by force
    note sim = async_reg_sim [OF assms(1) st, of t]
    from treg assms(2,3) st sim show ?thesis
      unfolding async_abs_set [OF ag] by (cases res) auto
  next
    case spawn
    obtain i k where new: "continuation E (conts w) = (i, k)" by force
    let ?m = "wl_of (\<not> data_lock (mtx w)) (waiting_async_threads (mtx w)) (is_ready E k)"
    have "wl_step\<^sup>*\<^sup>* (async_abs E w) (?m ?r)" by (rule new_cont_sim [OF assms(1) new])
    moreover have "wl_step\<^sup>*\<^sup>* (?m ?r) (?m (?r(t := async_role (after_lock c))))"
      using spawn assms(2,3) new by (auto simp: fun_upd_idem intro: wl_of_quit split: if_splits)
    ultimately show ?thesis
      using spawn assms(3) new unfolding async_abs_set [OF ag] by (auto split: if_splits)
  next
    case frame
    show ?thesis
      by (rule async_idle_sim [OF ag]) (use lock_step_async_frame [OF assms(3)] frame assms(2) in auto)
  qed
qed

lemma drop_async_sim:
  assumes "minv E w" "agents w t = Dropping p" "guard_drop_step E p w = (c, w')"
  shows "wl_step\<^sup>*\<^sup>* (async_abs E w) (async_abs E (set_agent t (after_drop c) w'))"
proof -
  have ag: "agents w' = agents w" using guard_drop_word [OF assms(3)] by simp
  let ?r = "\<lambda>u. async_role (agents w u)"
  show ?thesis
  proof (cases p)
    case DStore
    with assms show ?thesis
      unfolding async_abs_set [OF ag] unfolding async_abs_def
      by (auto intro!: r_into_rtranclp wl_of_offer)
  next
    case (DSync q)
    obtain res l where st: "drain_step q (waiting_sync_threads (mtx w)) = (res, l)" by force
    with assms(2,3) DSync show ?thesis
      unfolding async_abs_set [OF ag] unfolding async_abs_def
      by (cases res) (auto simp: unpark_def intro!: wl_of_idle)
  next
    case (DAsync q)
    obtain res l where st: "drain_step q (waiting_async_threads (mtx w)) = (res, l)" by force
    have rd: "is_ready E (send E i k) = (is_ready E k)(i := True)" for i k
      using assms(1) by (intro ext) (simp add: minv_def cont_ok_send(1))
    from drain_sim [OF st, of ?r t "\<not> data_lock (mtx w)" "is_ready E (conts w)"] assms(2,3) DAsync st
    show ?thesis unfolding async_abs_set [OF ag] unfolding async_abs_def
      by (cases res) (auto simp: send_to_def rd)
  qed
qed

text \<open>A future that is dropped stops to wait.\<close>

lemma async_abandon_sim:
  assumes "agents w t = Locking p" "lock_awaits p"
  shows "wl_step\<^sup>*\<^sup>* (async_abs E w) (async_abs E (set_agent t Idle w))"
proof (rule async_idle_sim [OF refl])
  show "lock_async_role p = async_role (agents w t)" by (simp add: assms(1))
  show "async_frame p Idle w w" using lock_awaits_role(2) [OF assms(2)] by (simp add: async_frame_def)
qed

lemma async_abs_send:
  "cont_ok E \<Longrightarrow> conts w' = send E i (conts w) \<Longrightarrow> agents w' = agents w \<Longrightarrow> mtx w' = mtx w \<Longrightarrow>
   wl_step\<^sup>*\<^sup>* (async_abs E w) (async_abs E w')"
  by (auto simp: async_abs_def cont_ok_send(1) intro!: wl_of_idle)

lemma async_abs_new:
  "minv E w \<Longrightarrow> continuation E (conts w) = (i, k) \<Longrightarrow> conts w' = k \<Longrightarrow> agents w' = agents w \<Longrightarrow>
   mtx w' = mtx w \<Longrightarrow> wl_step\<^sup>*\<^sup>* (async_abs E w) (async_abs E w')"
  by (drule (1) new_cont_sim) (simp add: async_abs_def)

lemma async_abs_sim:
  "mstep E w w' \<Longrightarrow> minv E w \<Longrightarrow> wl_step\<^sup>*\<^sup>* (async_abs E w) (async_abs E w')"
proof (induction rule: mstep.induct)
  case (lock w t p)
  then show ?case by (auto simp: run_lock_def intro: lock_async_sim split: prod.splits)
next
  case (drop w t p)
  then show ?case by (auto simp: run_drop_def intro: drop_async_sim split: prod.splits)
next
  case (abandon w t p)
  then show ?case by (intro async_abandon_sim)
next
  case (fire x w)
  then show ?case
    by (intro async_abs_send [where i = "snd x"]) (auto simp: minv_def fire_timer_def send_to_def)
next
  case (other_send i w)
  then show ?case by (intro async_abs_send [where i = i]) (auto simp: minv_def send_to_def)
next
  case (other_cont w i k)
  then show ?case by (auto intro: async_abs_new)
next
  case (other_timer w i k d)
  then show ?case by (auto intro: async_abs_new)
next
  case (other_state w' w)
  then show ?case by (auto simp: async_abs_def dest!: truncate_eqD)
qed (auto simp: async_abs_def guard_deref_mut_def unpark_def set_agent_def intro!: wl_of_idle)

section \<open>The mutex provides the wait-list interface, twice\<close>

lemma abs_init:
  "minit E v w \<Longrightarrow> wl_init (sync_abs w)" "minit E v w \<Longrightarrow> wl_init (async_abs E w)"
  by (auto simp: minit_def wl_init_def sync_abs_def async_abs_def mutex_new_def spin_new_def)

interpretation mutex_sync: wait_list_client "minit E v" "mstep E" "minv E" sync_abs
  for E :: "'k env" and v :: 'a
  by unfold_locales (auto intro: abs_init sync_abs_sim)

interpretation mutex_async: wait_list_client "minit E v" "mstep E" "minv E" "async_abs E"
  for E :: "'k env" and v :: 'a
  by unfold_locales (auto intro: abs_init async_abs_sim)

end
