(* ===== verification/MutexProps.thy ===== *)
theory MutexProps
  imports MutexLists
begin

text \<open>
  The properties of the mutex, over every reachable state of \<^verbatim>\<open>MutexMachine\<close> and for
  single calls, and an executable scheduler whose runs are the concrete states of the
  witnesses.
\<close>

section \<open>Concrete runs\<close>

datatype 'a mevent =
    MCall tid lock_method | MRun tid | MAccess tid 'a | MRelease tid | MAbandon tid | MTick nat | MFire

text \<open>One event; an event that is not enabled changes nothing.\<close>

fun mexec :: "'k env \<Rightarrow> 'a mevent \<Rightarrow> ('k, 'a, 'z) mworld_scheme \<Rightarrow> ('k, 'a, 'z) mworld_scheme" where
  "mexec E (MCall t c) w = (if at_rest (agents w t) then set_agent t (Locking (entry c)) w else w)"
| "mexec E (MRun t) w =
     (case agents w t of
        Locking p \<Rightarrow> run_lock E t p w
      | Dropping p \<Rightarrow> run_drop E t p w
      | _ \<Rightarrow> w)"
| "mexec E (MAccess t v) w =
     (if agents w t = Holding then w\<lparr>mtx := guard_deref_mut v (mtx w)\<rparr> else w)"
| "mexec E (MRelease t) w = (if agents w t = Holding then set_agent t (Dropping DStore) w else w)"
| "mexec E (MAbandon t) w =
     (case agents w t of Locking p \<Rightarrow> (if lock_awaits p then set_agent t Idle w else w) | _ \<Rightarrow> w)"
| "mexec E (MTick n) w = w\<lparr>now := now w + n\<rparr>"
| "mexec E MFire w =
     (case filter (\<lambda>x. fst x \<le> now w) (timers w) of [] \<Rightarrow> w | x # xs \<Rightarrow> fire_timer E x w)"

lemma mexec_sound: "mexec E e w = w \<or> mstep E w (mexec E e w)"
proof (cases e)
  case (MRun t)
  then show ?thesis by (cases "agents w t") (auto intro: mstep.lock mstep.drop)
next
  case (MAbandon t)
  then show ?thesis by (cases "agents w t") (auto intro: mstep.abandon)
next
  case MFire
  show ?thesis
  proof (cases "filter (\<lambda>x. fst x \<le> now w) (timers w)")
    case (Cons x xs)
    then have "x \<in> set (filter (\<lambda>x. fst x \<le> now w) (timers w))" by simp
    then have "x \<in> set (timers w)" "fst x \<le> now w" by simp_all
    then have "mstep E w (fire_timer E x w)" by (rule mstep.fire)
    with MFire Cons show ?thesis by simp
  qed (use MFire in simp)
qed (auto intro: mstep.call mstep.access mstep.release mstep.tick)

definition mrun :: "'k env \<Rightarrow> 'a mevent list \<Rightarrow> ('k, 'a, 'z) mworld_scheme \<Rightarrow> ('k, 'a, 'z) mworld_scheme" where
  "mrun E es w = fold (mexec E) es w"

lemma mrun_simps [simp]: "mrun E [] w = w" "mrun E (e # es) w = mrun E es (mexec E e w)"
  by (simp_all add: mrun_def)

lemma mrun_reach: "reach ini (mstep E) w \<Longrightarrow> reach ini (mstep E) (mrun E es w)"
proof (induction es arbitrary: w)
  case (Cons e es)
  from Cons.prems have "reach ini (mstep E) (mexec E e w)"
    using mexec_sound [of E e w] by (auto intro: reach_step)
  then show ?case by (simp add: Cons.IH)
qed simp

definition mworld0 :: "'a \<Rightarrow> (nat \<times> nat list, 'a) mworld" where
  "mworld0 v = \<lparr>now = 0, token = (\<lambda>_. False), conts = (0, []), timers = [],
     mtx = mutex_new v, agents = (\<lambda>_. Idle)\<rparr>"

lemma mworld0_init: "minit (demo_env p) v (mworld0 v)"
  by (simp add: minit_def mworld0_def demo_env_ok)

lemma mworld0_reach: "reach (minit (demo_env p) v) (mstep (demo_env p)) (mrun (demo_env p) es (mworld0 v))"
  by (intro mrun_reach reach_init mworld0_init)

text \<open>The definitions a concrete run unfolds.\<close>

lemmas run_simps = mworld0_def mutex_new_def spin_new_def demo_env_def run_lock_def run_drop_def
  set_agent_def sync_reg_def async_reg_def lock_attempt_def compare_exchange_def spin_swap_def
  spin_store_def vec_push_def mem_take_def unpark_def send_to_def park_def park_until_def
  lock_swap_def try_lock_eq guard_deref_mut_def fire_timer_def

section \<open>Mutual exclusion and data-race freedom\<close>

text \<open>C6: mutual exclusion. At most one agent is between its successful attempt and its store
  of the lock word, whichever of the locking methods it used, and the word is set exactly when
  one is: no release is forgotten and none happens twice.\<close>

theorem mutex_mutual_exclusion:
  assumes "reach (minit E v) (mstep E) w"
  shows "(owns (agents w t) \<longrightarrow> owns (agents w u) \<longrightarrow> t = u) \<and>
    (data_lock (mtx w) \<longleftrightarrow> (\<exists>x. owns (agents w x)))"
proof -
  have "exclusive owns (data_lock (mtx w)) (agents w)"
    using mutex_inv.reach_inv [OF assms] by (simp add: minv_def mutex_excl_def)
  then show ?thesis by (metis exclusive_held exclusive_unique)
qed

theorem mutex_mutual_exclusion_witness:
  "\<exists>w :: (nat \<times> nat list, nat) mworld. reach (minit (demo_env True) 7) (mstep (demo_env True)) w \<and>
     agents w 1 = Holding \<and> agents w 2 = Locking BlockPark \<and> (\<forall>u. u \<noteq> 1 \<longrightarrow> agents w u \<noteq> Holding)"
proof -
  let ?es = "[MCall 1 LockSpin, MRun 1, MCall 2 LockBlock, MRun 2, MRun 2, MRun 2, MRun 2]"
  let ?w = "mrun (demo_env True) ?es (mworld0 (7 :: nat))"
  note r = mworld0_reach [of True 7 ?es]
  have a: "agents ?w 1 = Holding" "agents ?w 2 = Locking BlockPark" by (simp_all add: run_simps)
  have "agents ?w u \<noteq> Holding" if "u \<noteq> 1" for u
    using mutex_mutual_exclusion [OF r, of 1 u] a that by (metis owns.simps(1))
  with a r show ?thesis by blast
qed

text \<open>C7: the data is only ever changed through the guard of the one agent that holds the
  lock: a step that changes \<open>inner\<close> is taken while some agent is \<open>Holding\<close>, no other agent
  owns the lock then, and the step moves no program counter.\<close>

theorem mutex_data_race_free:
  assumes "reach (minit E v) (mstep E) w" "mstep E w w'" "inner (mtx w') \<noteq> inner (mtx w)"
  shows "\<exists>t. agents w t = Holding \<and> (\<forall>u. owns (agents w u) \<longrightarrow> u = t) \<and> agents w' = agents w"
proof -
  from assms(2,3) have "\<exists>t. agents w t = Holding \<and> agents w' = agents w"
  proof (induction rule: mstep.induct)
    case (lock w t p)
    then show ?case
      by (auto simp: run_lock_def word_ok_def split: prod.splits dest!: lock_step_word)
  next
    case (drop w t p)
    then show ?case by (auto simp: run_drop_def split: prod.splits dest!: guard_drop_word)
  qed (auto dest!: truncate_eqD)
  then obtain t where t: "agents w t = Holding" "agents w' = agents w" by blast
  have "exclusive owns (data_lock (mtx w)) (agents w)"
    using mutex_inv.reach_inv [OF assms(1)] by (simp add: minv_def mutex_excl_def)
  from exclusive_unique [OF this, of t] t show ?thesis by (metis owns.simps(1))
qed

theorem mutex_data_race_free_witness:
  "\<exists>w :: (nat \<times> nat list, nat) mworld. reach (minit (demo_env True) 7) (mstep (demo_env True)) w \<and>
     (\<forall>w'. mstep (demo_env True) w w' \<longrightarrow> inner (mtx w') \<noteq> 7 \<longrightarrow> (\<forall>u. owns (agents w u) \<longrightarrow> u = 1)) \<and>
     (\<exists>w'. mstep (demo_env True) w w' \<and> inner (mtx w') = 8)"
proof -
  let ?es = "[MCall 1 LockBlock, MRun 1, MRun 1, MRun 1 :: nat mevent]"
  let ?w = "mrun (demo_env True) ?es (mworld0 (7 :: nat))"
  note r = mworld0_reach [of True 7 ?es]
  have a: "agents ?w 1 = Holding" "inner (mtx ?w) = 7" by (simp_all add: run_simps)
  have "\<forall>u. owns (agents ?w u) \<longrightarrow> u = 1" if "mstep (demo_env True) ?w w'" "inner (mtx w') \<noteq> 7" for w'
    using mutex_data_race_free [OF r that(1)] that(2) a by (metis owns.simps(1))
  moreover have "mstep (demo_env True) ?w (?w\<lparr>mtx := guard_deref_mut 8 (mtx ?w)\<rparr>)"
    by (rule mstep.access [where t = 1]) (rule a)
  moreover have "inner (mtx (?w\<lparr>mtx := guard_deref_mut 8 (mtx ?w)\<rparr>)) = 8"
    by (simp add: guard_deref_mut_def)
  ultimately show ?thesis using r by blast
qed

section \<open>No lost wakeups\<close>

text \<open>The program counters at which a thread waits to be unparked, at which a task waits for
  its continuation, and at which a dropping agent will still wake a given thread or task.\<close>

fun waits_parked :: "mpc \<Rightarrow> bool" where
  "waits_parked (Locking BlockPark) = True"
| "waits_parked (Locking (BlockTRem d)) = True"
| "waits_parked (Locking (BlockTCall d n)) = True"
| "waits_parked (Locking (BlockTPark d u)) = True"
| "waits_parked _ = False"

fun awaits :: "mpc \<Rightarrow> cont_id \<Rightarrow> bool" where
  "awaits (Locking (AsyncAwait r)) i = (r = i)"
| "awaits (Locking (AsyncTSpawn d r)) i = (r = i)"
| "awaits (Locking (AsyncTNotify d r q)) i = (r = i)"
| "awaits (Locking (AsyncTTimeout d r q)) i = (r = i)"
| "awaits _ i = False"

fun will_unpark :: "mpc \<Rightarrow> tid \<Rightarrow> bool" where
  "will_unpark (Dropping (DSync p)) t = has_or_takes t p"
| "will_unpark _ t = False"

fun will_send :: "mpc \<Rightarrow> cont_id \<Rightarrow> bool" where
  "will_send (Dropping (DSync p)) r = True"
| "will_send (Dropping (DAsync p)) r = has_or_takes r p"
| "will_send _ r = False"

lemma waits_parked_role: "waits_parked c \<Longrightarrow> sync_role t c = Asleep t"
  by (cases c rule: waits_parked.cases) auto

lemma awaits_role: "awaits c r \<Longrightarrow> async_role c = Asleep r"
  by (cases "(c, r)" rule: awaits.cases) auto

lemma sync_owes: "owes (sync_abs w) u t \<Longrightarrow> will_unpark (agents w u) t"
proof (cases "agents w u")
  case (Locking p)
  then show "owes (sync_abs w) u t \<Longrightarrow> ?thesis"
    by (cases p) (auto simp: owes_def sync_abs_def reg_role_not_owes)
next
  case (Dropping p)
  then show "owes (sync_abs w) u t \<Longrightarrow> ?thesis"
    by (cases p) (auto simp: owes_def sync_abs_def intro: drain_role_owes)
qed (auto simp: owes_def sync_abs_def)

lemma async_owes: "owes (async_abs E w) u r \<Longrightarrow> will_send (agents w u) r"
proof (cases "agents w u")
  case (Locking p)
  then show "owes (async_abs E w) u r \<Longrightarrow> ?thesis"
    by (cases p) (auto simp: owes_def async_abs_def reg_role_not_owes)
next
  case (Dropping p)
  then show "owes (async_abs E w) u r \<Longrightarrow> ?thesis"
    by (cases p) (auto simp: owes_def async_abs_def intro: drain_role_owes)
qed (auto simp: owes_def async_abs_def)

text \<open>C8: no blocked thread is lost. When a thread waits parked in \<^verbatim>\<open>lock_block\<close> or
  \<^verbatim>\<open>lock_block_timeout\<close>, has no parking token, and the lock is free, then some agent
  is inside \<^verbatim>\<open>did_unlock\<close> and has yet to take the wait list or to unpark this thread.\<close>

theorem mutex_no_lost_unpark:
  assumes "reach (minit E v) (mstep E) w"
    and "waits_parked (agents w t)" "\<not> token w t" "\<not> data_lock (mtx w)"
  shows "\<exists>u. will_unpark (agents w u) t"
proof -
  have "\<exists>u. owes (sync_abs w) u t"
    by (rule mutex_sync.no_lost_wakeup [OF assms(1), of t])
      (use assms(2-) waits_parked_role [of "agents w t" t] in \<open>simp_all add: sync_abs_def\<close>)
  then show ?thesis by (blast intro: sync_owes)
qed

theorem mutex_no_lost_unpark_witness:
  "\<exists>w :: (nat \<times> nat list, nat) mworld. reach (minit (demo_env True) 7) (mstep (demo_env True)) w \<and>
     agents w 2 = Locking BlockPark \<and> \<not> data_lock (mtx w) \<and> (\<exists>u. will_unpark (agents w u) 2)"
proof -
  let ?es = "[MCall 1 LockSpin, MRun 1, MCall 2 LockBlock, MRun 2, MRun 2, MRun 2, MRun 2,
    MRelease 1, MRun 1, MRun 1]"
  let ?w = "mrun (demo_env True) ?es (mworld0 (7 :: nat))"
  note r = mworld0_reach [of True 7 ?es]
  have a: "agents ?w 2 = Locking BlockPark" "\<not> token ?w 2" "\<not> data_lock (mtx ?w)"
    by (simp_all add: run_simps)
  have "\<exists>u. will_unpark (agents ?w u) 2"
    by (rule mutex_no_lost_unpark [OF r _ a(2,3)]) (simp only: a waits_parked.simps)
  with a r show ?thesis by blast
qed

text \<open>C9: the same for a task that awaits its continuation in \<^verbatim>\<open>lock_async\<close> or in the
  race of \<^verbatim>\<open>lock_async_timeout\<close>, whichever other futures have been dropped while they
  waited.\<close>

theorem mutex_no_lost_send:
  assumes "reach (minit E v) (mstep E) w"
    and "awaits (agents w t) r" "\<not> is_ready E (conts w) r" "\<not> data_lock (mtx w)"
  shows "\<exists>u. will_send (agents w u) r"
proof -
  have "\<exists>u. owes (async_abs E w) u r"
    by (rule mutex_async.no_lost_wakeup [OF assms(1), of t])
      (use assms(2-) awaits_role [of "agents w t" r] in \<open>simp_all add: async_abs_def\<close>)
  then show ?thesis by (blast intro: async_owes)
qed

theorem mutex_no_lost_send_witness:
  "\<exists>w :: (nat \<times> nat list, nat) mworld. reach (minit (demo_env True) 7) (mstep (demo_env True)) w \<and>
     agents w 2 = Locking (AsyncAwait 1) \<and> agents w 3 = Idle \<and> \<not> data_lock (mtx w) \<and>
     (\<exists>u. will_send (agents w u) 1)"
proof -
  let ?es = "[MCall 1 LockSpin, MRun 1, MCall 3 LockAsync, MRun 3, MRun 3, MRun 3, MRun 3, MAbandon 3, MCall 2 LockAsync, MRun 2, MRun 2, MRun 2, MRun 2,
    MRelease 1, MRun 1, MRun 1, MRun 1, MRun 1, MRun 1, MRun 1, MRun 1]"
  let ?w = "mrun (demo_env True) ?es (mworld0 (7 :: nat))"
  note r = mworld0_reach [of True 7 ?es]
  have a: "agents ?w 2 = Locking (AsyncAwait 1)" "\<not> is_ready (demo_env True) (conts ?w) 1"
    "\<not> data_lock (mtx ?w)" "agents ?w 3 = Idle"
    by (simp_all add: run_simps)
  have "\<exists>u. will_send (agents ?w u) 1"
    by (rule mutex_no_lost_send [where t = 2, OF r _ a(2,3)]) (simp only: a awaits.simps)
  with a r show ?thesis by blast
qed

section \<open>Deadlock freedom\<close>

text \<open>An agent is stalled when it is inside a call and its next step, or its next two steps,
  bring it back to the same program counter: it spins on a lock that is taken, is parked
  without a token, or polls receivers that are not ready.\<close>

definition stalled_lock :: "'k env \<Rightarrow> tid \<Rightarrow> lock_pc \<Rightarrow> ('k, 'a, 'z) mworld_scheme \<Rightarrow> bool" where
  "stalled_lock E t p w \<longleftrightarrow> fst (run_alone (lock_step E t) 1 p w) = Next p \<or>
     fst (run_alone (lock_step E t) 2 p w) = Next p"

definition stalled_drop :: "'k env \<Rightarrow> drop_pc \<Rightarrow> ('k, 'a, 'z) mworld_scheme \<Rightarrow> bool" where
  "stalled_drop E p w \<longleftrightarrow> fst (run_alone (guard_drop_step E) 1 p w) = Next p \<or>
     fst (run_alone (guard_drop_step E) 2 p w) = Next p"

fun moves :: "'k env \<Rightarrow> ('k, 'a, 'z) mworld_scheme \<Rightarrow> tid \<Rightarrow> mpc \<Rightarrow> bool" where
  "moves E w t (Locking p) = (\<not> stalled_lock E t p w)"
| "moves E w t (Dropping p) = (\<not> stalled_drop E p w)"
| "moves E w t _ = False"

lemma sync_reg_cycle:
  "sync_reg t q m = (RGo q, m') \<Longrightarrow> q = RSwap \<and> sl_locked (waiting_sync_threads m)"
  "sync_reg t q m = (RGo p, m') \<Longrightarrow> sync_reg t p m' = (RGo q, m2) \<Longrightarrow>
   q = RSwap \<and> sl_locked (waiting_sync_threads m)"
  "sync_reg t q m = (RQueued h, m') \<Longrightarrow> q = RStoreErr h"
  by (cases q; auto simp: sync_reg_def spin_swap_def split: attempt.splits prod.splits if_splits)+

lemma async_reg_cycle:
  "async_reg E q w = (RGo q, w') \<Longrightarrow> q = RSwap \<and> sl_locked (waiting_async_threads (mtx w))"
  "async_reg E q w = (RGo p, w') \<Longrightarrow> async_reg E p w' = (RGo q, w2) \<Longrightarrow>
   q = RSwap \<and> sl_locked (waiting_async_threads (mtx w))"
  "async_reg E q w = (RQueued r, w') \<Longrightarrow> q = RStoreErr r"
  by (cases q; auto simp: async_reg_def Let_def spin_swap_def split: attempt.splits prod.splits if_splits)+

lemma stalled_block_reg:
  "stalled_lock E t (BlockReg q) w \<Longrightarrow> q = RSwap \<and> sl_locked (waiting_sync_threads (mtx w))"
  "stalled_lock E t (BlockTReg d q) w \<Longrightarrow> q = RSwap \<and> sl_locked (waiting_sync_threads (mtx w))"
  by (auto simp: stalled_lock_def run_alone_12 split: prod.splits reg_res.splits ctl.splits
      dest: sync_reg_cycle split: if_splits)

lemma stalled_async_reg:
  "stalled_lock E t (AsyncReg q) w \<Longrightarrow> q = RSwap \<and> sl_locked (waiting_async_threads (mtx w))"
  "stalled_lock E t (AsyncTReg d q) w \<Longrightarrow> q = RSwap \<and> sl_locked (waiting_async_threads (mtx w))"
  by (auto simp: stalled_lock_def run_alone_12 split: prod.splits reg_res.splits ctl.splits
      dest: async_reg_cycle split: if_splits)

lemma stalled_drop_swap:
  "stalled_drop E p w \<Longrightarrow>
   p = DSync TSwap \<and> sl_locked (waiting_sync_threads (mtx w)) \<or>
   p = DAsync TSwap \<and> sl_locked (waiting_async_threads (mtx w))"
proof (cases p)
  case (DSync q)
  then show "stalled_drop E p w \<Longrightarrow> ?thesis"
  proof (cases q)
    case (TWake hs)
    with DSync show "stalled_drop E p w \<Longrightarrow> ?thesis"
      by (cases hs; cases "tl hs") (auto simp: stalled_drop_def run_alone_12 Let_def spin_swap_def)
  next
    case (TStore hs)
    with DSync show "stalled_drop E p w \<Longrightarrow> ?thesis"
      by (cases hs) (auto simp: stalled_drop_def run_alone_12 Let_def)
  qed (auto simp: stalled_drop_def run_alone_12 spin_swap_def mem_take_def split: if_splits)
next
  case (DAsync q)
  then show "stalled_drop E p w \<Longrightarrow> ?thesis"
  proof (cases q)
    case (TWake hs)
    with DAsync show "stalled_drop E p w \<Longrightarrow> ?thesis"
      by (cases hs; cases "tl hs") (auto simp: stalled_drop_def run_alone_12 Let_def)
  next
    case (TStore hs)
    with DAsync show "stalled_drop E p w \<Longrightarrow> ?thesis"
      by (cases hs) (auto simp: stalled_drop_def run_alone_12 Let_def)
  qed (auto simp: stalled_drop_def run_alone_12 spin_swap_def mem_take_def split: if_splits)
qed (auto simp: stalled_drop_def run_alone_12 spin_swap_def)

lemma stalled_lock_waits:
  assumes "stalled_lock E t p w" "\<not> data_lock (mtx w)"
    and "\<not> sl_locked (waiting_sync_threads (mtx w))" "\<not> sl_locked (waiting_async_threads (mtx w))"
  shows "waits_parked (Locking p) \<and> \<not> token w t \<or>
    (\<exists>r. awaits (Locking p) r \<and> \<not> is_ready E (conts w) r)"
proof (cases p)
  case (BlockTCall d n)
  with assms(1) show ?thesis
    by (auto simp: stalled_lock_def run_alone_12 park_until_def split: prod.splits ctl.splits)
next
  case (BlockTPark d u)
  with assms(1) show ?thesis
    by (auto simp: stalled_lock_def run_alone_12 park_until_def split: if_splits)
next
  case BlockPark
  with assms(1) show ?thesis
    by (auto simp: stalled_lock_def run_alone_12 park_def sync_reg_def split: prod.splits reg_res.splits if_splits)
next
  case (BlockReg q)
  with assms show ?thesis by (auto dest: stalled_block_reg)
next
  case (BlockTReg d q)
  with assms show ?thesis by (auto dest: stalled_block_reg)
next
  case (AsyncReg q)
  with assms show ?thesis by (auto dest: stalled_async_reg)
next
  case (AsyncTReg d q)
  with assms show ?thesis by (auto dest: stalled_async_reg)
next
  case (AsyncTNow d)
  with assms(1) show ?thesis
    by (auto simp: stalled_lock_def run_alone_12 try_lock_eq split: prod.splits reg_res.splits if_splits)
next
  case (BlockTNow d)
  with assms(1) show ?thesis
    by (auto simp: stalled_lock_def run_alone_12 try_lock_eq split: prod.splits reg_res.splits if_splits)
next
  case (AsyncTSpawn d r)
  with assms(1) show ?thesis
    by (auto simp: stalled_lock_def run_alone_12 Let_def split: prod.splits if_splits)
next
  case (AsyncAwait r)
  with assms(1) show ?thesis
    by (auto simp: stalled_lock_def run_alone_12 split: prod.splits reg_res.splits if_splits
        dest: async_reg_cycle)
qed (use assms(1,2) in \<open>auto simp: stalled_lock_def run_alone_12 try_lock_eq lock_swap_def
    split: prod.splits if_splits\<close>)

lemma owns_list_role:
  "owns_list (reg_role q) \<Longrightarrow> q \<noteq> RSwap" "owns_list (drain_role p) \<Longrightarrow> p \<noteq> TSwap"
  by (cases q; simp) (cases p; simp)

text \<open>When every active agent is stalled, nobody owns the lock word or a list's spinlock.\<close>

lemma all_stalled_free:
  assumes r: "reach (minit E v) (mstep E) w"
    and stuck: "\<And>u. \<not> moves E w u (agents w u)" "\<And>u. agents w u \<noteq> Holding"
  shows "\<not> data_lock (mtx w)" and "\<not> sl_locked (waiting_sync_threads (mtx w))"
    and "\<not> sl_locked (waiting_async_threads (mtx w))"
proof -
  have lk: "stalled_lock E u p w" if "agents w u = Locking p" for u p
    using stuck(1) [of u] that by simp
  have dr: "p = DSync TSwap \<or> p = DAsync TSwap" if "agents w u = Dropping p" for u p
    using stuck(1) [of u] that stalled_drop_swap [of E p w] by auto
  have "\<not> owns (agents w u)" for u
  proof (cases "agents w u")
    case (Locking p)
    with lk [OF this] show ?thesis
      by (cases p) (auto dest: stalled_block_reg stalled_async_reg)
  next
    case (Dropping p)
    with dr [OF this] show ?thesis by auto
  qed (use stuck(2) in auto)
  with mutex_inv.reach_inv [OF r] show "\<not> data_lock (mtx w)"
    by (auto simp: minv_def mutex_excl_def dest: exclusive_held)
  have "\<not> owns_list (sync_role u (agents w u)) \<and> \<not> owns_list (async_role (agents w u))" for u
  proof (cases "agents w u")
    case (Locking p)
    with lk [OF this] show ?thesis
      by (cases p) (auto dest: stalled_block_reg stalled_async_reg owns_list_role)
  next
    case (Dropping p)
    with dr [OF this] show ?thesis by auto
  qed auto
  with mutex_sync.list_lock_owner [OF r] mutex_async.list_lock_owner [OF r]
  show "\<not> sl_locked (waiting_sync_threads (mtx w))" "\<not> sl_locked (waiting_async_threads (mtx w))"
    by (auto simp: sync_abs_def async_abs_def)
qed

text \<open>C10: deadlock freedom. As long as no agent sits on a guard, an agent inside a locking
  method or inside a drop is never stuck together with all the others: some agent is inside a
  call whose next steps make progress. No schedule of blocking, spinning and async callers,
  with or without timeouts, can reach a state in which they all wait for each other.\<close>

theorem mutex_deadlock_free:
  assumes "reach (minit E v) (mstep E) w" and "\<forall>u. agents w u \<noteq> Holding"
    and "\<not> at_rest (agents w t)" "agents w t \<noteq> Crashed"
  shows "\<exists>u. moves E w u (agents w u)"
proof (rule ccontr)
  assume "\<nexists>u. moves E w u (agents w u)"
  then have stuck: "\<And>u. \<not> moves E w u (agents w u)" by blast
  note free = all_stalled_free [OF assms(1) stuck assms(2) [rule_format]]
  have no_drop: "agents w u \<noteq> Dropping p" for u p
    using stuck [of u] free stalled_drop_swap [of E p w] by auto
  with assms(2-4) obtain p where p: "agents w t = Locking p" by (cases "agents w t") auto
  with stuck [of t] have "stalled_lock E t p w" by simp
  from stalled_lock_waits [OF this free] consider
    "waits_parked (agents w t)" "\<not> token w t" | r where "awaits (agents w t) r" "\<not> is_ready E (conts w) r"
    unfolding p by blast
  then show False
  proof cases
    case 1
    from mutex_no_lost_unpark [OF assms(1) 1 free(1)] obtain u where "will_unpark (agents w u) t" ..
    with no_drop [of u] show False by (cases "agents w u") auto
  next
    case 2
    from mutex_no_lost_send [OF assms(1) 2 free(1)] obtain u where "will_send (agents w u) r" ..
    with no_drop [of u] show False by (cases "agents w u") auto
  qed
qed

theorem mutex_deadlock_free_witness:
  "\<exists>w :: (nat \<times> nat list, nat) mworld. reach (minit (demo_env True) 7) (mstep (demo_env True)) w \<and>
     agents w 2 = Locking BlockPark \<and> \<not> token w 2 \<and> (\<exists>u. moves (demo_env True) w u (agents w u))"
proof -
  define es :: "nat mevent list" where "es =
    [MCall 1 LockSpin, MRun 1, MCall 2 LockBlock, MRun 2, MRun 2, MRun 2, MRun 2, MRelease 1, MRun 1]"
  define w where "w = mrun (demo_env True) es (mworld0 (7 :: nat))"
  have r: "reach (minit (demo_env True) 7) (mstep (demo_env True)) w"
    unfolding w_def by (rule mworld0_reach)
  have a: "agents w = (\<lambda>_. Idle)(2 := Locking BlockPark, 1 := Dropping (DSync TSwap))"
    "\<not> token w 2"
    by (simp_all add: w_def es_def run_simps)
  have "\<exists>u. moves (demo_env True) w u (agents w u)"
    by (rule mutex_deadlock_free [where t = 2, OF r]) (simp_all add: a)
  with r a show ?thesis by (intro exI [of _ w]) simp
qed

section \<open>Timeouts\<close>

text \<open>C11: a timed acquisition gives up only after its deadline: when a call has returned
  \<^verbatim>\<open>None\<close> for the deadline \<open>d\<close>, the clock shows at least \<open>d\<close>. This covers the
  spinning, the blocking and the async variant, the last one through its timeout thread.\<close>

theorem mutex_timeout_sound:
  assumes "reach (minit E v) (mstep E) w" and "agents w t = TimedOut d"
  shows "d \<le> now w"
proof -
  have "agent_ok E t w (agents w t)"
    using mutex_inv.reach_inv [OF assms(1)] by (simp add: minv_def)
  with assms(2) show ?thesis by simp
qed

theorem mutex_timeout_sound_witness:
  "\<exists>w :: (nat \<times> nat list, nat) mworld. reach (minit (demo_env True) 7) (mstep (demo_env True)) w \<and>
     agents w 2 = TimedOut 5 \<and> agents w 1 = Holding \<and> 5 \<le> now w"
proof -
  let ?es = "[MCall 1 LockSpin, MRun 1, MCall 2 (LockAsyncTimeout 5), MRun 2, MRun 2, MRun 2, MRun 2,
    MRun 2, MRun 2, MRun 2, MRun 2, MTick 6, MFire, MRun 2, MRun 2, MRun 2 :: nat mevent]"
  let ?w = "mrun (demo_env True) ?es (mworld0 (7 :: nat))"
  note r = mworld0_reach [of True 7 ?es]
  have a: "agents ?w 2 = TimedOut 5" "agents ?w 1 = Holding" by (simp_all add: run_simps)
  from mutex_timeout_sound [OF r a(1)] a r show ?thesis by blast
qed

section \<open>Single calls\<close>

definition mutex_free :: "'a mutex \<Rightarrow> bool" where
  "mutex_free m \<longleftrightarrow> \<not> data_lock m \<and> \<not> sl_locked (waiting_sync_threads m) \<and>
     \<not> sl_locked (waiting_async_threads m)"

lemma run_alone_Suc_Return:
  "stp p w = (Return r, w') \<Longrightarrow> run_alone stp (Suc n) p w = (Return r, w')"
  by simp

lemma spin_release_id: "\<not> sl_locked l \<Longrightarrow> l\<lparr>sl_locked := False\<rparr> = l"
  by simp

lemma reg_uncontended:
  assumes "mutex_free m"
  shows "sync_reg t RSwap m =
      (RGo RTry, m\<lparr>waiting_sync_threads := (waiting_sync_threads m)\<lparr>sl_locked := True\<rparr>\<rparr>)"
  using assms by (simp add: mutex_free_def sync_reg_def spin_swap_def)

text \<open>C12: on a free mutex every locking method returns the guard after at most four of its
  own steps, and all it changes is the lock word. Even a timed method whose deadline has
  already passed takes the lock when it is free.\<close>

theorem lock_uncontended:
  assumes "mutex_free (mtx w)"
  shows "\<exists>w'. run_alone (lock_step E t) 4 (entry c) w = (Return Acquired, w') \<and>
    mtx w' = (mtx w)\<lparr>data_lock := True\<rparr> \<and> agents w' = agents w"
  using assms
  by (cases c) (auto simp: mutex_free_def eval_nat_numeral sync_reg_def async_reg_def Let_def
    spin_swap_def spin_store_def lock_attempt_def compare_exchange_def try_lock_eq lock_swap_def
    split: prod.splits)

theorem lock_uncontended_witness:
  "\<exists>w'. run_alone (lock_step (demo_env True) 3) 4 (entry (LockAsyncTimeout 9)) (mworld0 (5 :: nat)) =
     (Return Acquired, w') \<and> mtx w' = (mutex_new 5)\<lparr>data_lock := True\<rparr>"
proof -
  have "mutex_free (mtx (mworld0 (5 :: nat)))"
    by (simp add: mutex_free_def mworld0_def mutex_new_def spin_new_def)
  from lock_uncontended [OF this, of "demo_env True" 3 "LockAsyncTimeout 9"]
  show ?thesis by (auto simp: mworld0_def)
qed

text \<open>The drains of \<^verbatim>\<open>did_unlock\<close>, run to the end.\<close>

lemma run_wake_sync:
  "run_alone (guard_drop_step E) (length hs + Suc n) (DSync (TWake hs)) w =
   run_alone (guard_drop_step E) n (DAsync TSwap)
     (w\<lparr>token := (\<lambda>t. t \<in> set hs \<or> token w t)\<rparr>)"
proof (induction hs arbitrary: w)
  case (Cons h hs)
  have "(\<lambda>t. t \<in> set hs \<or> token (unpark h w) t) = (\<lambda>t. t \<in> set (h # hs) \<or> token w t)"
    by (auto simp: unpark_def)
  then show ?case using Cons [of "unpark h w"] by (simp add: unpark_def)
qed simp

lemma run_wake_async:
  "run_alone (guard_drop_step E) (length rs + Suc n) (DAsync (TWake rs)) w =
   (Return (), w\<lparr>conts := fold (send E) rs (conts w)\<rparr>)"
proof (induction rs arbitrary: w)
  case (Cons r rs)
  then show ?case using Cons [of "send_to E r w"] by (simp add: send_to_def)
qed simp

lemma spin_emptied [simp]: "l\<lparr>sl_data := [], sl_locked := False\<rparr> = spin_new []"
  by (cases l) (simp add: spin_new_def)

lemma run_take_sync:
  "\<not> sl_locked (waiting_sync_threads (mtx w)) \<Longrightarrow>
   run_alone (guard_drop_step E) (Suc (Suc (Suc (Suc n)))) DStore w =
   run_alone (guard_drop_step E) n (DSync (TWake (sl_data (waiting_sync_threads (mtx w)))))
     (w\<lparr>mtx := (mtx w)\<lparr>data_lock := False, waiting_sync_threads := spin_new []\<rparr>\<rparr>)"
  by (simp add: spin_swap_def mem_take_def spin_store_def)

lemma run_drain_async:
  assumes "\<not> sl_locked (waiting_async_threads (mtx w))"
    and "n = length (sl_data (waiting_async_threads (mtx w))) + 4"
  shows "run_alone (guard_drop_step E) n (DAsync TSwap) w =
   (Return (), w\<lparr>conts := fold (send E) (sl_data (waiting_async_threads (mtx w))) (conts w),
      mtx := (mtx w)\<lparr>waiting_async_threads := spin_new []\<rparr>\<rparr>)"
proof -
  have n: "n = Suc (Suc (Suc (length (sl_data (waiting_async_threads (mtx w))) + Suc 0)))"
    using assms(2) by simp
  have "run_alone (guard_drop_step E) n (DAsync TSwap) w =
   run_alone (guard_drop_step E) (length (sl_data (waiting_async_threads (mtx w))) + Suc 0)
     (DAsync (TWake (sl_data (waiting_async_threads (mtx w)))))
     (w\<lparr>mtx := (mtx w)\<lparr>waiting_async_threads := spin_new []\<rparr>\<rparr>)"
    unfolding n using assms(1)
    by (simp add: spin_swap_def mem_take_def spin_store_def del: add_Suc_right)
  then show ?thesis by (simp only: run_wake_async) simp
qed

text \<open>C13: dropping a guard, run on its own while the two list spinlocks are free, ends after
  as many steps as there are waiters plus eight; it leaves the lock word clear and both lists
  empty, has unparked every thread that was on the blocking list and sent to every task that
  was on the async list, in the order of the list, and has changed nothing else.\<close>

theorem guard_drop_wakes_all:
  assumes "\<not> sl_locked (waiting_sync_threads (mtx w))" "\<not> sl_locked (waiting_async_threads (mtx w))"
    and "n = length (sl_data (waiting_sync_threads (mtx w))) +
             length (sl_data (waiting_async_threads (mtx w))) + 9"
  shows "run_alone (guard_drop_step E) n DStore w =
    (Return (), w\<lparr>token := (\<lambda>t. t \<in> set (sl_data (waiting_sync_threads (mtx w))) \<or> token w t),
       conts := fold (send E) (sl_data (waiting_async_threads (mtx w))) (conts w),
       mtx := \<lparr>inner = inner (mtx w), data_lock = False, waiting_sync_threads = spin_new [],
         waiting_async_threads = spin_new []\<rparr>\<rparr>)"
proof -
  let ?ts = "sl_data (waiting_sync_threads (mtx w))" and ?rs = "sl_data (waiting_async_threads (mtx w))"
  have n: "n = Suc (Suc (Suc (Suc (length ?ts + Suc (length ?rs + 4)))))"
    using assms(3) by simp
  show ?thesis
    unfolding n run_take_sync [OF assms(1)] run_wake_sync
    by (subst run_drain_async) (simp_all add: assms(2))
qed

theorem guard_drop_wakes_all_witness:
  "run_alone (guard_drop_step (demo_env True)) 12 DStore
     ((mworld0 (5 :: nat))\<lparr>mtx := \<lparr>inner = 5, data_lock = True,
        waiting_sync_threads = spin_new [4, 9], waiting_async_threads = spin_new [0]\<rparr>\<rparr>) =
   (Return (), (mworld0 5)\<lparr>token := (\<lambda>t. t = 4 \<or> t = 9), conts := (0, [0])\<rparr>)"
  by (subst guard_drop_wakes_all)
    (auto simp: spin_new_def mworld0_def mutex_new_def demo_env_def)

text \<open>The program counters a call of a method can be at, whatever the other agents do to the
  state between its steps.\<close>

inductive lock_path :: "'k env \<Rightarrow> tid \<Rightarrow> lock_method \<Rightarrow> 'a itself \<Rightarrow> lock_pc \<Rightarrow> bool"
  for E :: "'k env" and t :: tid and c :: lock_method and a :: "'a itself" where
  start: "lock_path E t c a (entry c)"
| next_pc: "lock_path E t c a p \<Longrightarrow> lock_step E t p (w :: ('k, 'a) mworld) = (Next p', w') \<Longrightarrow>
    lock_path E t c a p'"

fun pc_of :: "lock_method \<Rightarrow> lock_pc \<Rightarrow> bool" where
  "pc_of TryLock p = (p = TryCas)"
| "pc_of LockSpin p = (p = SpinSwap)"
| "pc_of (LockSpinTimeout d) p = (p = SpinTSwap d \<or> p = SpinTNow d)"
| "pc_of LockBlock p = (p = BlockPark \<or> (\<exists>q. p = BlockReg q))"
| "pc_of (LockBlockTimeout d) p =
     (p = BlockTNow d \<or> p = BlockTLast d \<or> p = BlockTRem d \<or> (\<exists>q. p = BlockTReg d q) \<or>
      (\<exists>n. p = BlockTCall d n) \<or> (\<exists>u. p = BlockTPark d u))"
| "pc_of LockAsync p = ((\<exists>q. p = AsyncReg q) \<or> (\<exists>r. p = AsyncAwait r))"
| "pc_of (LockAsyncTimeout d) p =
     (p = AsyncTNow d \<or> p = AsyncTLast d \<or> (\<exists>q. p = AsyncTReg d q) \<or> (\<exists>r. p = AsyncTSpawn d r) \<or>
      (\<exists>r q. p = AsyncTNotify d r q) \<or> (\<exists>r q. p = AsyncTTimeout d r q))"

lemma pc_of_step: "pc_of c p \<Longrightarrow> lock_step E t p w = (Next p', w') \<Longrightarrow> pc_of c p'"
  by (cases c) (auto simp: try_lock_eq lock_swap_def Let_def
      split: prod.splits reg_res.splits ctl.splits if_splits)

lemma lock_path_pc: "lock_path E t c a p \<Longrightarrow> pc_of c p"
proof (induction rule: lock_path.induct)
  case start
  then show ?case by (cases c) auto
qed (rule pc_of_step)

lemma lock_step_panic:
  assumes "lock_step E t p w = (Panic, w')"
  shows "\<not> can_park E \<and> (p = BlockPark \<or> (\<exists>d u. p = BlockTPark d u)) \<or>
    \<not> can_spawn E \<and> (\<exists>d r. p = AsyncTSpawn d r)"
proof (cases p)
  case (BlockReg q)
  with assms show ?thesis by (auto split: prod.splits reg_res.splits dest: sync_reg_word)
next
  case (BlockTReg d q)
  with assms show ?thesis by (auto split: prod.splits reg_res.splits dest: sync_reg_word)
next
  case (AsyncReg q)
  with assms show ?thesis by (auto split: prod.splits reg_res.splits dest: async_reg_word)
next
  case (AsyncTReg d q)
  with assms show ?thesis by (auto split: prod.splits reg_res.splits dest: async_reg_word)
qed (use assms in \<open>auto simp: try_lock_eq lock_swap_def park_def park_until_def Let_def
    split: prod.splits ctl.splits if_splits\<close>)

text \<open>C14: the adaptive \<^verbatim>\<open>lock_sync\<close> and \<^verbatim>\<open>lock_sync_timeout\<close> never panic, on
  any target, whatever other agents do meanwhile: they park only where the probe has found that
  waiting works, and spin elsewhere.\<close>

theorem lock_sync_never_panics:
  assumes "sync_strategy g = Blocking \<Longrightarrow> can_park E"
    and "lock_path E t (lock_sync g) a p \<or> lock_path E t (lock_sync_timeout g d) a p"
  shows "fst (lock_step E t p w) \<noteq> Panic"
proof -
  have "pc_of (lock_sync g) p \<or> pc_of (lock_sync_timeout g d) p"
    using assms(2) lock_path_pc by blast
  then show ?thesis
    using assms(1) lock_step_panic [of E t p w "snd (lock_step E t p w)"]
    by (cases "lock_step E t p w"; cases "sync_strategy g")
      (auto simp: lock_sync_def lock_sync_timeout_def)
qed

theorem lock_sync_never_panics_witness:
  "fst (lock_step (demo_env False) 1 (entry (lock_sync (Wasm32 \<lparr>js_shared_array_buffer = True, js_atomics = True,
     js_wait_is_function = True, js_alloc_throws = False, js_wait_result = None\<rparr>))) (mworld0 (3 :: nat))) \<noteq> Panic"
proof -
  let ?g = "Wasm32 \<lparr>js_shared_array_buffer = True, js_atomics = True, js_wait_is_function = True,
    js_alloc_throws = False, js_wait_result = None\<rparr>"
  have p: "lock_path (demo_env False) 1 (lock_sync ?g) TYPE(nat) (entry (lock_sync ?g)) \<or>
    lock_path (demo_env False) 1 (lock_sync_timeout ?g 0) TYPE(nat) (entry (lock_sync ?g))"
    by (simp add: lock_path.start)
  show ?thesis
    by (rule lock_sync_never_panics [OF _ p]) (simp add: sync_strategy_def atomics_wait_supported_def)
qed



text \<open>C16: \<^verbatim>\<open>with_mut_sync\<close> and \<^verbatim>\<open>with_mut_async\<close> on a free mutex run the
  closure exactly once on the data, return its result, and leave the mutex free with the
  closure's update; unlike the spinlock, also when the closure panics, since the guard is
  dropped while the stack unwinds.\<close>

theorem with_mut_releases:
  assumes "mtx w = mutex_new x" and "f x = (ro, y)"
    and "pc = with_sync_entry g \<or> pc = with_async_entry"
  shows "\<exists>w'. run_alone (with_mut_mutex_step E t f) 14 pc w =
      (case ro of Some r \<Rightarrow> Return r | None \<Rightarrow> Panic, w') \<and> mtx w' = mutex_new y"
proof -
  have "pc \<in> {WithLock (BlockReg RSwap), WithLock SpinSwap, WithLock (AsyncReg RSwap)}"
    using assms(3) by (auto simp: with_sync_entry_def with_async_entry_def lock_sync_def split: strategy.splits)
  then show ?thesis using assms(1,2)
    by (cases ro) (auto simp: eval_nat_numeral sync_reg_def async_reg_def Let_def spin_swap_def
      spin_store_def lock_attempt_def compare_exchange_def lock_swap_def guard_deref_def
      guard_deref_mut_def mem_take_def mutex_new_def spin_new_def split: prod.splits)
qed

theorem with_mut_releases_witness:
  "\<exists>w'. run_alone (with_mut_mutex_step (demo_env True) 1 (\<lambda>n :: nat. (None :: nat option, Suc n))) 14 with_async_entry
     (mworld0 (7 :: nat)) = (Panic, w') \<and> mtx w' = mutex_new 8"
  using with_mut_releases [of "mworld0 7" 7 "\<lambda>n :: nat. (None :: nat option, Suc n)" None 8 with_async_entry Native "demo_env True" 1]
  by (simp add: mworld0_def)

section \<open>Refinement of an abstract lock\<close>











end
