(* ===== verification/RwLock.thy ===== *)
theory RwLock
  imports Mutex "HOL-Library.Word"
begin

text \<open>
  \<^verbatim>\<open>src/rwlock.rs\<close>, \<^verbatim>\<open>src/rwlock/*.rs\<close> and the reader and writer guards of
  \<^verbatim>\<open>src/guard.rs\<close>: the lock word, the read and write acquisitions as programs of atomic
  steps, the drops of the guards with \<^verbatim>\<open>did_unlock_read\<close> and
  \<^verbatim>\<open>did_unlock_write\<close>, and the \<^verbatim>\<open>with_*\<close> methods.
\<close>

unbundle bit_operations_syntax

section \<open>Data\<close>

text \<open>The lock word is an \<^verbatim>\<open>AtomicU8\<close>: its top bit says that a writer holds the lock, the
  other seven count the readers.\<close>

definition UNLOCKED :: "8 word" where
  "UNLOCKED = 0"

definition LOCKED_WRITE :: "8 word" where
  "LOCKED_WRITE = 0b10000000"

record 'a rwlock =
  rw_inner :: 'a
  rw_word :: "8 word"
  waiting_sync_read_threads :: "tid list spinlock"
  waiting_sync_write_threads :: "tid list spinlock"
  waiting_async_read_threads :: "cont_id list spinlock"
  waiting_async_write_threads :: "cont_id list spinlock"

definition rwlock_new :: "'a \<Rightarrow> 'a rwlock" where
  "rwlock_new v = \<lparr>rw_inner = v, rw_word = UNLOCKED,
     waiting_sync_read_threads = spin_new [], waiting_sync_write_threads = spin_new [],
     waiting_async_read_threads = spin_new [], waiting_async_write_threads = spin_new []\<rparr>"

definition rwlock_from :: "'a \<Rightarrow> 'a rwlock" where
  "rwlock_from v = rwlock_new v"

text \<open>The derived \<^verbatim>\<open>Default\<close> takes the default of every field; \<open>v\<close> is that of the data.\<close>

definition rwlock_default :: "'a \<Rightarrow> 'a rwlock" where
  "rwlock_default v = \<lparr>rw_inner = v, rw_word = 0,
     waiting_sync_read_threads = spin_default [], waiting_sync_write_threads = spin_default [],
     waiting_async_read_threads = spin_default [], waiting_async_write_threads = spin_default []\<rparr>"

text \<open>The lists by mode, to treat the two sides alike where the code does.\<close>

datatype mode = Rd | Wr

fun sync_list :: "mode \<Rightarrow> 'a rwlock \<Rightarrow> tid list spinlock" where
  "sync_list Rd m = waiting_sync_read_threads m"
| "sync_list Wr m = waiting_sync_write_threads m"

fun set_sync_list :: "mode \<Rightarrow> tid list spinlock \<Rightarrow> 'a rwlock \<Rightarrow> 'a rwlock" where
  "set_sync_list Rd l m = m\<lparr>waiting_sync_read_threads := l\<rparr>"
| "set_sync_list Wr l m = m\<lparr>waiting_sync_write_threads := l\<rparr>"

fun async_list :: "mode \<Rightarrow> 'a rwlock \<Rightarrow> cont_id list spinlock" where
  "async_list Rd m = waiting_async_read_threads m"
| "async_list Wr m = waiting_async_write_threads m"

fun set_async_list :: "mode \<Rightarrow> cont_id list spinlock \<Rightarrow> 'a rwlock \<Rightarrow> 'a rwlock" where
  "set_async_list Rd l m = m\<lparr>waiting_async_read_threads := l\<rparr>"
| "set_async_list Wr l m = m\<lparr>waiting_async_write_threads := l\<rparr>"

section \<open>The attempts\<close>

text \<open>
  \<^verbatim>\<open>try_lock_read\<close> is one \<^verbatim>\<open>fetch_update\<close>, which applies its closure to the
  current value as one atomic operation: refused while a writer holds the lock, a panic at 127
  readers, else one reader more. \<^verbatim>\<open>try_lock_write\<close> is one compare-exchange.
\<close>

definition read_attempt :: "8 word \<Rightarrow> 8 word attempt" where
  "read_attempt f =
     (if f AND LOCKED_WRITE \<noteq> 0 then Denied
      else if f = LOCKED_WRITE - 1 then Panicked
      else Got (f + 1))"

definition write_attempt :: "8 word \<Rightarrow> 8 word attempt" where
  "write_attempt f =
     (case compare_exchange UNLOCKED LOCKED_WRITE f of (Inr _, f') \<Rightarrow> Got f' | (Inl _, _) \<Rightarrow> Denied)"

fun attempt_of :: "mode \<Rightarrow> 8 word \<Rightarrow> 8 word attempt" where
  "attempt_of Rd = read_attempt"
| "attempt_of Wr = write_attempt"

definition try_lock_read :: "'a rwlock \<Rightarrow> (unit, not_available + unit) ctl \<times> 'a rwlock" where
  "try_lock_read m = (case read_attempt (rw_word m) of
       Got x \<Rightarrow> (Return (Inr ()), m\<lparr>rw_word := x\<rparr>)
     | Denied \<Rightarrow> (Return (Inl NotAvailable), m)
     | Panicked \<Rightarrow> (Panic, m))"

definition try_lock_write :: "'a rwlock \<Rightarrow> (unit, not_available + unit) ctl \<times> 'a rwlock" where
  "try_lock_write m = (case write_attempt (rw_word m) of
       Got x \<Rightarrow> (Return (Inr ()), m\<lparr>rw_word := x\<rparr>)
     | Denied \<Rightarrow> (Return (Inl NotAvailable), m)
     | Panicked \<Rightarrow> (Panic, m))"

text \<open>\<^verbatim>\<open>Display\<close>: what is printed after one \<^verbatim>\<open>try_lock_read\<close>.\<close>

definition rwlock_display :: "('a \<Rightarrow> string) \<Rightarrow> 'a rwlock \<Rightarrow> (unit, string) ctl" where
  "rwlock_display fmt m = (case try_lock_read m of
       (Return (Inr _), m') \<Rightarrow> Return (fmt (rw_inner m'))
     | (Return (Inl _), m') \<Rightarrow> Return ''Mutex { <locked> }''
     | (_, m') \<Rightarrow> Panic)"

text \<open>The guards: \<^verbatim>\<open>deref\<close> of either guard reads the data, \<^verbatim>\<open>deref_mut\<close> of the
  writer's guard replaces it.\<close>

definition rguard_deref :: "'a rwlock \<Rightarrow> 'a" where
  "rguard_deref m = rw_inner m"

definition wguard_deref :: "'a rwlock \<Rightarrow> 'a" where
  "wguard_deref m = rw_inner m"

definition wguard_deref_mut :: "'a \<Rightarrow> 'a rwlock \<Rightarrow> 'a rwlock" where
  "wguard_deref_mut v m = m\<lparr>rw_inner := v\<rparr>"

definition rguard_as_ref :: "'a rwlock \<Rightarrow> 'a" where
  "rguard_as_ref m = rguard_deref m"

definition wguard_as_ref :: "'a rwlock \<Rightarrow> 'a" where
  "wguard_as_ref m = wguard_deref m"

definition wguard_as_mut :: "'a \<Rightarrow> 'a rwlock \<Rightarrow> 'a rwlock" where
  "wguard_as_mut v m = wguard_deref_mut v m"

definition rguard_display :: "('a \<Rightarrow> string) \<Rightarrow> 'a rwlock \<Rightarrow> string" where
  "rguard_display fmt m = fmt (rguard_deref m)"

definition wguard_display :: "('a \<Rightarrow> string) \<Rightarrow> 'a rwlock \<Rightarrow> string" where
  "wguard_display fmt m = fmt (wguard_deref m)"

section \<open>Program counters\<close>

datatype rw_pc =
    RwTry mode
  | RwSpin mode
  | RwReg mode "tid reg_pc" | RwPark mode
  | RwAReg mode "cont_id reg_pc" | RwAwait mode cont_id

text \<open>Where the future of an async method is suspended and may be dropped.\<close>

fun rw_suspends :: "rw_pc \<Rightarrow> bool" where
  "rw_suspends (RwAwait md r) = True"
| "rw_suspends p = False"

datatype rw_res = RwAcquired mode | RwUnavailable

datatype rw_drop_pc =
    RSub | WSwapOut
  | USyncR "tid drain_pc" | UAsyncR "cont_id drain_pc"
  | USyncW "tid drain_pc" | UAsyncW "cont_id drain_pc"

text \<open>An agent that has panicked stays at the program counter it panicked at. A guard is a
  value that can be moved and of which an agent can own several, so the guards alive are
  counted apart from the agents.\<close>

datatype rpc =
    RIdle
  | RLocking rw_pc
  | RDropping rw_drop_pc
  | RRefused
  | RCrashed rw_pc
  | RAborted

record ('k, 'a) rworld = "'k os" +
  rwl :: "'a rwlock"
  ragents :: "tid \<Rightarrow> rpc"
  rguards :: nat
  wguards :: nat

section \<open>The locking methods\<close>

definition rw_sync_reg :: "mode \<Rightarrow> tid \<Rightarrow> tid reg_pc \<Rightarrow> 'a rwlock \<Rightarrow> tid reg_res \<times> 'a rwlock" where
  "rw_sync_reg md t p m =
     (case reg_step (attempt_of md) t p (rw_word m) (sync_list md m) of
        (res, x, l) \<Rightarrow> (res, set_sync_list md l (m\<lparr>rw_word := x\<rparr>)))"

definition rw_async_reg :: "'k env \<Rightarrow> mode \<Rightarrow> cont_id reg_pc \<Rightarrow> ('k, 'a, 'z) rworld_scheme \<Rightarrow>
    cont_id reg_res \<times> ('k, 'a, 'z) rworld_scheme" where
  "rw_async_reg E md p w =
     (let (r, k) = continuation E (conts w); m = rwl w in
      case reg_step (attempt_of md) r p (rw_word m) (async_list md m) of
        (res, x, l) \<Rightarrow> (res, w\<lparr>conts := (if p = RPush then k else conts w),
                            rwl := set_async_list md l (m\<lparr>rw_word := x\<rparr>)\<rparr>))"

text \<open>A bare call of \<^verbatim>\<open>try_lock_read\<close> or \<^verbatim>\<open>try_lock_write\<close>.\<close>

definition rw_try_step :: "mode \<Rightarrow> ('k, 'a, 'z) rworld_scheme \<Rightarrow>
    (rw_pc, rw_res) ctl \<times> ('k, 'a, 'z) rworld_scheme" where
  "rw_try_step md w =
     (case (case md of Rd \<Rightarrow> try_lock_read (rwl w) | Wr \<Rightarrow> try_lock_write (rwl w)) of (c, m) \<Rightarrow>
       (case c of
          Return (Inr _) \<Rightarrow> Return (RwAcquired md)
        | Return (Inl _) \<Rightarrow> Return RwUnavailable
        | Next _ \<Rightarrow> Panic
        | Panic \<Rightarrow> Panic, w\<lparr>rwl := m\<rparr>))"

definition lock_spin_read_step :: "('k, 'a, 'z) rworld_scheme \<Rightarrow>
    (rw_pc, rw_res) ctl \<times> ('k, 'a, 'z) rworld_scheme" where
  "lock_spin_read_step w =
     (case try_lock_read (rwl w) of
        (Return (Inr _), m) \<Rightarrow> (Return (RwAcquired Rd), w\<lparr>rwl := m\<rparr>)
      | (Return (Inl _), m) \<Rightarrow> (Next (RwSpin Rd), w\<lparr>rwl := m\<rparr>)
      | (_, m) \<Rightarrow> (Panic, w\<lparr>rwl := m\<rparr>))"

definition lock_spin_write_step :: "('k, 'a, 'z) rworld_scheme \<Rightarrow>
    (rw_pc, rw_res) ctl \<times> ('k, 'a, 'z) rworld_scheme" where
  "lock_spin_write_step w =
     (case try_lock_write (rwl w) of
        (Return (Inr _), m) \<Rightarrow> (Return (RwAcquired Wr), w\<lparr>rwl := m\<rparr>)
      | (Return (Inl _), m) \<Rightarrow> (Next (RwSpin Wr), w\<lparr>rwl := m\<rparr>)
      | (_, m) \<Rightarrow> (Panic, w\<lparr>rwl := m\<rparr>))"

text \<open>\<^verbatim>\<open>lock_block_read\<close>; the agent is inside the closure of \<^verbatim>\<open>with_mut\<close> on the
  readers' list, or parked.\<close>

fun lock_block_read_step :: "'k env \<Rightarrow> tid \<Rightarrow> rw_pc \<Rightarrow> ('k, 'a, 'z) rworld_scheme \<Rightarrow>
    (rw_pc, rw_res) ctl \<times> ('k, 'a, 'z) rworld_scheme" where
  "lock_block_read_step E t (RwReg Rd p) w =
     (case rw_sync_reg Rd t p (rwl w) of (res, m) \<Rightarrow>
       (case res of
          RGo p' \<Rightarrow> Next (RwReg Rd p')
        | RGot \<Rightarrow> Return (RwAcquired Rd)
        | RQueued h \<Rightarrow> Next (RwPark Rd)
        | RPanic \<Rightarrow> Panic, w\<lparr>rwl := m\<rparr>))"
| "lock_block_read_step E t (RwPark Rd) w =
     (case park E t w of
        (Return _, w') \<Rightarrow> (Next (RwReg Rd RSwap), w')
      | (Next _, w') \<Rightarrow> (Next (RwPark Rd), w')
      | (Panic, w') \<Rightarrow> (Panic, w'))"
| "lock_block_read_step E t p w = (Next p, w)"

fun lock_block_write_step :: "'k env \<Rightarrow> tid \<Rightarrow> rw_pc \<Rightarrow> ('k, 'a, 'z) rworld_scheme \<Rightarrow>
    (rw_pc, rw_res) ctl \<times> ('k, 'a, 'z) rworld_scheme" where
  "lock_block_write_step E t (RwReg Wr p) w =
     (case rw_sync_reg Wr t p (rwl w) of (res, m) \<Rightarrow>
       (case res of
          RGo p' \<Rightarrow> Next (RwReg Wr p')
        | RGot \<Rightarrow> Return (RwAcquired Wr)
        | RQueued h \<Rightarrow> Next (RwPark Wr)
        | RPanic \<Rightarrow> Panic, w\<lparr>rwl := m\<rparr>))"
| "lock_block_write_step E t (RwPark Wr) w =
     (case park E t w of
        (Return _, w') \<Rightarrow> (Next (RwReg Wr RSwap), w')
      | (Next _, w') \<Rightarrow> (Next (RwPark Wr), w')
      | (Panic, w') \<Rightarrow> (Panic, w'))"
| "lock_block_write_step E t p w = (Next p, w)"

fun lock_async_read_step :: "'k env \<Rightarrow> rw_pc \<Rightarrow> ('k, 'a, 'z) rworld_scheme \<Rightarrow>
    (rw_pc, rw_res) ctl \<times> ('k, 'a, 'z) rworld_scheme" where
  "lock_async_read_step E (RwAReg Rd p) w =
     (case rw_async_reg E Rd p w of (res, w') \<Rightarrow>
       (case res of
          RGo p' \<Rightarrow> Next (RwAReg Rd p')
        | RGot \<Rightarrow> Return (RwAcquired Rd)
        | RQueued r \<Rightarrow> Next (RwAwait Rd r)
        | RPanic \<Rightarrow> Panic, w'))"
| "lock_async_read_step E (RwAwait Rd r) w =
     (Next (if is_ready E (conts w) r then RwAReg Rd RSwap else RwAwait Rd r), w)"
| "lock_async_read_step E p w = (Next p, w)"

fun lock_async_write_step :: "'k env \<Rightarrow> rw_pc \<Rightarrow> ('k, 'a, 'z) rworld_scheme \<Rightarrow>
    (rw_pc, rw_res) ctl \<times> ('k, 'a, 'z) rworld_scheme" where
  "lock_async_write_step E (RwAReg Wr p) w =
     (case rw_async_reg E Wr p w of (res, w') \<Rightarrow>
       (case res of
          RGo p' \<Rightarrow> Next (RwAReg Wr p')
        | RGot \<Rightarrow> Return (RwAcquired Wr)
        | RQueued r \<Rightarrow> Next (RwAwait Wr r)
        | RPanic \<Rightarrow> Panic, w'))"
| "lock_async_write_step E (RwAwait Wr r) w =
     (Next (if is_ready E (conts w) r then RwAReg Wr RSwap else RwAwait Wr r), w)"
| "lock_async_write_step E p w = (Next p, w)"

text \<open>The method a program counter belongs to.\<close>

fun rw_step :: "'k env \<Rightarrow> tid \<Rightarrow> rw_pc \<Rightarrow> ('k, 'a, 'z) rworld_scheme \<Rightarrow>
    (rw_pc, rw_res) ctl \<times> ('k, 'a, 'z) rworld_scheme" where
  "rw_step E t (RwTry md) w = rw_try_step md w"
| "rw_step E t (RwSpin Rd) w = lock_spin_read_step w"
| "rw_step E t (RwSpin Wr) w = lock_spin_write_step w"
| "rw_step E t (RwReg Rd p) w = lock_block_read_step E t (RwReg Rd p) w"
| "rw_step E t (RwReg Wr p) w = lock_block_write_step E t (RwReg Wr p) w"
| "rw_step E t (RwPark Rd) w = lock_block_read_step E t (RwPark Rd) w"
| "rw_step E t (RwPark Wr) w = lock_block_write_step E t (RwPark Wr) w"
| "rw_step E t (RwAReg Rd p) w = lock_async_read_step E (RwAReg Rd p) w"
| "rw_step E t (RwAReg Wr p) w = lock_async_write_step E (RwAReg Wr p) w"
| "rw_step E t (RwAwait Rd r) w = lock_async_read_step E (RwAwait Rd r) w"
| "rw_step E t (RwAwait Wr r) w = lock_async_write_step E (RwAwait Wr r) w"

datatype rw_method = TryLockRw mode | LockSpinRw mode | LockBlockRw mode | LockAsyncRw mode

fun rw_entry :: "rw_method \<Rightarrow> rw_pc" where
  "rw_entry (TryLockRw md) = RwTry md"
| "rw_entry (LockSpinRw md) = RwSpin md"
| "rw_entry (LockBlockRw md) = RwReg md RSwap"
| "rw_entry (LockAsyncRw md) = RwAReg md RSwap"

definition lock_sync_read :: "target \<Rightarrow> rw_method" where
  "lock_sync_read g = (case sync_strategy g of Blocking \<Rightarrow> LockBlockRw Rd | Spinning \<Rightarrow> LockSpinRw Rd)"

definition lock_sync_write :: "target \<Rightarrow> rw_method" where
  "lock_sync_write g = (case sync_strategy g of Blocking \<Rightarrow> LockBlockRw Wr | Spinning \<Rightarrow> LockSpinRw Wr)"

section \<open>Dropping the guards\<close>

text \<open>\<^verbatim>\<open>did_unlock_read\<close> drains the two writers' lists; \<^verbatim>\<open>did_unlock_write\<close> drains
  the two readers' lists and then the two writers' lists.\<close>

fun did_unlock_read_step :: "'k env \<Rightarrow> rw_drop_pc \<Rightarrow> ('k, 'a, 'z) rworld_scheme \<Rightarrow>
    (rw_drop_pc, unit) ctl \<times> ('k, 'a, 'z) rworld_scheme" where
  "did_unlock_read_step E (USyncW p) w =
     (case drain_step p (waiting_sync_write_threads (rwl w)) of (res, l) \<Rightarrow>
       let w' = w\<lparr>rwl := (rwl w)\<lparr>waiting_sync_write_threads := l\<rparr>\<rparr> in
       (case res of
          DGo p' \<Rightarrow> (Next (USyncW p'), w')
        | DWake h p' \<Rightarrow> (Next (USyncW p'), unpark h w')
        | DDone \<Rightarrow> (Next (UAsyncW TSwap), w')))"
| "did_unlock_read_step E (UAsyncW p) w =
     (case drain_step p (waiting_async_write_threads (rwl w)) of (res, l) \<Rightarrow>
       let w' = w\<lparr>rwl := (rwl w)\<lparr>waiting_async_write_threads := l\<rparr>\<rparr> in
       (case res of
          DGo p' \<Rightarrow> (Next (UAsyncW p'), w')
        | DWake r p' \<Rightarrow> (Next (UAsyncW p'), send_to E r w')
        | DDone \<Rightarrow> (Return (), w')))"
| "did_unlock_read_step E p w = (Next p, w)"

fun did_unlock_write_step :: "'k env \<Rightarrow> rw_drop_pc \<Rightarrow> ('k, 'a, 'z) rworld_scheme \<Rightarrow>
    (rw_drop_pc, unit) ctl \<times> ('k, 'a, 'z) rworld_scheme" where
  "did_unlock_write_step E (USyncR p) w =
     (case drain_step p (waiting_sync_read_threads (rwl w)) of (res, l) \<Rightarrow>
       let w' = w\<lparr>rwl := (rwl w)\<lparr>waiting_sync_read_threads := l\<rparr>\<rparr> in
       (case res of
          DGo p' \<Rightarrow> (Next (USyncR p'), w')
        | DWake h p' \<Rightarrow> (Next (USyncR p'), unpark h w')
        | DDone \<Rightarrow> (Next (UAsyncR TSwap), w')))"
| "did_unlock_write_step E (UAsyncR p) w =
     (case drain_step p (waiting_async_read_threads (rwl w)) of (res, l) \<Rightarrow>
       let w' = w\<lparr>rwl := (rwl w)\<lparr>waiting_async_read_threads := l\<rparr>\<rparr> in
       (case res of
          DGo p' \<Rightarrow> (Next (UAsyncR p'), w')
        | DWake r p' \<Rightarrow> (Next (UAsyncR p'), send_to E r w')
        | DDone \<Rightarrow> (Next (USyncW TSwap), w')))"
| "did_unlock_write_step E p w = did_unlock_read_step E p w"

text \<open>
  \<^verbatim>\<open>Drop\<close> of \<^verbatim>\<open>ReadGuard\<close>: \<^verbatim>\<open>fetch_sub(1)\<close>, which wraps, and the assertion
  that the old value was not zero. \<^verbatim>\<open>Drop\<close> of \<^verbatim>\<open>WriteGuard\<close>: a swap and the assertion
  that the old value was \<^verbatim>\<open>LOCKED_WRITE\<close>. The assertions look at the old value only, so
  each is one step with its atomic operation.
\<close>

definition read_drop_step :: "('k, 'a, 'z) rworld_scheme \<Rightarrow> (rw_drop_pc, unit) ctl \<times> ('k, 'a, 'z) rworld_scheme" where
  "read_drop_step w = (let r = rw_word (rwl w); w' = w\<lparr>rwl := (rwl w)\<lparr>rw_word := r - 1\<rparr>\<rparr> in
     if r > 0 then (Next (USyncW TSwap), w') else (Panic, w'))"

definition write_drop_step :: "('k, 'a, 'z) rworld_scheme \<Rightarrow> (rw_drop_pc, unit) ctl \<times> ('k, 'a, 'z) rworld_scheme" where
  "write_drop_step w = (let old = rw_word (rwl w); w' = w\<lparr>rwl := (rwl w)\<lparr>rw_word := UNLOCKED\<rparr>\<rparr> in
     if old = LOCKED_WRITE then (Next (USyncR TSwap), w') else (Panic, w'))"

fun rw_drop_step :: "'k env \<Rightarrow> rw_drop_pc \<Rightarrow> ('k, 'a, 'z) rworld_scheme \<Rightarrow>
    (rw_drop_pc, unit) ctl \<times> ('k, 'a, 'z) rworld_scheme" where
  "rw_drop_step E RSub w = read_drop_step w"
| "rw_drop_step E WSwapOut w = write_drop_step w"
| "rw_drop_step E p w = did_unlock_write_step E p w"

section \<open>The with methods\<close>

text \<open>Lock, run the closure, drop the guard, also when the closure panics; the closure of a
  reading method gets a shared reference and cannot change the data.\<close>

datatype 'r rw_with_pc = RwWithLock rw_pc | RwWithBody mode | RwWithDrop "'r option" rw_drop_pc

fun rw_with_step :: "'k env \<Rightarrow> tid \<Rightarrow> ('a, 'r) closure \<Rightarrow> 'r rw_with_pc \<Rightarrow>
    ('k, 'a, 'z) rworld_scheme \<Rightarrow> ('r rw_with_pc, 'r) ctl \<times> ('k, 'a, 'z) rworld_scheme" where
  "rw_with_step E t f (RwWithLock p) w =
     (case rw_step E t p w of (c, w') \<Rightarrow>
       (case c of
          Next p' \<Rightarrow> Next (RwWithLock p')
        | Return (RwAcquired md) \<Rightarrow> Next (RwWithBody md)
        | Return RwUnavailable \<Rightarrow> Panic
        | Panic \<Rightarrow> Panic, w'))"
| "rw_with_step E t f (RwWithBody Rd) w =
     (case f (rguard_deref (rwl w)) of (ro, v) \<Rightarrow> (Next (RwWithDrop ro RSub), w))"
| "rw_with_step E t f (RwWithBody Wr) w =
     (case f (wguard_deref (rwl w)) of (ro, v) \<Rightarrow>
       (Next (RwWithDrop ro WSwapOut), w\<lparr>rwl := wguard_deref_mut v (rwl w)\<rparr>))"
| "rw_with_step E t f (RwWithDrop ro p) w =
     (case rw_drop_step E p w of (c, w') \<Rightarrow>
       (case c of
          Next p' \<Rightarrow> Next (RwWithDrop ro p')
        | Return _ \<Rightarrow> (case ro of Some r \<Rightarrow> Return r | None \<Rightarrow> Panic)
        | Panic \<Rightarrow> Panic, w'))"

definition rw_with_sync :: "target \<Rightarrow> 'r rw_with_pc" where
  "rw_with_sync g = RwWithLock (rw_entry (lock_sync_read g))"

definition rw_with_async :: "'r rw_with_pc" where
  "rw_with_async = RwWithLock (rw_entry (LockAsyncRw Rd))"

definition rw_with_mut_sync :: "target \<Rightarrow> 'r rw_with_pc" where
  "rw_with_mut_sync g = RwWithLock (rw_entry (lock_sync_write g))"

definition rw_with_mut_async :: "'r rw_with_pc" where
  "rw_with_mut_async = RwWithLock (rw_entry (LockAsyncRw Wr))"

section \<open>The lock word\<close>

text \<open>The word with \<open>n\<close> readers or with a writer, and what the operations make of it.\<close>

lemma LOCKED_WRITE_val: "LOCKED_WRITE = 128"
  by (simp add: LOCKED_WRITE_def)

lemma and_LOCKED_WRITE: "f AND LOCKED_WRITE \<noteq> 0 \<longleftrightarrow> 128 \<le> unat f"
proof -
  have "LOCKED_WRITE = 2 ^ 7" by (simp add: LOCKED_WRITE_val)
  then have "f AND LOCKED_WRITE \<noteq> 0 \<longleftrightarrow> bit f 7"
    using and_exp_eq_0_iff_not_bit [of f 7] by simp
  also have "\<dots> \<longleftrightarrow> bit (unat f) 7"
    by (simp add: bit_unsigned_iff)
  also have "\<dots> \<longleftrightarrow> odd (unat f div 128)"
    by (simp add: bit_iff_odd)
  also have "\<dots> \<longleftrightarrow> 128 \<le> unat f"
  proof -
    have "unat f < 256" using unsigned_less [of f] by simp
    then have "unat f div 128 = (if 128 \<le> unat f then 1 else 0)" by (auto simp: div_nat_eqI)
    then show ?thesis by simp
  qed
  finally show ?thesis .
qed

lemma unat_eq_word: "unat (f :: 8 word) = n \<longleftrightarrow> n < 256 \<and> f = of_nat n"
  using unsigned_less [of f] by (auto simp: unat_of_nat)

lemma read_attempt_eq:
  "read_attempt f = (if 128 \<le> unat f then Denied else if unat f = 127 then Panicked else Got (f + 1))"
proof -
  have "f = LOCKED_WRITE - 1 \<longleftrightarrow> unat f = 127"
    by (simp add: LOCKED_WRITE_val unat_eq_word)
  then show ?thesis by (simp add: read_attempt_def and_LOCKED_WRITE)
qed

lemma write_attempt_eq:
  "write_attempt f = (if unat f = 0 then Got LOCKED_WRITE else Denied)"
  by (simp add: write_attempt_def compare_exchange_def UNLOCKED_def unat_eq_0)

lemma unat_add_one: "unat (f :: 8 word) < 255 \<Longrightarrow> unat (f + 1) = unat f + 1"
  by (simp add: unat_word_ariths)

lemma unat_sub_one: "0 < unat (f :: 8 word) \<Longrightarrow> unat (f - 1) = unat f - 1"
  by (rule unat_minus_one) (auto simp: unat_eq_0)

end
