(* ===== verification/RwMachine.thy ===== *)
theory RwMachine
  imports RwLock
begin

text \<open>
  Any number of agents using one reader-writer lock at the same time. The guards alive are
  counted, so that a guard can be moved between agents and an agent can own several. The
  invariant relates the lock word to the guards and to the acquisitions and drops under way;
  from it follow the exclusion of readers and writers and that the assertions in the drops
  never fail.
\<close>

section \<open>The machine\<close>

fun r_at_rest :: "rpc \<Rightarrow> bool" where
  "r_at_rest RIdle = True"
| "r_at_rest RRefused = True"
| "r_at_rest _ = False"

fun after_rw :: "rw_pc \<Rightarrow> (rw_pc, rw_res) ctl \<Rightarrow> rpc" where
  "after_rw p (Next p') = RLocking p'"
| "after_rw p (Return (RwAcquired md)) = RIdle"
| "after_rw p (Return RwUnavailable) = RRefused"
| "after_rw p Panic = RCrashed p"

fun after_rw_drop :: "(rw_drop_pc, unit) ctl \<Rightarrow> rpc" where
  "after_rw_drop (Next p) = RDropping p"
| "after_rw_drop (Return _) = RIdle"
| "after_rw_drop Panic = RAborted"

definition set_ragent :: "tid \<Rightarrow> rpc \<Rightarrow> ('k, 'a, 'z) rworld_scheme \<Rightarrow> ('k, 'a, 'z) rworld_scheme" where
  "set_ragent t c w = w\<lparr>ragents := (ragents w)(t := c)\<rparr>"

definition add_guard :: "(rw_pc, rw_res) ctl \<Rightarrow> ('k, 'a, 'z) rworld_scheme \<Rightarrow> ('k, 'a, 'z) rworld_scheme" where
  "add_guard c w =
     w\<lparr>rguards := rguards w + of_bool (c = Return (RwAcquired Rd)),
       wguards := wguards w + of_bool (c = Return (RwAcquired Wr))\<rparr>"

definition run_rw :: "'k env \<Rightarrow> tid \<Rightarrow> rw_pc \<Rightarrow> ('k, 'a, 'z) rworld_scheme \<Rightarrow> ('k, 'a, 'z) rworld_scheme" where
  "run_rw E t p w = (case rw_step E t p w of (c, w') \<Rightarrow> set_ragent t (after_rw p c) (add_guard c w'))"

definition run_rw_drop :: "'k env \<Rightarrow> tid \<Rightarrow> rw_drop_pc \<Rightarrow> ('k, 'a, 'z) rworld_scheme \<Rightarrow> ('k, 'a, 'z) rworld_scheme" where
  "run_rw_drop E t p w = (case rw_drop_step E p w of (c, w') \<Rightarrow> set_ragent t (after_rw_drop c) w')"

inductive rstep :: "'k env \<Rightarrow> ('k, 'a, 'z) rworld_scheme \<Rightarrow> ('k, 'a, 'z) rworld_scheme \<Rightarrow> bool"
  for E :: "'k env" where
  rcall: "r_at_rest (ragents w t) \<Longrightarrow> rstep E w (set_ragent t (RLocking (rw_entry c)) w)"
| rlock: "ragents w t = RLocking p \<Longrightarrow> rstep E w (run_rw E t p w)"
| rabandon: "ragents w t = RLocking p \<Longrightarrow> rw_suspends p \<Longrightarrow> rstep E w (set_ragent t RIdle w)"
| rwrite: "0 < wguards w \<Longrightarrow> rstep E w (w\<lparr>rwl := wguard_deref_mut v (rwl w)\<rparr>)"
| rfree_read: "r_at_rest (ragents w t) \<Longrightarrow> 0 < rguards w \<Longrightarrow>
     rstep E w (set_ragent t (RDropping RSub) (w\<lparr>rguards := rguards w - 1\<rparr>))"
| rfree_write: "r_at_rest (ragents w t) \<Longrightarrow> 0 < wguards w \<Longrightarrow>
     rstep E w (set_ragent t (RDropping WSwapOut) (w\<lparr>wguards := wguards w - 1\<rparr>))"
| rdrop: "ragents w t = RDropping p \<Longrightarrow> rstep E w (run_rw_drop E t p w)"
| rother_unpark: "rstep E w (unpark t w)"
| rother_park: "r_at_rest (ragents w t) \<Longrightarrow> rstep E w (w\<lparr>token := (token w)(t := False)\<rparr>)"
| rother_cont: "continuation E (conts w) = (i, k) \<Longrightarrow> rstep E w (w\<lparr>conts := k\<rparr>)"
| rother_send: "rstep E w (send_to E i w)"
| rother_state: "rwl w' = rwl w \<Longrightarrow> ragents w' = ragents w \<Longrightarrow> rguards w' = rguards w \<Longrightarrow>
     wguards w' = wguards w \<Longrightarrow> token w' = token w \<Longrightarrow> conts w' = conts w \<Longrightarrow> rstep E w w'"

definition rinit :: "'k env \<Rightarrow> 'a \<Rightarrow> ('k, 'a, 'z) rworld_scheme \<Rightarrow> bool" where
  "rinit E v w \<longleftrightarrow> cont_ok E \<and> rwl w = rwlock_new v \<and> (\<forall>t. ragents w t = RIdle) \<and>
     rguards w = 0 \<and> wguards w = 0"

lemma set_ragent_sel [simp]:
  "ragents (set_ragent t c w) = (ragents w)(t := c)" "rwl (set_ragent t c w) = rwl w"
  "token (set_ragent t c w) = token w" "conts (set_ragent t c w) = conts w"
  "rguards (set_ragent t c w) = rguards w" "wguards (set_ragent t c w) = wguards w"
  by (simp_all add: set_ragent_def)

lemma add_guard_sel [simp]:
  "ragents (add_guard c w) = ragents w" "rwl (add_guard c w) = rwl w"
  "token (add_guard c w) = token w" "conts (add_guard c w) = conts w"
  "rguards (add_guard c w) = rguards w + of_bool (c = Return (RwAcquired Rd))"
  "wguards (add_guard c w) = wguards w + of_bool (c = Return (RwAcquired Wr))"
  by (simp_all add: add_guard_def)

lemma r_os_sel [simp]:
  "rwl (unpark t w) = rwl w" "ragents (unpark t w) = ragents w"
  "rguards (unpark t w) = rguards w" "wguards (unpark t w) = wguards w"
  "rwl (send_to E r w) = rwl w" "ragents (send_to E r w) = ragents w"
  "rguards (send_to E r w) = rguards w" "wguards (send_to E r w) = wguards w"
  for w :: "('k, 'a, 'z) rworld_scheme"
  by (simp_all add: unpark_def send_to_def)

lemma sync_list_upd [simp]:
  "sync_list md (set_sync_list md l m) = l" "rw_word (set_sync_list md l m) = rw_word m"
  "rw_inner (set_sync_list md l m) = rw_inner m" "async_list md' (set_sync_list md l m) = async_list md' m"
  "md' \<noteq> md \<Longrightarrow> sync_list md' (set_sync_list md l m) = sync_list md' m"
  by (cases md; cases md'; simp)+

lemma async_list_upd [simp]:
  "async_list md (set_async_list md l m) = l" "rw_word (set_async_list md l m) = rw_word m"
  "rw_inner (set_async_list md l m) = rw_inner m" "sync_list md' (set_async_list md l m) = sync_list md' m"
  "md' \<noteq> md \<Longrightarrow> async_list md' (set_async_list md l m) = async_list md' m"
  by (cases md; cases md'; simp)+

lemma list_word_upd [simp]:
  "sync_list md (m\<lparr>rw_word := x\<rparr>) = sync_list md m" "async_list md (m\<lparr>rw_word := x\<rparr>) = async_list md m"
  "sync_list md (m\<lparr>rw_inner := v\<rparr>) = sync_list md m" "async_list md (m\<lparr>rw_inner := v\<rparr>) = async_list md m"
  by (cases md; simp)+

section \<open>Who owns the lock\<close>

text \<open>The program counters that stand for a reader's or a writer's share of the lock word: an
  acquisition between its successful attempt and its return, a drop before its atomic
  operation.\<close>

fun pc_share :: "mode \<Rightarrow> rw_pc \<Rightarrow> bool" where
  "pc_share md (RwReg md' p) = (md' = md \<and> p = RStoreOk)"
| "pc_share md (RwAReg md' p) = (md' = md \<and> p = RStoreOk)"
| "pc_share md _ = False"

fun share :: "mode \<Rightarrow> rpc \<Rightarrow> bool" where
  "share md (RLocking p) = pc_share md p"
| "share md (RDropping RSub) = (md = Rd)"
| "share md (RDropping WSwapOut) = (md = Wr)"
| "share md _ = False"

fun guards :: "mode \<Rightarrow> ('k, 'a, 'z) rworld_scheme \<Rightarrow> nat" where
  "guards Rd w = rguards w"
| "guards Wr w = wguards w"

definition shares :: "mode \<Rightarrow> ('k, 'a, 'z) rworld_scheme \<Rightarrow> nat" where
  "shares md w = guards md w + card {t. share md (ragents w t)}"

definition rw_count_ok :: "('k, 'a, 'z) rworld_scheme \<Rightarrow> bool" where
  "rw_count_ok w \<longleftrightarrow> (\<forall>md. finite {t. share md (ragents w t)}) \<and>
     unat (rw_word (rwl w)) = shares Rd w + 128 * shares Wr w \<and>
     shares Rd w \<le> 127 \<and> shares Wr w \<le> 1 \<and> (shares Wr w = 1 \<longrightarrow> shares Rd w = 0)"

lemma share_not_rest [simp]: "r_at_rest c \<Longrightarrow> \<not> share md c"
  by (cases c) auto

lemma share_entry [simp]: "\<not> pc_share md (rw_entry c)"
  by (cases c) auto

lemma card_share_upd:
  assumes "finite {t. P (f t)}"
  shows "finite {u. P ((f(t := c)) u)} \<and>
    card {u. P ((f(t := c)) u)} + of_bool (P (f t)) = card {u. P (f u)} + of_bool (P c)"
proof -
  have eq: "{u. P ((f(t := c)) u)} = (if P c then insert t {u. P (f u)} else {u. P (f u)} - {t})"
    by auto
  show ?thesis
  proof (cases "P (f t)")
    case True
    then have "card {u. P (f u)} = Suc (card ({u. P (f u)} - {t}))"
      using assms by (metis card_Suc_Diff1 mem_Collect_eq)
    then show ?thesis using assms True unfolding eq by (simp add: insert_absorb)
  next
    case False
    then show ?thesis using assms unfolding eq by simp
  qed
qed

lemma shares_upd:
  assumes "rw_count_ok w" "ragents w' = (ragents w)(t := c)"
  shows "shares md w' + guards md w + of_bool (share md (ragents w t)) =
    shares md w + guards md w' + of_bool (share md c)"
    and "finite {u. share md (ragents w' u)}"
proof -
  have f: "finite {u. share md (ragents w u)}" using assms(1) by (simp add: rw_count_ok_def)
  from card_share_upd [of "share md" "ragents w" t c, OF f]
  show "shares md w' + guards md w + of_bool (share md (ragents w t)) =
    shares md w + guards md w' + of_bool (share md c)" "finite {u. share md (ragents w' u)}"
    unfolding shares_def assms(2) by simp_all
qed

lemma shares_pos: "rw_count_ok w \<Longrightarrow> share md (ragents w t) \<Longrightarrow> 0 < shares md w"
  unfolding rw_count_ok_def shares_def
  by (metis (mono_tags, lifting) add_gr_0 card_gt_0_iff empty_iff mem_Collect_eq)

section \<open>The effect of a step on the lock word\<close>

lemma rw_reg_word:
  "reg_step (attempt_of md) h p x l = (res, x', l') \<Longrightarrow>
   (res = RGot \<longleftrightarrow> p = RStoreOk) \<and>
   (if p = RTry then
      (case attempt_of md x of
         Got y \<Rightarrow> x' = y \<and> res = RGo RStoreOk
       | Denied \<Rightarrow> x' = x \<and> res = RGo RPush
       | Panicked \<Rightarrow> x' = x \<and> res = RPanic)
    else x' = x \<and> res \<noteq> RGo RStoreOk \<and> res \<noteq> RPanic)"
  by (cases p; cases "sl_locked l") (auto simp: spin_swap_def split: attempt.splits)

text \<open>The share a step gives its agent, or the guard it returns, is what it adds to the word.\<close>

fun ret_share :: "mode \<Rightarrow> (rw_pc, rw_res) ctl \<Rightarrow> bool" where
  "ret_share md (Return (RwAcquired md')) = (md' = md)"
| "ret_share md (Next p) = pc_share md p"
| "ret_share md _ = False"

definition rw_effect :: "8 word \<Rightarrow> 8 word \<Rightarrow> rw_pc \<Rightarrow> (rw_pc, rw_res) ctl \<Rightarrow> bool" where
  "rw_effect x x' p c \<longleftrightarrow>
     x' = x \<and> (\<forall>md. ret_share md c = pc_share md p) \<or>
     unat x < 127 \<and> x' = x + 1 \<and> (\<forall>md. \<not> pc_share md p) \<and> (\<forall>md. ret_share md c \<longleftrightarrow> md = Rd) \<or>
     unat x = 0 \<and> x' = LOCKED_WRITE \<and> (\<forall>md. \<not> pc_share md p) \<and> (\<forall>md. ret_share md c \<longleftrightarrow> md = Wr)"

lemma attempt_effect:
  "attempt_of md x = Got y \<Longrightarrow>
   (md = Rd \<and> unat x < 127 \<and> y = x + 1) \<or> (md = Wr \<and> unat x = 0 \<and> y = LOCKED_WRITE)"
  by (cases md) (auto simp: read_attempt_eq write_attempt_eq split: if_splits)

definition r_frame :: "('k, 'a, 'z) rworld_scheme \<Rightarrow> ('k, 'a, 'z) rworld_scheme \<Rightarrow> bool" where
  "r_frame w w' \<longleftrightarrow> ragents w' = ragents w \<and> rguards w' = rguards w \<and> wguards w' = wguards w \<and>
     rw_inner (rwl w') = rw_inner (rwl w)"

lemma r_frame_guards: "r_frame w w' \<Longrightarrow> guards md w' = guards md w"
  by (cases md) (auto simp: r_frame_def)

definition reg_ctl :: "('h reg_pc \<Rightarrow> rw_pc) \<Rightarrow> ('h \<Rightarrow> rw_pc) \<Rightarrow> mode \<Rightarrow> 'h reg_res \<Rightarrow> (rw_pc, rw_res) ctl" where
  "reg_ctl f g md res = (case res of RGo p' \<Rightarrow> Next (f p') | RGot \<Rightarrow> Return (RwAcquired md) |
       RQueued h \<Rightarrow> Next (g h) | RPanic \<Rightarrow> Panic)"

lemma reg_ctl_simps [simp]:
  "reg_ctl f g md (RGo p) = Next (f p)" "reg_ctl f g md RGot = Return (RwAcquired md)"
  "reg_ctl f g md (RQueued h) = Next (g h)" "reg_ctl f g md RPanic = Panic"
  by (simp_all add: reg_ctl_def)

lemma reg_effect:
  assumes st: "reg_step (attempt_of md) h p x l = (res, x', l')"
    and f: "\<And>md' q. pc_share md' (f q) \<longleftrightarrow> md' = md \<and> q = RStoreOk" and g: "\<And>md' h. \<not> pc_share md' (g h)"
  shows "rw_effect x x' (f p) (reg_ctl f g md res)"
proof (cases "p = RTry")
  case True
  with rw_reg_word [OF st] show ?thesis
    by (auto simp: rw_effect_def f g split: attempt.splits dest!: attempt_effect)
next
  case False
  with rw_reg_word [OF st] have "x' = x" "res \<noteq> RGo RStoreOk" "res \<noteq> RPanic" "res = RGot \<longleftrightarrow> p = RStoreOk"
    by auto
  then show ?thesis by (cases res) (auto simp: rw_effect_def f g)
qed

lemma rw_sync_reg_effect:
  assumes "rw_sync_reg md t p m = (res, m')"
  shows "rw_effect (rw_word m) (rw_word m') (RwReg md p) (reg_ctl (RwReg md) (\<lambda>h. RwPark md) md res) \<and>
    rw_inner m' = rw_inner m"
proof -
  obtain r x l where st: "reg_step (attempt_of md) t p (rw_word m) (sync_list md m) = (r, x, l)"
    by (metis prod_cases3)
  with assms have "m' = set_sync_list md l (m\<lparr>rw_word := x\<rparr>)" "res = r" by (simp_all add: rw_sync_reg_def)
  with reg_effect [OF st, of "RwReg md" "\<lambda>h. RwPark md"] show ?thesis by auto
qed

lemma rw_async_reg_effect:
  assumes "rw_async_reg E md p w = (res, w')"
  shows "rw_effect (rw_word (rwl w)) (rw_word (rwl w')) (RwAReg md p) (reg_ctl (RwAReg md) (RwAwait md) md res) \<and>
    r_frame w w' \<and> token w' = token w"
proof -
  obtain i k where new: "continuation E (conts w) = (i, k)" by force
  obtain r x l where st: "reg_step (attempt_of md) i p (rw_word (rwl w)) (async_list md (rwl w)) = (r, x, l)"
    by (metis prod_cases3)
  from assms new st have "w' = w\<lparr>conts := (if p = RPush then k else conts w),
      rwl := set_async_list md l ((rwl w)\<lparr>rw_word := x\<rparr>)\<rparr>" "res = r"
    by (simp_all add: rw_async_reg_def Let_def)
  with reg_effect [OF st, of "RwAReg md" "RwAwait md"] show ?thesis by (auto simp: r_frame_def)
qed

lemma try_lock_rw_effect:
  "try_lock_read m = (c, m') \<Longrightarrow> rw_inner m' = rw_inner m \<and>
     (case c of Return (Inr _) \<Rightarrow> unat (rw_word m) < 127 \<and> rw_word m' = rw_word m + 1 | Next _ \<Rightarrow> False | _ \<Rightarrow> m' = m)"
  "try_lock_write m = (c, m') \<Longrightarrow> rw_inner m' = rw_inner m \<and>
     (case c of Return (Inr _) \<Rightarrow> unat (rw_word m) = 0 \<and> rw_word m' = LOCKED_WRITE | Return (Inl _) \<Rightarrow> m' = m | _ \<Rightarrow> False)"
  by (auto simp: try_lock_read_def try_lock_write_def read_attempt_eq write_attempt_eq split: if_splits)

lemma rw_step_effect:
  assumes "rw_step E t p w = (c, w')"
  shows "rw_effect (rw_word (rwl w)) (rw_word (rwl w')) p c \<and> r_frame w w'"
proof (cases p)
  case (RwTry md)
  obtain c1 m1 c2 m2 where st: "try_lock_read (rwl w) = (c1, m1)" "try_lock_write (rwl w) = (c2, m2)"
    by force
  from try_lock_rw_effect(1) [OF st(1)] try_lock_rw_effect(2) [OF st(2)] assms RwTry st show ?thesis
    by (cases md) (auto simp: rw_try_step_def rw_effect_def r_frame_def split: ctl.splits sum.splits)
next
  case (RwSpin md)
  obtain c1 m1 c2 m2 where st: "try_lock_read (rwl w) = (c1, m1)" "try_lock_write (rwl w) = (c2, m2)"
    by force
  from try_lock_rw_effect(1) [OF st(1)] try_lock_rw_effect(2) [OF st(2)] assms RwSpin st show ?thesis
    by (cases md) (auto simp: lock_spin_read_step_def lock_spin_write_step_def rw_effect_def r_frame_def
      split: ctl.splits sum.splits)
next
  case (RwReg md q)
  obtain res m where st: "rw_sync_reg md t q (rwl w) = (res, m)" by force
  from rw_sync_reg_effect [OF st] assms RwReg st show ?thesis
    by (cases md; cases res) (auto simp: r_frame_def)
next
  case (RwAReg md q)
  obtain res w1 where st: "rw_async_reg E md q w = (res, w1)" by force
  from rw_async_reg_effect [OF st] assms RwAReg st show ?thesis
    by (cases md; cases res) auto
next
  case (RwPark md)
  with assms show ?thesis
    by (cases md) (auto simp: park_def rw_effect_def r_frame_def split: if_splits)
next
  case (RwAwait md r)
  with assms show ?thesis
    by (cases md; cases "is_ready E (conts w) r") (auto simp: rw_effect_def r_frame_def)
qed

lemma after_rw_share:
  "of_bool (share md (after_rw p c)) + of_bool (c = Return (RwAcquired md)) = (of_bool (ret_share md c) :: nat)"
  by (cases c; cases "case c of Return r \<Rightarrow> r | _ \<Rightarrow> RwUnavailable") auto

lemma rw_drop_frame:
  assumes "rw_drop_step E p w = (c, w')"
  shows "r_frame w w' \<and> (\<forall>md. \<not> share md (after_rw_drop c)) \<and>
    (case p of
       RSub \<Rightarrow> rw_word (rwl w') = rw_word (rwl w) - 1 \<and> (rw_word (rwl w) > 0 \<longrightarrow> c = Next (USyncW TSwap))
     | WSwapOut \<Rightarrow> rw_word (rwl w') = UNLOCKED \<and> (rw_word (rwl w) = LOCKED_WRITE \<longrightarrow> c = Next (USyncR TSwap))
     | _ \<Rightarrow> rw_word (rwl w') = rw_word (rwl w) \<and> c \<noteq> Panic)"
proof (cases p)
  case (USyncR q)
  with assms show ?thesis by (auto simp: r_frame_def Let_def split: prod.splits drain_res.splits)
next
  case (UAsyncR q)
  with assms show ?thesis by (auto simp: r_frame_def Let_def split: prod.splits drain_res.splits)
next
  case (USyncW q)
  with assms show ?thesis by (auto simp: r_frame_def Let_def split: prod.splits drain_res.splits)
next
  case (UAsyncW q)
  with assms show ?thesis by (auto simp: r_frame_def Let_def split: prod.splits drain_res.splits)
qed (use assms in \<open>auto simp: r_frame_def read_drop_step_def write_drop_step_def Let_def split: if_splits\<close>)

section \<open>The invariant on the lock word\<close>

lemma rw_count_init: "rinit E v w \<Longrightarrow> rw_count_ok w"
  by (simp add: rinit_def rw_count_ok_def shares_def rwlock_new_def UNLOCKED_def)

lemma rw_count_same:
  assumes "rw_count_ok w" "ragents w' = ragents w" "rw_word (rwl w') = rw_word (rwl w)"
    "\<And>md. guards md w' = guards md w"
  shows "rw_count_ok w'"
  using assms by (simp add: rw_count_ok_def shares_def)

lemma rw_count_upd:
  assumes "rw_count_ok w" "ragents w' = (ragents w)(t := c)" "rw_word (rwl w') = rw_word (rwl w)"
    "\<And>md. guards md w + of_bool (share md (ragents w t)) = guards md w' + (of_bool (share md c) :: nat)"
  shows "rw_count_ok w'"
proof -
  have "shares md w' = shares md w" for md
    using shares_upd(1) [OF assms(1,2), of md] assms(4) [of md] by simp
  with assms(1,3) shares_upd(2) [OF assms(1,2)] show ?thesis
    unfolding rw_count_ok_def by simp
qed

lemma rw_count_rlock:
  assumes ok: "rw_count_ok w" and p: "ragents w t = RLocking p" and st: "rw_step E t p w = (c, w1)"
  shows "rw_count_ok (set_ragent t (after_rw p c) (add_guard c w1))" (is "rw_count_ok ?w'")
proof -
  note eff = rw_step_effect [OF st]
  then have fr: "r_frame w w1" by simp
  have ag: "ragents ?w' = (ragents w)(t := after_rw p c)" using fr by (simp add: r_frame_def)
  have g: "guards md ?w' = guards md w + of_bool (c = Return (RwAcquired md))" for md
    using fr by (cases md) (simp_all add: r_frame_def)
  have sh: "shares md ?w' + of_bool (pc_share md p) = shares md w + of_bool (ret_share md c)" for md
    using shares_upd(1) [OF ok ag, of md] g [of md] p after_rw_share [of md p c] by simp
  note fin = shares_upd(2) [OF ok ag]
  have wd: "rw_word (rwl ?w') = rw_word (rwl w1)" by simp
  show ?thesis using conjunct1 [OF eff] unfolding rw_effect_def
  proof (elim disjE conjE)
    assume same: "rw_word (rwl w1) = rw_word (rwl w)" "\<forall>md. ret_share md c = pc_share md p"
    then have "shares md ?w' = shares md w" for md using sh [of md] by simp
    then show ?thesis using ok same(1) fin unfolding rw_count_ok_def wd by simp
  next
    assume rd: "unat (rw_word (rwl w)) < 127" "rw_word (rwl w1) = rw_word (rwl w) + 1"
      "\<forall>md. \<not> pc_share md p" "\<forall>md. ret_share md c \<longleftrightarrow> md = Rd"
    have "unat (rw_word (rwl w1)) = unat (rw_word (rwl w)) + 1"
      using rd(1,2) unat_add_one [of "rw_word (rwl w)"] by simp
    moreover have "shares Rd ?w' = Suc (shares Rd w)" "shares Wr ?w' = shares Wr w"
      using sh [of Rd] sh [of Wr] rd(3,4) by simp_all
    ultimately show ?thesis using ok rd(1) fin unfolding rw_count_ok_def wd by simp
  next
    assume wr: "unat (rw_word (rwl w)) = 0" "rw_word (rwl w1) = LOCKED_WRITE"
      "\<forall>md. \<not> pc_share md p" "\<forall>md. ret_share md c \<longleftrightarrow> md = Wr"
    have "unat (rw_word (rwl w1)) = 128" using wr(2) by (simp add: LOCKED_WRITE_val)
    moreover have "shares Rd ?w' = shares Rd w" "shares Wr ?w' = Suc (shares Wr w)"
      using sh [of Rd] sh [of Wr] wr(3,4) by simp_all
    ultimately show ?thesis using ok wr(1) fin unfolding rw_count_ok_def wd by simp
  qed
qed

lemma rw_count_rdrop:
  assumes ok: "rw_count_ok w" and p: "ragents w t = RDropping p" and st: "rw_drop_step E p w = (c, w1)"
  shows "rw_count_ok (set_ragent t (after_rw_drop c) w1) \<and> c \<noteq> Panic" (is "rw_count_ok ?w' \<and> _")
proof -
  note eff = rw_drop_frame [OF st]
  then have fr: "r_frame w w1" by simp
  have ag: "ragents ?w' = (ragents w)(t := after_rw_drop c)" using fr by (simp add: r_frame_def)
  have g: "guards md ?w' = guards md w" for md
    using fr by (cases md) (simp_all add: r_frame_def)
  have sh: "shares md ?w' + of_bool (share md (ragents w t)) = shares md w" for md
    using shares_upd(1) [OF ok ag, of md] g [of md] eff by simp
  note fin = shares_upd(2) [OF ok ag]
  have wd: "rw_word (rwl ?w') = rw_word (rwl w1)" by simp
  consider "p = RSub" | "p = WSwapOut" | "p \<noteq> RSub" "p \<noteq> WSwapOut" by blast
  then show ?thesis
  proof cases
    case 1
    then have "0 < shares Rd w" using shares_pos [OF ok, of Rd t] p by simp
    then have pos: "0 < unat (rw_word (rwl w))" using ok by (simp add: rw_count_ok_def)
    then have "0 < rw_word (rwl w)" by (simp add: word_less_nat_alt)
    moreover have "unat (rw_word (rwl w1)) = unat (rw_word (rwl w)) - 1"
      using eff 1 unat_sub_one [OF pos] by simp
    moreover have "shares Rd w = Suc (shares Rd ?w')" "shares Wr ?w' = shares Wr w"
      using sh [of Rd] sh [of Wr] p 1 by simp_all
    ultimately show ?thesis using ok eff 1 fin unfolding rw_count_ok_def wd by simp
  next
    case 2
    then have "0 < shares Wr w" using shares_pos [OF ok, of Wr t] p by simp
    then have "unat (rw_word (rwl w)) = 128" "shares Wr w = 1" "shares Rd w = 0"
      using ok by (auto simp: rw_count_ok_def)
    moreover from this have "rw_word (rwl w) = LOCKED_WRITE" by (simp add: LOCKED_WRITE_val unat_eq_word)
    moreover have "shares Rd ?w' = shares Rd w" "shares Wr w = Suc (shares Wr ?w')"
      using sh [of Rd] sh [of Wr] p 2 by simp_all
    ultimately show ?thesis using ok eff 2 fin unfolding rw_count_ok_def wd by (simp add: UNLOCKED_def)
  next
    case 3
    then have "\<not> share md (RDropping p)" for md by (cases p) auto
    then have "shares md ?w' = shares md w" for md using sh [of md] p by simp
    moreover have "rw_word (rwl w1) = rw_word (rwl w)" "c \<noteq> Panic"
      using eff 3 by (cases p; simp)+
    ultimately show ?thesis using ok fin unfolding rw_count_ok_def wd by simp
  qed
qed

lemma guards_upd [simp]:
  "guards md (set_ragent t c w) = guards md w" "guards md (unpark t w) = guards md w"
  "guards md (send_to E r w) = guards md w" "guards md (w\<lparr>rwl := m\<rparr>) = guards md w"
  "guards md (w\<lparr>token := tk\<rparr>) = guards md w" "guards md (w\<lparr>conts := k\<rparr>) = guards md w"
  for w :: "('k, 'a, 'z) rworld_scheme"
  by (cases md; simp)+

lemma rw_count_step: "rstep E w w' \<Longrightarrow> rw_count_ok w \<Longrightarrow> rw_count_ok w'"
proof (induction rule: rstep.induct)
  case (rcall w t c)
  from rcall.prems show ?case by (rule rw_count_upd [where t = t and c = "RLocking (rw_entry c)"]) (use rcall.hyps in simp_all)
next
  case (rlock w t p)
  then show ?case by (auto simp: run_rw_def intro: rw_count_rlock split: prod.splits)
next
  case (rdrop w t p)
  then show ?case by (auto simp: run_rw_drop_def dest: rw_count_rdrop split: prod.splits)
next
  case (rfree_read w t)
  have "guards md w + of_bool (share md (ragents w t)) =
      guards md (set_ragent t (RDropping RSub) (w\<lparr>rguards := rguards w - 1\<rparr>)) + (of_bool (share md (RDropping RSub)) :: nat)" for md
    using rfree_read by (cases md) auto
  note g = this
  show ?case by (rule rw_count_upd [where t = t, OF rfree_read.prems _ _ g]) simp_all
next
  case (rfree_write w t)
  have "guards md w + of_bool (share md (ragents w t)) =
      guards md (set_ragent t (RDropping WSwapOut) (w\<lparr>wguards := wguards w - 1\<rparr>)) + (of_bool (share md (RDropping WSwapOut)) :: nat)" for md
    using rfree_write by (cases md) auto
  note g = this
  show ?case by (rule rw_count_upd [where t = t, OF rfree_write.prems _ _ g]) simp_all
next
  case (rabandon w t p)
  from rabandon.prems show ?case
    by (rule rw_count_upd [where t = t and c = RIdle]) (use rabandon.hyps in \<open>cases p; simp\<close>)+
next
  case (rother_state w' w)
  have g: "guards md w' = guards md w" for md using rother_state.hyps by (cases md) simp_all
  show ?case by (rule rw_count_same [OF rother_state.prems _ _ g]) (simp_all only: rother_state.hyps)
qed (erule rw_count_same; simp add: wguard_deref_mut_def)+

interpretation rw_count: machine_invariant "rinit E v" "rstep E" rw_count_ok
  for E :: "'k env" and v :: 'a
  by unfold_locales (auto intro: rw_count_init rw_count_step)

end
