(* ===== verification/RwLists.thy ===== *)
theory RwLists
  imports RwMachine
begin

text \<open>
  The four wait lists of the reader-writer lock refine the abstract protocol of
  \<^verbatim>\<open>WaitList\<close>: the lists of blocked threads and of waiting tasks, each for the readers
  and for the writers. One simulation per kind of list, for both modes.
\<close>

section \<open>The invariant\<close>

fun ragent_ok :: "'k env \<Rightarrow> tid \<Rightarrow> 'k \<Rightarrow> rpc \<Rightarrow> bool" where
  "ragent_ok E t k (RLocking (RwReg md p)) = reg_sync_ok t p"
| "ragent_ok E t k (RLocking (RwAReg md p)) = reg_async_ok E k p"
| "ragent_ok E t k (RLocking (RwAwait md r)) = is_live E k r"
| "ragent_ok E t k _ = True"

definition rinv :: "'k env \<Rightarrow> ('k, 'a, 'z) rworld_scheme \<Rightarrow> bool" where
  "rinv E w \<longleftrightarrow> cont_ok E \<and> rw_count_ok w \<and> (\<forall>t. ragent_ok E t (conts w) (ragents w t))"

lemma ragent_ok_mono:
  "(\<And>i. is_live E k i \<Longrightarrow> is_live E k' i) \<Longrightarrow> ragent_ok E t k c \<Longrightarrow> ragent_ok E t k' c"
  by (cases "(E, t, k, c)" rule: ragent_ok.cases) (auto simp: reg_async_ok_iff)

lemma ragent_ok_rest [simp]: "ragent_ok E t k (RLocking (rw_entry c))"
  by (cases c) auto

definition keeps_live :: "'k env \<Rightarrow> 'k \<Rightarrow> 'k \<Rightarrow> bool" where
  "keeps_live E k k' \<longleftrightarrow> (\<forall>i. is_live E k i \<longrightarrow> is_live E k' i)"

lemma keeps_live_refl [simp]: "keeps_live E k k"
  by (simp add: keeps_live_def)

lemma keeps_live_send: "cont_ok E \<Longrightarrow> keeps_live E k (send E i k)"
  by (simp add: keeps_live_def cont_ok_send(2))

lemma keeps_live_new: "cont_ok E \<Longrightarrow> continuation E k = (i, k') \<Longrightarrow> keeps_live E k k'"
  by (simp add: keeps_live_def cont_ok_new(3))

lemma rw_sync_reg_ok:
  assumes "rw_sync_reg md t p m = (res, m')" "reg_sync_ok t p"
  shows "(\<forall>q. res = RGo q \<longrightarrow> reg_sync_ok t q) \<and> (\<forall>h. res = RQueued h \<longrightarrow> h = t)"
proof -
  obtain r x l where st: "reg_step (attempt_of md) t p (rw_word m) (sync_list md m) = (r, x, l)"
    by (metis prod_cases3)
  with assms have "res = r" by (simp add: rw_sync_reg_def)
  with reg_step_list [OF st] assms(2) show ?thesis by (auto simp: reg_sync_ok_iff)
qed

lemma rw_async_reg_ok:
  assumes "cont_ok E" "rw_async_reg E md p w = (res, w')" "reg_async_ok E (conts w) p"
  shows "keeps_live E (conts w) (conts w') \<and> (\<forall>q. res = RGo q \<longrightarrow> reg_async_ok E (conts w') q) \<and>
    (\<forall>r. res = RQueued r \<longrightarrow> is_live E (conts w') r)"
proof -
  obtain i k where new: "continuation E (conts w) = (i, k)" by force
  obtain r x l where st: "reg_step (attempt_of md) i p (rw_word (rwl w)) (async_list md (rwl w)) = (r, x, l)"
    by (metis prod_cases3)
  from assms(2) new st have "res = r" "conts w' = (if p = RPush then k else conts w)"
    by (auto simp: rw_async_reg_def Let_def)
  with reg_step_list [OF st] assms(3) keeps_live_new [OF assms(1) new] cont_ok_new(3) [OF assms(1) new, of i]
  show ?thesis by (auto simp: reg_async_ok_iff)
qed

lemma rw_step_ok:
  assumes "cont_ok E" "ragent_ok E t (conts w) (RLocking p)" "rw_step E t p w = (c, w')"
  shows "keeps_live E (conts w) (conts w') \<and> ragent_ok E t (conts w') (after_rw p c)"
proof (cases p)
  case (RwReg md q)
  obtain res m where st: "rw_sync_reg md t q (rwl w) = (res, m)" by force
  from rw_sync_reg_ok [OF st] assms(2,3) RwReg st show ?thesis
    by (cases md; cases res) auto
next
  case (RwAReg md q)
  obtain res w1 where st: "rw_async_reg E md q w = (res, w1)" by force
  from rw_async_reg_ok [OF assms(1) st] assms(2,3) RwAReg st show ?thesis
    by (cases md; cases res) auto
next
  case (RwTry md)
  with assms(3) show ?thesis
    by (cases md) (auto simp: rw_try_step_def try_lock_read_def try_lock_write_def write_attempt_eq
      split: attempt.splits if_splits)
next
  case (RwSpin md)
  with assms(3) show ?thesis
    by (cases md) (auto simp: lock_spin_read_step_def lock_spin_write_step_def try_lock_read_def
      try_lock_write_def write_attempt_eq split: attempt.splits if_splits)
next
  case (RwPark md)
  with assms(3) show ?thesis by (cases md) (auto simp: park_def split: if_splits)
next
  case (RwAwait md r)
  with assms(2,3) show ?thesis by (cases md; cases "is_ready E (conts w) r") auto
qed

lemma rw_drop_ok:
  assumes "cont_ok E" "rw_drop_step E p w = (c, w')"
  shows "keeps_live E (conts w) (conts w') \<and> ragent_ok E t (conts w') (after_rw_drop c)"
proof -
  have "ragent_ok E t (conts w') (after_rw_drop c)" by (cases c) auto
  moreover have "keeps_live E (conts w) (conts w')"
    using assms(2) keeps_live_send [OF assms(1)]
    by (cases p) (auto simp: read_drop_step_def write_drop_step_def Let_def unpark_def send_to_def
      split: prod.splits drain_res.splits if_splits)
  ultimately show ?thesis by blast
qed

lemma ragents_same_ok:
  assumes "rinv E w" "keeps_live E (conts w) (conts w')" "ragents w' = ragents w"
  shows "ragent_ok E u (conts w') (ragents w' u)"
proof -
  have "ragent_ok E u (conts w) (ragents w u)" using assms(1) by (simp add: rinv_def)
  then have "ragent_ok E u (conts w') (ragents w u)"
    by (rule ragent_ok_mono [rotated]) (use assms(2) in \<open>simp add: keeps_live_def\<close>)
  then show ?thesis using assms(3) by simp
qed

lemma ragents_step_ok:
  assumes "rinv E w" "keeps_live E (conts w) (conts w')" "ragents w' = (ragents w)(t := c)"
    "ragent_ok E t (conts w') c"
  shows "ragent_ok E u (conts w') (ragents w' u)"
proof (cases "u = t")
  case False
  have "ragent_ok E u (conts w) (ragents w u)" using assms(1) by (simp add: rinv_def)
  then have "ragent_ok E u (conts w') (ragents w u)"
    by (rule ragent_ok_mono [rotated]) (use assms(2) in \<open>simp add: keeps_live_def\<close>)
  then show ?thesis using assms(3) False by simp
qed (use assms in simp)

lemma rinv_agents: "rstep E w w' \<Longrightarrow> rinv E w \<Longrightarrow> ragent_ok E u (conts w') (ragents w' u)"
proof (induction rule: rstep.induct)
  case (rcall w t c)
  from rcall.prems show ?case
    by (rule ragents_step_ok [where t = t and c = "RLocking (rw_entry c)"]) simp_all
next
  case (rlock w t p)
  obtain c w1 where st: "rw_step E t p w = (c, w1)" by force
  have "cont_ok E" "ragent_ok E t (conts w) (RLocking p)" using rlock by (auto simp: rinv_def) metis
  from rw_step_ok [OF this st] rw_step_effect [OF st] rlock.prems show ?case
    unfolding run_rw_def st by (intro ragents_step_ok [where t = t and c = "after_rw p c"]) (simp_all add: r_frame_def)
next
  case (rabandon w t p)
  from rabandon.prems show ?case
    by (rule ragents_step_ok [where t = t and c = RIdle]) simp_all
next
  case (rfree_read w t)
  from rfree_read.prems show ?case
    by (rule ragents_step_ok [where t = t and c = "RDropping RSub"]) simp_all
next
  case (rfree_write w t)
  from rfree_write.prems show ?case
    by (rule ragents_step_ok [where t = t and c = "RDropping WSwapOut"]) simp_all
next
  case (rdrop w t p)
  obtain c w1 where st: "rw_drop_step E p w = (c, w1)" by force
  have "cont_ok E" using rdrop by (auto simp: rinv_def)
  from rw_drop_ok [OF this st, of t] rw_drop_frame [OF st] rdrop.prems show ?case
    unfolding run_rw_drop_def st by (intro ragents_step_ok [where t = t and c = "after_rw_drop c"]) (simp_all add: r_frame_def)
next
  case (rother_cont w i k)
  then have "cont_ok E" by (simp add: rinv_def)
  from keeps_live_new [OF this rother_cont.hyps] rother_cont.prems show ?case
    by (intro ragents_same_ok) simp_all
next
  case (rother_send w i)
  then have "cont_ok E" by (simp add: rinv_def)
  from keeps_live_send [OF this] rother_send.prems show ?case
    by (intro ragents_same_ok) (simp_all add: send_to_def)
next
  case (rother_state w' w)
  from rother_state.prems show ?case
    by (rule ragents_same_ok) (simp_all only: rother_state.hyps keeps_live_refl)
qed (erule ragents_same_ok; simp add: unpark_def)+

lemma rinv_init: "rinit E v w \<Longrightarrow> rinv E w"
  unfolding rinv_def by (auto intro: rw_count_init) (auto simp: rinit_def)

lemma rinv_step: "rstep E w w' \<Longrightarrow> rinv E w \<Longrightarrow> rinv E w'"
  using rinv_agents rw_count_step unfolding rinv_def by blast

section \<open>Roles and abstraction\<close>

fun rw_sync_role :: "mode \<Rightarrow> tid \<Rightarrow> rpc \<Rightarrow> tid role" where
  "rw_sync_role md t (RLocking (RwReg md' p)) = (if md' = md then reg_role p else Elsewhere)"
| "rw_sync_role md t (RLocking (RwPark md')) = (if md' = md then Asleep t else Elsewhere)"
| "rw_sync_role md t (RCrashed (RwReg md' p)) = (if md' = md \<and> p = RTry then Stuck else Elsewhere)"
| "rw_sync_role md t (RDropping (USyncR p)) = (case md of Rd \<Rightarrow> drain_role p | Wr \<Rightarrow> Owing)"
| "rw_sync_role md t (RDropping (UAsyncR p)) = (case md of Rd \<Rightarrow> Elsewhere | Wr \<Rightarrow> Owing)"
| "rw_sync_role md t (RDropping (USyncW p)) = (case md of Rd \<Rightarrow> Elsewhere | Wr \<Rightarrow> drain_role p)"
| "rw_sync_role md t _ = Elsewhere"

fun rw_async_role :: "mode \<Rightarrow> rpc \<Rightarrow> cont_id role" where
  "rw_async_role md (RLocking (RwAReg md' p)) = (if md' = md then reg_role p else Elsewhere)"
| "rw_async_role md (RLocking (RwAwait md' r)) = (if md' = md then Asleep r else Elsewhere)"
| "rw_async_role md (RCrashed (RwAReg md' p)) = (if md' = md \<and> p = RTry then Stuck else Elsewhere)"
| "rw_async_role md (RDropping (USyncR p)) = Owing"
| "rw_async_role md (RDropping (UAsyncR p)) = (case md of Rd \<Rightarrow> drain_role p | Wr \<Rightarrow> Owing)"
| "rw_async_role md (RDropping (USyncW p)) = (case md of Rd \<Rightarrow> Elsewhere | Wr \<Rightarrow> Owing)"
| "rw_async_role md (RDropping (UAsyncW p)) = (case md of Rd \<Rightarrow> Elsewhere | Wr \<Rightarrow> drain_role p)"
| "rw_async_role md _ = Elsewhere"

text \<open>When a reader, or a writer, could take the lock.\<close>

fun word_avail :: "mode \<Rightarrow> 8 word \<Rightarrow> bool" where
  "word_avail Rd x = (unat x < 128)"
| "word_avail Wr x = (unat x = 0)"

definition rw_sync_abs :: "mode \<Rightarrow> ('k, 'a, 'z) rworld_scheme \<Rightarrow> tid wl" where
  "rw_sync_abs md w = wl_of (word_avail md (rw_word (rwl w))) (sync_list md (rwl w)) (token w)
     (\<lambda>t. rw_sync_role md t (ragents w t))"

definition rw_async_abs :: "mode \<Rightarrow> 'k env \<Rightarrow> ('k, 'a, 'z) rworld_scheme \<Rightarrow> cont_id wl" where
  "rw_async_abs md E w = wl_of (word_avail md (rw_word (rwl w))) (async_list md (rwl w))
     (is_ready E (conts w)) (\<lambda>t. rw_async_role md (ragents w t))"

lemma rw_role_rest [simp]:
  "r_at_rest c \<Longrightarrow> rw_sync_role md t c = Elsewhere" "r_at_rest c \<Longrightarrow> rw_async_role md c = Elsewhere"
  "rw_sync_role md t (RLocking (rw_entry m)) = Elsewhere"
  "rw_async_role md (RLocking (rw_entry m)) = Elsewhere"
     apply (cases c; simp)
    apply (cases c; simp)
   apply (cases m; simp)
  apply (cases m; simp)
  done

lemma attempt_avail:
  "attempt_of md x = Denied \<Longrightarrow> \<not> word_avail md x"
  "attempt_of md x = Got y \<Longrightarrow> word_avail md y \<Longrightarrow> word_avail md x"
  by (cases md; auto simp: read_attempt_eq write_attempt_eq LOCKED_WRITE_val split: if_splits)+

lemma rw_effect_avail: "rw_effect x x' p c \<Longrightarrow> word_avail md x' \<Longrightarrow> word_avail md x"
  unfolding rw_effect_def by (cases md) (auto simp: unat_add_one LOCKED_WRITE_val)

lemma rw_sync_abs_set:
  assumes "ragents w' = ragents w"
  shows "rw_sync_abs md (set_ragent t c w') =
     wl_of (word_avail md (rw_word (rwl w'))) (sync_list md (rwl w')) (token w')
       ((\<lambda>u. rw_sync_role md u (ragents w u))(t := rw_sync_role md t c))"
  using assms by (auto simp: rw_sync_abs_def intro!: arg_cong [where f = "wl_of _ _ _"])

lemma rw_async_abs_set:
  assumes "ragents w' = ragents w"
  shows "rw_async_abs md E (set_ragent t c w') =
     wl_of (word_avail md (rw_word (rwl w'))) (async_list md (rwl w')) (is_ready E (conts w'))
       ((\<lambda>u. rw_async_role md (ragents w u))(t := rw_async_role md c))"
  using assms by (auto simp: rw_async_abs_def intro!: arg_cong [where f = "wl_of _ _ _"])

lemma add_guard_abs [simp]:
  "rw_sync_abs md (set_ragent t c (add_guard x w)) = rw_sync_abs md (set_ragent t c w)"
  "rw_async_abs md E (set_ragent t c (add_guard x w)) = rw_async_abs md E (set_ragent t c w)"
  by (simp_all add: rw_sync_abs_def rw_async_abs_def)

section \<open>The lists of blocked threads\<close>

lemma rw_sync_sleeper:
  assumes "rinv E w" "sleeps_on (rw_sync_role md u (ragents w u)) h"
  shows "h = u"
proof -
  have ok: "ragent_ok E u (conts w) (ragents w u)" using assms(1) by (simp add: rinv_def)
  have reg: "sleeps_on (reg_role q) h \<Longrightarrow> q = RStoreErr h" for q :: "tid reg_pc" by (cases q) auto
  have drain: "\<not> sleeps_on (drain_role q) h" for q :: "tid drain_pc" by (cases q) auto
  show ?thesis using assms(2) ok
    by (cases "(md, u, ragents w u)" rule: rw_sync_role.cases)
      (auto simp: reg_sync_ok_iff drain split: if_splits mode.splits dest!: reg)
qed

text \<open>A step that leaves the list alone and does not make the lock available.\<close>

lemma rw_sync_idle:
  assumes "rw_sync_role md t c = rw_sync_role md t (ragents w t)" "ragents w' = ragents w"
    "sync_list md (rwl w') = sync_list md (rwl w)" "\<And>h. token w h \<Longrightarrow> token w' h"
    "word_avail md (rw_word (rwl w')) \<longrightarrow> word_avail md (rw_word (rwl w))"
  shows "wl_step\<^sup>*\<^sup>* (rw_sync_abs md w) (rw_sync_abs md (set_ragent t c w'))"
  unfolding rw_sync_abs_set [OF assms(2)] unfolding rw_sync_abs_def assms(3)
  by (rule wl_of_idle) (use assms in auto)

text \<open>Parking: the thread's own token is consumed; nobody else sleeps on it.\<close>

lemma rw_sync_park:
  assumes inv: "rinv E w" and p: "ragents w t = RLocking (RwPark md')"
    and st: "park E t w = (c', w')"
    and c: "c = RLocking (RwPark md') \<and> token w' = token w \<or> rw_sync_role md t c = Elsewhere"
  shows "wl_step\<^sup>*\<^sup>* (rw_sync_abs md w) (rw_sync_abs md (set_ragent t c w'))"
proof -
  have w': "ragents w' = ragents w" "rwl w' = rwl w"
    "token w' = token w \<or> token w' = (token w)(t := False)"
    using st by (auto simp: park_def split: if_splits)
  let ?r = "\<lambda>u. rw_sync_role md u (ragents w u)"
  let ?m = "wl_of (word_avail md (rw_word (rwl w))) (sync_list md (rwl w))"
  have other: "u = t" if "sleeps_on (?r u) t" for u using rw_sync_sleeper [OF inv that] by simp
  have stop: "wl_step\<^sup>*\<^sup>* (?m k ?r) (?m k (?r(t := Elsewhere)))" for k
    using p by (cases "md' = md") (auto simp: fun_upd_idem intro: wl_of_quit)
  have "\<not> sleeps_on ((?r(t := Elsewhere)) u) t" for u
    using other [of u] by auto
  then have "wl_step\<^sup>*\<^sup>* (?m (token w) (?r(t := Elsewhere))) (?m ((token w)(t := False)) (?r(t := Elsewhere)))"
    by (intro r_into_rtranclp wl_of_forget)
  with stop [of "token w"] w'(3) have gone: "wl_step\<^sup>*\<^sup>* (?m (token w) ?r) (?m (token w') (?r(t := Elsewhere)))"
    by auto
  have same: "?r(t := rw_sync_role md t (RLocking (RwPark md'))) = ?r" using p by auto
  from c gone same show ?thesis
    unfolding rw_sync_abs_set [OF w'(1)] unfolding rw_sync_abs_def w'(2) by auto
qed

lemma rw_sync_reg_sim:
  assumes "rw_sync_reg md t p m = (res, m')" "r t = reg_role p"
  shows "wl_step\<^sup>*\<^sup>* (wl_of (word_avail md (rw_word m)) (sync_list md m) k r)
    (wl_of (word_avail md (rw_word m')) (sync_list md m') k (r(t := reg_res_role res)))"
proof -
  obtain r' x l where st: "reg_step (attempt_of md) t p (rw_word m) (sync_list md m) = (r', x, l)"
    by (metis prod_cases3)
  with assms(1) have m': "res = r'" "m' = set_sync_list md l (m\<lparr>rw_word := x\<rparr>)"
    by (simp_all add: rw_sync_reg_def)
  have "wl_step\<^sup>*\<^sup>* (wl_of (word_avail md (rw_word m)) (sync_list md m) k r)
      (wl_of (word_avail md x) l k (r(t := reg_res_role r')))"
    by (rule reg_sim [OF st, where av = "word_avail md"]) (use assms(2) attempt_avail in auto)
  then show ?thesis by (simp add: m')
qed

lemma rw_sync_reg_frame:
  "rw_sync_reg md t p m = (res, m') \<Longrightarrow> (md' \<noteq> md \<longrightarrow> sync_list md' m' = sync_list md' m) \<and>
   (\<forall>md'. async_list md' m' = async_list md' m)"
  by (auto simp: rw_sync_reg_def split: prod.splits)

lemma rw_async_reg_frame:
  "rw_async_reg E md p w = (res, w') \<Longrightarrow> (md' \<noteq> md \<longrightarrow> async_list md' (rwl w') = async_list md' (rwl w)) \<and>
   (\<forall>md'. sync_list md' (rwl w') = sync_list md' (rwl w)) \<and> token w' = token w"
  by (auto simp: rw_async_reg_def Let_def split: prod.splits)

lemma rw_sync_reg_panic: "rw_sync_reg md t p m = (RPanic, m') \<Longrightarrow> p = RTry"
  by (cases "reg_step (attempt_of md) t p (rw_word m) (sync_list md m)")
    (auto simp: rw_sync_reg_def dest!: rw_reg_word split: if_splits)

lemma rw_async_reg_panic: "rw_async_reg E md p w = (RPanic, w') \<Longrightarrow> p = RTry"
  by (cases "reg_step (attempt_of md) (fst (continuation E (conts w))) p (rw_word (rwl w)) (async_list md (rwl w))")
    (auto simp: rw_async_reg_def Let_def dest!: rw_reg_word split: if_splits prod.splits)

text \<open>The control flow of the two acquiring methods, for both modes.\<close>

lemma rw_step_reg:
  "rw_step E t (RwReg md q) w = (case rw_sync_reg md t q (rwl w) of (res, m) \<Rightarrow>
     (reg_ctl (RwReg md) (\<lambda>h. RwPark md) md res, w\<lparr>rwl := m\<rparr>))"
  "rw_step E t (RwAReg md q') w = (case rw_async_reg E md q' w of (res, w') \<Rightarrow>
     (reg_ctl (RwAReg md) (RwAwait md) md res, w'))"
  "rw_step E t (RwPark md) w = (case park E t w of (c, w') \<Rightarrow>
     (case c of Return _ \<Rightarrow> Next (RwReg md RSwap) | Next _ \<Rightarrow> Next (RwPark md) | Panic \<Rightarrow> Panic, w'))"
  "rw_step E t (RwAwait md r) w =
     (Next (if is_ready E (conts w) r then RwAReg md RSwap else RwAwait md r), w)"
  by (cases md; auto simp: reg_ctl_def split: prod.splits reg_res.splits ctl.splits)+

lemma rw_try_frame:
  assumes "rw_step E t p w = (c, w')" "p = RwTry md' \<or> p = RwSpin md'"
  shows "sync_list md (rwl w') = sync_list md (rwl w)" "async_list md (rwl w') = async_list md (rwl w)"
    "token w' = token w" "conts w' = conts w" "rw_sync_role md t (after_rw p c) = Elsewhere"
    "rw_async_role md (after_rw p c) = Elsewhere"
  using assms by (cases md'; auto simp: rw_try_step_def lock_spin_read_step_def lock_spin_write_step_def
    try_lock_read_def try_lock_write_def split: attempt.splits)+

lemma rw_lock_sync_sim:
  assumes inv: "rinv E w" and p: "ragents w t = RLocking p" and st: "rw_step E t p w = (c, w')"
  shows "wl_step\<^sup>*\<^sup>* (rw_sync_abs md w) (rw_sync_abs md (set_ragent t (after_rw p c) w'))"
proof -
  note eff = rw_step_effect [OF st]
  then have ag: "ragents w' = ragents w" by (simp add: r_frame_def)
  have av: "word_avail md (rw_word (rwl w')) \<longrightarrow> word_avail md (rw_word (rwl w))"
    using eff rw_effect_avail by blast
  have ok: "ragent_ok E t (conts w) (RLocking p)" using inv p by (metis rinv_def)
  let ?r = "\<lambda>u. rw_sync_role md u (ragents w u)"
  show ?thesis
  proof (cases p)
    case (RwTry md')
    with rw_try_frame [OF st] p av show ?thesis by (intro rw_sync_idle ag) auto
  next
    case (RwSpin md')
    with rw_try_frame [OF st] p av show ?thesis by (intro rw_sync_idle ag) auto
  next
    case (RwReg md' q)
    obtain res m where sr: "rw_sync_reg md' t q (rwl w) = (res, m)" by force
    show ?thesis
    proof (cases "md' = md")
      case True
      have "rw_sync_role md t (after_rw p c) = reg_res_role res"
        using RwReg True st sr rw_sync_reg_ok [OF sr] rw_sync_reg_panic [of md' t q "rwl w" m] ok
        by (cases res) (auto simp: rw_step_reg)
      then show ?thesis
        using rw_sync_reg_sim [OF sr, of ?r "token w"] RwReg True st sr p
        unfolding rw_sync_abs_set [OF ag] unfolding rw_sync_abs_def by (auto simp: rw_step_reg)
    next
      case False
      then show ?thesis
        using RwReg st sr p av rw_sync_reg_frame [OF sr, of md]
        by (intro rw_sync_idle ag) (cases res, auto simp: rw_step_reg)+
    qed
  next
    case (RwPark md')
    obtain c' w1 where pk: "park E t w = (c', w1)" by force
    have "w1 = w'" "after_rw p c = RLocking (RwPark md') \<and> token w' = token w \<or>
        rw_sync_role md t (after_rw p c) = Elsewhere"
      using RwPark st pk by (cases c'; auto simp: rw_step_reg park_def split: if_splits)+
    then show ?thesis using rw_sync_park [OF inv, of t md' c' w1] p RwPark pk by auto
  next
    case (RwAReg md' q)
    obtain res w1 where ar: "rw_async_reg E md' q w = (res, w1)" by force
    show ?thesis
      using RwAReg st ar p av rw_async_reg_frame [OF ar]
      by (intro rw_sync_idle ag) (cases res, auto simp: rw_step_reg)+
  next
    case (RwAwait md' r)
    with st p av show ?thesis by (intro rw_sync_idle ag) (auto simp: rw_step_reg)
  qed
qed

text \<open>The word after a drop's atomic operation: a reader's drop never changes what readers
  can do.\<close>

lemma rw_drop_avail:
  assumes inv: "rw_count_ok w" and p: "ragents w t = RDropping p" and st: "rw_drop_step E p w = (c, w')"
  shows "p = RSub \<Longrightarrow> word_avail Rd (rw_word (rwl w')) = word_avail Rd (rw_word (rwl w)) \<and> c = Next (USyncW TSwap)"
    and "p = WSwapOut \<Longrightarrow> c = Next (USyncR TSwap)"
    and "p \<noteq> RSub \<Longrightarrow> p \<noteq> WSwapOut \<Longrightarrow> rw_word (rwl w') = rw_word (rwl w)"
proof -
  note eff = rw_drop_frame [OF st]
  { assume r: "p = RSub"
    have "0 < shares Rd w" using shares_pos [OF inv, of Rd t] p r by simp
    then have x: "0 < unat (rw_word (rwl w))" "unat (rw_word (rwl w)) \<le> 127"
      using inv by (auto simp: rw_count_ok_def)
    then have "0 < rw_word (rwl w)" by (simp add: word_less_nat_alt)
    then show "word_avail Rd (rw_word (rwl w')) = word_avail Rd (rw_word (rwl w)) \<and> c = Next (USyncW TSwap)"
      using eff r x unat_sub_one [OF x(1)] by simp }
  { assume r: "p = WSwapOut"
    have "0 < shares Wr w" using shares_pos [OF inv, of Wr t] p r by simp
    then have "unat (rw_word (rwl w)) = 128" using inv by (auto simp: rw_count_ok_def)
    then have "rw_word (rwl w) = LOCKED_WRITE" by (simp add: LOCKED_WRITE_val unat_eq_word)
    then show "c = Next (USyncR TSwap)" using eff r by simp }
  show "p \<noteq> RSub \<Longrightarrow> p \<noteq> WSwapOut \<Longrightarrow> rw_word (rwl w') = rw_word (rwl w)"
    using eff by (cases p) auto
qed

lemma rw_drop_lists:
  assumes "rw_drop_step E p w = (c, w')" "p = RSub \<or> p = WSwapOut"
  shows "sync_list md (rwl w') = sync_list md (rwl w)" "async_list md (rwl w') = async_list md (rwl w)"
    "token w' = token w" "conts w' = conts w"
  using assms by (auto simp: read_drop_step_def write_drop_step_def Let_def split: if_splits)

lemma rw_drop_sync_sim:
  assumes inv: "rinv E w" and p: "ragents w t = RDropping p" and st: "rw_drop_step E p w = (c, w')"
  shows "wl_step\<^sup>*\<^sup>* (rw_sync_abs md w) (rw_sync_abs md (set_ragent t (after_rw_drop c) w'))"
proof -
  have ag: "ragents w' = ragents w" using rw_drop_frame [OF st] by (simp add: r_frame_def)
  have ok: "rw_count_ok w" using inv by (simp add: rinv_def)
  note av = rw_drop_avail [OF ok p st]
  let ?r = "\<lambda>u. rw_sync_role md u (ragents w u)"
  show ?thesis
  proof (cases p)
    case RSub
    show ?thesis
    proof (cases md)
      case Rd
      with RSub av p rw_drop_lists [OF st] show ?thesis by (intro rw_sync_idle ag) auto
    next
      case Wr
      with RSub av p rw_drop_lists [OF st] show ?thesis
        unfolding rw_sync_abs_set [OF ag] unfolding rw_sync_abs_def
        by (auto intro!: r_into_rtranclp wl_of_offer)
    qed
  next
    case WSwapOut
    with av p rw_drop_lists [OF st] show ?thesis
      unfolding rw_sync_abs_set [OF ag] unfolding rw_sync_abs_def
      by (cases md) (auto intro!: r_into_rtranclp wl_of_offer)
  next
    case (USyncR q)
    obtain res l where d: "drain_step q (waiting_sync_read_threads (rwl w)) = (res, l)" by force
    from drain_sim [OF d, of ?r t "word_avail Rd (rw_word (rwl w))" "token w"] p st USyncR d
    show ?thesis unfolding rw_sync_abs_set [OF ag] unfolding rw_sync_abs_def
      by (cases md; cases res) (auto simp: unpark_def intro!: wl_of_idle)
  next
    case (UAsyncR q)
    obtain res l where d: "drain_step q (waiting_async_read_threads (rwl w)) = (res, l)" by force
    from p st UAsyncR d show ?thesis unfolding rw_sync_abs_set [OF ag] unfolding rw_sync_abs_def
      by (cases md; cases res) (auto simp: send_to_def intro!: wl_of_idle)
  next
    case (USyncW q)
    obtain res l where d: "drain_step q (waiting_sync_write_threads (rwl w)) = (res, l)" by force
    from drain_sim [OF d, of ?r t "word_avail Wr (rw_word (rwl w))" "token w"] p st USyncW d
    show ?thesis unfolding rw_sync_abs_set [OF ag] unfolding rw_sync_abs_def
      by (cases md; cases res) (auto simp: unpark_def intro!: wl_of_idle)
  next
    case (UAsyncW q)
    obtain res l where d: "drain_step q (waiting_async_write_threads (rwl w)) = (res, l)" by force
    from p st UAsyncW d show ?thesis unfolding rw_sync_abs_set [OF ag] unfolding rw_sync_abs_def
      by (cases md; cases res) (auto simp: send_to_def intro!: wl_of_idle)
  qed
qed

lemma rw_sync_abs_set_id:
  "rw_sync_role md t c = rw_sync_role md t (ragents w t) \<Longrightarrow>
   rw_sync_abs md (set_ragent t c w) = rw_sync_abs md w"
  by (auto simp: rw_sync_abs_def intro!: arg_cong [where f = "wl_of _ _ _"])

lemma rw_async_abs_set_id:
  "rw_async_role md c = rw_async_role md (ragents w t) \<Longrightarrow>
   rw_async_abs md E (set_ragent t c w) = rw_async_abs md E w"
  by (auto simp: rw_async_abs_def intro!: arg_cong [where f = "wl_of _ _ _"])

lemma rw_abs_guards [simp]:
  "rw_sync_abs md (w\<lparr>rguards := n\<rparr>) = rw_sync_abs md w" "rw_sync_abs md (w\<lparr>wguards := n\<rparr>) = rw_sync_abs md w"
  "rw_async_abs md E (w\<lparr>rguards := n\<rparr>) = rw_async_abs md E w" "rw_async_abs md E (w\<lparr>wguards := n\<rparr>) = rw_async_abs md E w"
  "rw_sync_abs md (w\<lparr>rwl := wguard_deref_mut v (rwl w)\<rparr>) = rw_sync_abs md w"
  "rw_async_abs md E (w\<lparr>rwl := wguard_deref_mut v (rwl w)\<rparr>) = rw_async_abs md E w"
  by (simp_all add: rw_sync_abs_def rw_async_abs_def wguard_deref_mut_def)

lemma rw_sync_abs_sim:
  "rstep E w w' \<Longrightarrow> rinv E w \<Longrightarrow> wl_step\<^sup>*\<^sup>* (rw_sync_abs md w) (rw_sync_abs md w')"
proof (induction rule: rstep.induct)
  case (rlock w t p)
  then show ?case by (auto simp: run_rw_def intro: rw_lock_sync_sim split: prod.splits)
next
  case (rdrop w t p)
  then show ?case by (auto simp: run_rw_drop_def intro: rw_drop_sync_sim split: prod.splits)
next
  case (rabandon w t p)
  have "rw_sync_role md t RIdle = rw_sync_role md t (ragents w t)" using rabandon.hyps by (cases p) simp_all
  then show ?case by (simp only: rw_sync_abs_set_id rtranclp.rtrancl_refl)
next
  case (rother_unpark w t)
  then show ?case by (auto simp: rw_sync_abs_def unpark_def intro: wl_of_idle)
next
  case (rother_park w t)
  have "\<not> sleeps_on (rw_sync_role md u (ragents w u)) t" for u
    using rw_sync_sleeper [OF rother_park.prems, of md u t] rother_park.hyps by auto
  then show ?case by (auto simp: rw_sync_abs_def intro: r_into_rtranclp wl_of_forget)
next
  case (rother_state w' w)
  have "rw_sync_abs md w' = rw_sync_abs md w"
    by (simp only: rw_sync_abs_def rother_state.hyps)
  then show ?case by simp
qed (simp_all add: rw_sync_abs_set_id, simp_all add: rw_sync_abs_def send_to_def)

section \<open>The lists of waiting tasks\<close>

lemma rw_async_sleeper_live:
  assumes "rinv E w" "sleeps_on (rw_async_role md (ragents w u)) r"
  shows "is_live E (conts w) r"
proof -
  have ok: "ragent_ok E u (conts w) (ragents w u)" using assms(1) by (simp add: rinv_def)
  have reg: "sleeps_on (reg_role q) r \<Longrightarrow> q = RStoreErr r" for q :: "cont_id reg_pc" by (cases q) auto
  have drain: "\<not> sleeps_on (drain_role q) r" for q :: "cont_id drain_pc" by (cases q) auto
  show ?thesis using assms(2) ok
    by (cases "(md, ragents w u)" rule: rw_async_role.cases)
      (auto simp: reg_async_ok_iff drain split: if_splits mode.splits dest!: reg)
qed

lemma rw_new_cont_sim:
  assumes "rinv E w" "continuation E (conts w) = (i, k)"
  shows "wl_step\<^sup>*\<^sup>* (rw_async_abs md E w) (wl_of (word_avail md (rw_word (rwl w))) (async_list md (rwl w))
    (is_ready E k) (\<lambda>t. rw_async_role md (ragents w t)))"
proof -
  from assms(1) have "cont_ok E" by (simp add: rinv_def)
  note new = cont_ok_new [OF this assms(2)]
  have "is_ready E k = (is_ready E (conts w))(i := False)"
    by (rule ext) (use new(2,4) in auto)
  moreover have "\<not> sleeps_on (rw_async_role md (ragents w u)) i" for u
    using rw_async_sleeper_live [OF assms(1)] new(1) by blast
  ultimately show ?thesis
    unfolding rw_async_abs_def by (auto intro: r_into_rtranclp wl_of_forget)
qed

lemma rw_async_idle:
  assumes "rw_async_role md c = rw_async_role md (ragents w t) \<or>
      rw_async_role md c = Elsewhere \<and> (\<exists>r. rw_async_role md (ragents w t) = Asleep r)"
    "ragents w' = ragents w"
    "async_list md (rwl w') = async_list md (rwl w)" "conts w' = conts w"
    "word_avail md (rw_word (rwl w')) \<longrightarrow> word_avail md (rw_word (rwl w))"
  shows "wl_step\<^sup>*\<^sup>* (rw_async_abs md E w) (rw_async_abs md E (set_ragent t c w'))"
proof -
  let ?r = "\<lambda>u. rw_async_role md (ragents w u)"
  let ?m = "\<lambda>x. wl_of (word_avail md x) (async_list md (rwl w)) (is_ready E (conts w))"
  have "wl_step\<^sup>*\<^sup>* (?m (rw_word (rwl w)) ?r) (?m (rw_word (rwl w)) (?r(t := rw_async_role md c)))"
    using assms(1) by (auto simp: fun_upd_idem intro: wl_of_quit)
  also have "wl_step\<^sup>*\<^sup>* (?m (rw_word (rwl w)) (?r(t := rw_async_role md c)))
      (?m (rw_word (rwl w')) (?r(t := rw_async_role md c)))"
    by (rule wl_of_idle) (use assms(5) in auto)
  finally show ?thesis
    unfolding rw_async_abs_set [OF assms(2)] unfolding rw_async_abs_def by (simp add: assms(3,4))
qed

lemma rw_async_reg_sim:
  assumes inv: "rinv E w" and st: "rw_async_reg E md' p w = (res, w')"
    and role: "rw_async_role md (ragents w t) = (if md' = md then reg_role p else Elsewhere)"
  shows "wl_step\<^sup>*\<^sup>* (rw_async_abs md E w)
    (wl_of (word_avail md (rw_word (rwl w'))) (async_list md (rwl w')) (is_ready E (conts w'))
      ((\<lambda>u. rw_async_role md (ragents w u))(t := if md' = md then reg_res_role res else Elsewhere)))"
proof -
  obtain i k where new: "continuation E (conts w) = (i, k)" by force
  obtain r x l where rs: "reg_step (attempt_of md') i p (rw_word (rwl w)) (async_list md' (rwl w)) = (r, x, l)"
    by (metis prod_cases3)
  from st new rs have w': "w' = w\<lparr>conts := (if p = RPush then k else conts w),
      rwl := set_async_list md' l ((rwl w)\<lparr>rw_word := x\<rparr>)\<rparr>" "res = r"
    by (simp_all add: rw_async_reg_def Let_def)
  let ?r = "\<lambda>u. rw_async_role md (ragents w u)"
  let ?k = "is_ready E (conts w')"
  have a: "wl_step\<^sup>*\<^sup>* (rw_async_abs md E w)
      (wl_of (word_avail md (rw_word (rwl w))) (async_list md (rwl w)) ?k ?r)"
    using rw_new_cont_sim [OF inv new] by (auto simp: w' rw_async_abs_def)
  show ?thesis
  proof (cases "md' = md")
    case True
    have "wl_step\<^sup>*\<^sup>* (wl_of (word_avail md (rw_word (rwl w))) (async_list md (rwl w)) ?k ?r)
        (wl_of (word_avail md x) l ?k (?r(t := reg_res_role r)))"
      by (rule reg_sim [OF rs [unfolded True], where av = "word_avail md" and r = ?r and t = t])
        (use role True attempt_avail in auto)
    with a show ?thesis by (simp add: w' True)
  next
    case False
    have "word_avail md x \<longrightarrow> word_avail md (rw_word (rwl w))"
      using rw_async_reg_effect [OF st] rw_effect_avail [of "rw_word (rwl w)" x] by (auto simp: w')
    then have "wl_step\<^sup>*\<^sup>* (wl_of (word_avail md (rw_word (rwl w))) (async_list md (rwl w)) ?k ?r)
        (wl_of (word_avail md x) (async_list md (rwl w)) ?k ?r)"
      by (intro wl_of_idle) auto
    with a False role show ?thesis by (auto simp: w' fun_upd_idem)
  qed
qed

lemma rw_lock_async_sim:
  assumes inv: "rinv E w" and p: "ragents w t = RLocking p" and st: "rw_step E t p w = (c, w')"
  shows "wl_step\<^sup>*\<^sup>* (rw_async_abs md E w) (rw_async_abs md E (set_ragent t (after_rw p c) w'))"
proof -
  note eff = rw_step_effect [OF st]
  then have ag: "ragents w' = ragents w" by (simp add: r_frame_def)
  have av: "word_avail md (rw_word (rwl w')) \<longrightarrow> word_avail md (rw_word (rwl w))"
    using eff rw_effect_avail by blast
  show ?thesis
  proof (cases p)
    case (RwTry md')
    with rw_try_frame [OF st] p av show ?thesis by (intro rw_async_idle ag) auto
  next
    case (RwSpin md')
    with rw_try_frame [OF st] p av show ?thesis by (intro rw_async_idle ag) auto
  next
    case (RwReg md' q)
    obtain res m where sr: "rw_sync_reg md' t q (rwl w) = (res, m)" by force
    show ?thesis
      using RwReg st sr p av rw_sync_reg_frame [OF sr]
      by (intro rw_async_idle ag) (cases res, auto simp: rw_step_reg)+
  next
    case (RwPark md')
    with st p av show ?thesis
      by (intro rw_async_idle ag) (auto simp: rw_step_reg park_def split: if_splits)
  next
    case (RwAReg md' q)
    obtain res w1 where ar: "rw_async_reg E md' q w = (res, w1)" by force
    have "w' = w1" "rw_async_role md (after_rw p c) = (if md' = md then reg_res_role res else Elsewhere)"
      using RwAReg st ar rw_async_reg_panic [of E md' q w w1]
      by (cases res; auto simp: rw_step_reg)+
    moreover have "rw_async_role md (ragents w t) = (if md' = md then reg_role q else Elsewhere)"
      using p RwAReg by simp
    ultimately show ?thesis
      using rw_async_reg_sim [OF inv ar, of md t] unfolding rw_async_abs_set [OF ag] by simp
  next
    case (RwAwait md' r)
    with st p av show ?thesis
      by (intro rw_async_idle ag; cases "is_ready E (conts w) r") (auto simp: rw_step_reg)
  qed
qed

lemma rw_drop_async_sim:
  assumes inv: "rinv E w" and p: "ragents w t = RDropping p" and st: "rw_drop_step E p w = (c, w')"
  shows "wl_step\<^sup>*\<^sup>* (rw_async_abs md E w) (rw_async_abs md E (set_ragent t (after_rw_drop c) w'))"
proof -
  have ag: "ragents w' = ragents w" using rw_drop_frame [OF st] by (simp add: r_frame_def)
  have ok: "rw_count_ok w" using inv by (simp add: rinv_def)
  have rd: "is_ready E (send E i k) = (is_ready E k)(i := True)" for i k
    using inv by (intro ext) (simp add: rinv_def cont_ok_send(1))
  note av = rw_drop_avail [OF ok p st]
  let ?r = "\<lambda>u. rw_async_role md (ragents w u)"
  show ?thesis
  proof (cases p)
    case RSub
    show ?thesis
    proof (cases md)
      case Rd
      with RSub av p rw_drop_lists [OF st] show ?thesis by (intro rw_async_idle ag) auto
    next
      case Wr
      with RSub av p rw_drop_lists [OF st] show ?thesis
        unfolding rw_async_abs_set [OF ag] unfolding rw_async_abs_def
        by (auto intro!: r_into_rtranclp wl_of_offer)
    qed
  next
    case WSwapOut
    with av p rw_drop_lists [OF st] show ?thesis
      unfolding rw_async_abs_set [OF ag] unfolding rw_async_abs_def
      by (cases md) (auto intro!: r_into_rtranclp wl_of_offer)
  next
    case (USyncR q)
    obtain res l where d: "drain_step q (waiting_sync_read_threads (rwl w)) = (res, l)" by force
    from p st USyncR d show ?thesis unfolding rw_async_abs_set [OF ag] unfolding rw_async_abs_def
      by (cases md; cases res) (auto simp: unpark_def intro!: wl_of_idle)
  next
    case (UAsyncR q)
    obtain res l where d: "drain_step q (waiting_async_read_threads (rwl w)) = (res, l)" by force
    from drain_sim [OF d, of ?r t "word_avail Rd (rw_word (rwl w))" "is_ready E (conts w)"] p st UAsyncR d
    show ?thesis unfolding rw_async_abs_set [OF ag] unfolding rw_async_abs_def
      by (cases md; cases res) (auto simp: send_to_def rd intro!: wl_of_idle)
  next
    case (USyncW q)
    obtain res l where d: "drain_step q (waiting_sync_write_threads (rwl w)) = (res, l)" by force
    from p st USyncW d show ?thesis unfolding rw_async_abs_set [OF ag] unfolding rw_async_abs_def
      by (cases md; cases res) (auto simp: unpark_def intro!: wl_of_idle)
  next
    case (UAsyncW q)
    obtain res l where d: "drain_step q (waiting_async_write_threads (rwl w)) = (res, l)" by force
    from drain_sim [OF d, of ?r t "word_avail Wr (rw_word (rwl w))" "is_ready E (conts w)"] p st UAsyncW d
    show ?thesis unfolding rw_async_abs_set [OF ag] unfolding rw_async_abs_def
      by (cases md; cases res) (auto simp: send_to_def rd intro!: wl_of_idle)
  qed
qed

lemma rw_async_abs_sim:
  "rstep E w w' \<Longrightarrow> rinv E w \<Longrightarrow> wl_step\<^sup>*\<^sup>* (rw_async_abs md E w) (rw_async_abs md E w')"
proof (induction rule: rstep.induct)
  case (rlock w t p)
  then show ?case by (auto simp: run_rw_def intro: rw_lock_async_sim split: prod.splits)
next
  case (rdrop w t p)
  then show ?case by (auto simp: run_rw_drop_def intro: rw_drop_async_sim split: prod.splits)
next
  case (rabandon w t p)
  then obtain md' r where p: "ragents w t = RLocking (RwAwait md' r)" by (cases p) auto
  show ?case by (rule rw_async_idle) (use p in \<open>auto split: if_splits\<close>)
next
  case (rother_cont w i k)
  from rw_new_cont_sim [OF rother_cont.prems rother_cont.hyps] show ?case
    by (simp add: rw_async_abs_def)
next
  case (rother_send w i)
  then have "cont_ok E" by (simp add: rinv_def)
  then show ?case
    by (auto simp: rw_async_abs_def send_to_def cont_ok_send(1) intro!: wl_of_idle)
next
  case (rother_state w' w)
  have "rw_async_abs md E w' = rw_async_abs md E w"
    by (simp only: rw_async_abs_def rother_state.hyps)
  then show ?case by simp
qed (simp_all add: rw_async_abs_set_id, simp_all add: rw_async_abs_def unpark_def)

section \<open>The reader-writer lock provides the wait-list interface\<close>

lemma rw_abs_init:
  "rinit E v w \<Longrightarrow> wl_init (rw_sync_abs md w)" "rinit E v w \<Longrightarrow> wl_init (rw_async_abs md E w)"
  by (cases md; simp add: rinit_def wl_init_def rw_sync_abs_def rw_async_abs_def rwlock_new_def spin_new_def)+

interpretation rw_inv: machine_invariant "rinit E v" "rstep E" "rinv E"
  for E :: "'k env" and v :: 'a
  by unfold_locales (auto intro: rinv_init rinv_step)

interpretation rw_sync: wait_list_client "rinit E v" "rstep E" "rinv E" "rw_sync_abs md"
  for E :: "'k env" and v :: 'a and md :: mode
  by unfold_locales (auto intro: rw_abs_init rw_sync_abs_sim)

interpretation rw_async: wait_list_client "rinit E v" "rstep E" "rinv E" "rw_async_abs md E"
  for E :: "'k env" and v :: 'a and md :: mode
  by unfold_locales (auto intro: rw_abs_init rw_async_abs_sim)

end
