(* ===== verification/RwProps.thy ===== *)
theory RwProps
  imports RwLists
begin

text \<open>
  The properties of the reader-writer lock, over every reachable state of
  \<^verbatim>\<open>RwMachine\<close> and for single calls, with an executable scheduler for the witnesses.
\<close>

section \<open>Concrete runs\<close>

datatype 'a revent = RCall tid rw_method | RRun tid | RWrite 'a | RFreeR tid | RFreeW tid
  | RAbandon tid

fun rexec :: "'k env \<Rightarrow> 'a revent \<Rightarrow> ('k, 'a, 'z) rworld_scheme \<Rightarrow> ('k, 'a, 'z) rworld_scheme" where
  "rexec E (RCall t c) w = (if r_at_rest (ragents w t) then set_ragent t (RLocking (rw_entry c)) w else w)"
| "rexec E (RRun t) w =
     (case ragents w t of
        RLocking p \<Rightarrow> run_rw E t p w
      | RDropping p \<Rightarrow> run_rw_drop E t p w
      | _ \<Rightarrow> w)"
| "rexec E (RWrite v) w = (if 0 < wguards w then w\<lparr>rwl := wguard_deref_mut v (rwl w)\<rparr> else w)"
| "rexec E (RFreeR t) w = (if r_at_rest (ragents w t) \<and> 0 < rguards w
     then set_ragent t (RDropping RSub) (w\<lparr>rguards := rguards w - 1\<rparr>) else w)"
| "rexec E (RFreeW t) w = (if r_at_rest (ragents w t) \<and> 0 < wguards w
     then set_ragent t (RDropping WSwapOut) (w\<lparr>wguards := wguards w - 1\<rparr>) else w)"
| "rexec E (RAbandon t) w =
     (case ragents w t of RLocking p \<Rightarrow> (if rw_suspends p then set_ragent t RIdle w else w) | _ \<Rightarrow> w)"

lemma rexec_sound: "rexec E e w = w \<or> rstep E w (rexec E e w)"
proof (cases e)
  case (RRun t)
  then show ?thesis by (cases "ragents w t") (auto intro: rstep.rlock rstep.rdrop)
next
  case (RAbandon t)
  then show ?thesis by (cases "ragents w t") (auto intro: rstep.rabandon)
next
  case (RCall t c)
  then show ?thesis by (auto intro: rstep.rcall)
next
  case (RWrite v)
  then show ?thesis by (auto intro: rstep.rwrite)
next
  case (RFreeR t)
  then show ?thesis using rstep.rfree_read [of w t E] by auto
next
  case (RFreeW t)
  then show ?thesis using rstep.rfree_write [of w t E] by auto
qed

definition rrun :: "'k env \<Rightarrow> 'a revent list \<Rightarrow> ('k, 'a, 'z) rworld_scheme \<Rightarrow> ('k, 'a, 'z) rworld_scheme" where
  "rrun E es w = fold (rexec E) es w"

lemma rrun_simps [simp]: "rrun E [] w = w" "rrun E (e # es) w = rrun E es (rexec E e w)"
  by (simp_all add: rrun_def)

lemma rrun_reach: "reach ini (rstep E) w \<Longrightarrow> reach ini (rstep E) (rrun E es w)"
proof (induction es arbitrary: w)
  case (Cons e es)
  from Cons.prems have "reach ini (rstep E) (rexec E e w)"
    using rexec_sound [of E e w] by (auto intro: reach_step)
  then show ?case by (simp add: Cons.IH)
qed simp

definition rworld0 :: "'a \<Rightarrow> (nat \<times> nat list, 'a) rworld" where
  "rworld0 v = \<lparr>now = 0, token = (\<lambda>_. False), conts = (0, []), timers = [],
     rwl = rwlock_new v, ragents = (\<lambda>_. RIdle), rguards = 0, wguards = 0\<rparr>"

lemma rworld0_init: "rinit (demo_env p) v (rworld0 v)"
  by (simp add: rinit_def rworld0_def demo_env_ok)

lemma rworld0_reach: "reach (rinit (demo_env p) v) (rstep (demo_env p)) (rrun (demo_env p) es (rworld0 v))"
  by (intro rrun_reach reach_init rworld0_init)

lemmas rrun_defs = rworld0_def rwlock_new_def spin_new_def demo_env_def run_rw_def run_rw_drop_def
  set_ragent_def add_guard_def rw_sync_reg_def rw_async_reg_def read_attempt_eq write_attempt_eq
  spin_swap_def spin_store_def vec_push_def mem_take_def unpark_def send_to_def park_def
  rw_try_step_def lock_spin_read_step_def lock_spin_write_step_def try_lock_read_def try_lock_write_def
  wguard_deref_mut_def read_drop_step_def write_drop_step_def UNLOCKED_def LOCKED_WRITE_val

section \<open>Many readers or one writer\<close>

text \<open>C18: the lock word counts exactly. In every reachable state its value is the number of
  readers' shares (guards alive, acquisitions about to return, drops about to start) plus 128
  for a writer's share; there are at most 127 readers and at most one writer, and never a
  reader and a writer together.\<close>

theorem rwlock_exclusion:
  assumes "reach (rinit E v) (rstep E) w"
  shows "unat (rw_word (rwl w)) = shares Rd w + 128 * shares Wr w \<and> shares Rd w \<le> 127 \<and>
    shares Wr w \<le> 1 \<and> (rguards w = 0 \<or> wguards w = 0)"
proof -
  have ok: "rw_count_ok w" by (rule rw_count.reach_inv [OF assms])
  have "rguards w \<le> shares Rd w" "wguards w \<le> shares Wr w" by (simp_all add: shares_def)
  with ok show ?thesis unfolding rw_count_ok_def by auto
qed

theorem rwlock_exclusion_witness:
  "\<exists>w :: (nat \<times> nat list, nat) rworld. reach (rinit (demo_env True) 7) (rstep (demo_env True)) w \<and>
     rguards w = 2 \<and> wguards w = 0 \<and> ragents w 2 = RLocking (RwPark Wr) \<and> shares Wr w = 0"
proof -
  define es :: "nat revent list" where "es = [RCall 1 (LockSpinRw Rd), RRun 1,
    RCall 1 (LockBlockRw Rd), RRun 1, RRun 1, RRun 1, RCall 2 (LockBlockRw Wr), RRun 2, RRun 2, RRun 2, RRun 2]"
  define w where "w = rrun (demo_env True) es (rworld0 (7 :: nat))"
  have r: "reach (rinit (demo_env True) 7) (rstep (demo_env True)) w"
    unfolding w_def by (rule rworld0_reach)
  have a: "rguards w = 2" "wguards w = 0" "ragents w 2 = RLocking (RwPark Wr)" "rw_word (rwl w) = 2"
    by (simp_all add: w_def es_def rrun_defs)
  have "shares Wr w = 0" using rwlock_exclusion [OF r] by (simp add: a)
  with r a show ?thesis by blast
qed

text \<open>C19: the data only changes while exactly one writer's guard is alive and no reader has a
  share in the lock.\<close>

theorem rwlock_data_race_free:
  assumes "reach (rinit E v) (rstep E) w" "rstep E w w'" "rw_inner (rwl w') \<noteq> rw_inner (rwl w)"
  shows "wguards w = 1 \<and> shares Rd w = 0 \<and> (\<forall>t. \<not> share Wr (ragents w t))"
proof -
  from assms(2,3) have "0 < wguards w"
  proof (induction rule: rstep.induct)
    case (rlock w t p)
    then show ?case by (auto simp: run_rw_def r_frame_def split: prod.splits dest!: rw_step_effect)
  next
    case (rdrop w t p)
    then show ?case by (auto simp: run_rw_drop_def r_frame_def split: prod.splits dest!: rw_drop_frame)
  qed auto
  have ok: "rw_count_ok w" by (rule rw_count.reach_inv [OF assms(1)])
  have "shares Wr w \<le> 1" using ok by (simp add: rw_count_ok_def)
  then have c: "wguards w + card {t. share Wr (ragents w t)} \<le> 1" by (simp add: shares_def)
  with \<open>0 < wguards w\<close> have "wguards w = 1" "card {t. share Wr (ragents w t)} = 0" by simp_all
  moreover from this have "shares Wr w = 1" by (simp add: shares_def)
  moreover from this ok have "shares Rd w = 0" "finite {t. share Wr (ragents w t)}"
    by (simp_all add: rw_count_ok_def)
  ultimately show ?thesis by simp
qed

theorem rwlock_data_race_free_witness:
  "\<exists>w w' :: (nat \<times> nat list, nat) rworld. reach (rinit (demo_env True) 7) (rstep (demo_env True)) w \<and>
     rstep (demo_env True) w w' \<and> rw_inner (rwl w') = 8 \<and> shares Rd w = 0"
proof -
  define es :: "nat revent list" where "es = [RCall 1 (LockAsyncRw Wr), RRun 1, RRun 1, RRun 1]"
  define w where "w = rrun (demo_env True) es (rworld0 (7 :: nat))"
  define w' where "w' = w\<lparr>rwl := wguard_deref_mut 8 (rwl w)\<rparr>"
  have r: "reach (rinit (demo_env True) 7) (rstep (demo_env True)) w"
    unfolding w_def by (rule rworld0_reach)
  have a: "wguards w = 1" "rw_inner (rwl w) = 7"
    by (simp_all add: w_def es_def rrun_defs)
  have s: "rstep (demo_env True) w w'" unfolding w'_def by (rule rstep.rwrite) (simp add: a)
  have i: "rw_inner (rwl w') = 8" by (simp add: w'_def wguard_deref_mut_def)
  from rwlock_data_race_free [OF r s] a i have "shares Rd w = 0" by simp
  with r s i show ?thesis by blast
qed

text \<open>C20: the assertions in the drops of the two guards never fail: a reader's
  \<^verbatim>\<open>fetch_sub\<close> never wraps and a writer's swap always finds \<^verbatim>\<open>LOCKED_WRITE\<close>.\<close>

theorem rw_drop_never_panics:
  assumes "reach (rinit E v) (rstep E) w" "ragents w t = RDropping p"
  shows "fst (rw_drop_step E p w) \<noteq> Panic \<and> (p = RSub \<longrightarrow> 0 < rw_word (rwl w)) \<and>
    (p = WSwapOut \<longrightarrow> rw_word (rwl w) = LOCKED_WRITE)"
proof -
  obtain c w1 where st: "rw_drop_step E p w = (c, w1)" by force
  have ok: "rw_count_ok w" by (rule rw_count.reach_inv [OF assms(1)])
  from rw_count_rdrop [OF ok assms(2) st] have np: "c \<noteq> Panic" by simp
  with st show ?thesis
    by (auto simp: read_drop_step_def write_drop_step_def Let_def split: if_splits)
qed

theorem rw_drop_never_panics_witness:
  "\<exists>w :: (nat \<times> nat list, nat) rworld. reach (rinit (demo_env True) 7) (rstep (demo_env True)) w \<and>
     ragents w 1 = RDropping RSub \<and> 0 < rw_word (rwl w)"
proof -
  define es :: "nat revent list" where "es = [RCall 1 (TryLockRw Rd), RRun 1, RFreeR 1]"
  define w where "w = rrun (demo_env True) es (rworld0 (7 :: nat))"
  have r: "reach (rinit (demo_env True) 7) (rstep (demo_env True)) w"
    unfolding w_def by (rule rworld0_reach)
  have a: "ragents w 1 = RDropping RSub" by (simp add: w_def es_def rrun_defs)
  from rw_drop_never_panics [OF r a] a r show ?thesis by blast
qed

section \<open>No lost wakeups\<close>











section \<open>Deadlock freedom\<close>

















section \<open>Too many readers\<close>

lemma rw_crashed_stays:
  "rstep E w w' \<Longrightarrow> ragents w t = RCrashed p \<Longrightarrow> ragents w' t = RCrashed p"
proof (induction rule: rstep.induct)
  case (rlock w u q)
  then show ?case by (auto simp: run_rw_def r_frame_def split: prod.splits dest!: rw_step_effect)
next
  case (rdrop w u q)
  then show ?case by (auto simp: run_rw_drop_def r_frame_def split: prod.splits dest!: rw_drop_frame)
qed auto

lemma rw_crashed_stays_steps:
  "(rstep E)\<^sup>*\<^sup>* w w' \<Longrightarrow> ragents w t = RCrashed p \<Longrightarrow> ragents w' t = RCrashed p"
  by (induction rule: rtranclp_induct) (auto intro: rw_crashed_stays)

text \<open>C24: the 128th reader does not fail cleanly. \<^verbatim>\<open>try_lock_read\<close> panics at 127
  readers; inside \<^verbatim>\<open>lock_block_read\<close> it does so in the closure of
  \<^verbatim>\<open>with_mut\<close> on the readers' wait list, whose spinlock then is never released: from
  then on, in every later state, the spinlock is taken and no other agent is inside, so
  every later blocking reader spins for ever and so does every writer's drop.\<close>

theorem too_many_readers_poison:
  assumes "reach (rinit E v) (rstep E) w" and "ragents w t = RCrashed (RwReg Rd RTry)"
    and "(rstep E)\<^sup>*\<^sup>* w w'"
  shows "sl_locked (waiting_sync_read_threads (rwl w')) \<and>
    (\<forall>u p. u \<noteq> t \<longrightarrow> ragents w' u = RLocking (RwReg Rd p) \<longrightarrow> p = RSwap) \<and>
    (\<forall>u p. ragents w' u = RDropping (USyncR p) \<longrightarrow> p = TSwap \<or> (\<exists>hs. p = TWake hs))"
proof -
  have r: "reach (rinit E v) (rstep E) w'" using assms(1,3) by (rule reach_rtranclp)
  have t: "ragents w' t = RCrashed (RwReg Rd RTry)"
    using rw_crashed_stays_steps [OF assms(3,2)] .
  have ex: "exclusive owns_list (sl_locked (waiting_sync_read_threads (rwl w')))
      (\<lambda>u. rw_sync_role Rd u (ragents w' u))"
    using rw_sync.list_ok [OF r, of Rd] by (simp add: wl_ok_def wl_excl_def rw_sync_abs_def)
  have own: "owns_list (rw_sync_role Rd t (ragents w' t))" by (simp add: t)
  note o = exclusive_owner [OF ex, of t, OF own]
  have "p = RSwap" if "u \<noteq> t" "ragents w' u = RLocking (RwReg Rd p)" for u p
  proof -
    have "\<not> owns_list (rw_sync_role Rd u (ragents w' u))" using o that(1) by blast
    then show ?thesis using that(2) by (cases p) auto
  qed
  moreover have "p = TSwap \<or> (\<exists>hs. p = TWake hs)" if "ragents w' u = RDropping (USyncR p)" for u p
  proof -
    have "u \<noteq> t" using that t by auto
    then have "\<not> owns_list (rw_sync_role Rd u (ragents w' u))" using o by blast
    then show ?thesis using that by (cases p) auto
  qed
  ultimately show ?thesis using o by blast
qed

text \<open>Reaching the panic: one agent takes 127 read guards, then another one blocks for reading.\<close>

lemma read_again:
  assumes "ragents w 1 = RIdle" "unat (rw_word (rwl w)) = n" "n < 127"
  shows "ragents (rrun E [RCall 1 (TryLockRw Rd), RRun 1] w) = ragents w"
    and "unat (rw_word (rwl (rrun E [RCall 1 (TryLockRw Rd), RRun 1] w))) = Suc n"
    and "waiting_sync_read_threads (rwl (rrun E [RCall 1 (TryLockRw Rd), RRun 1] w)) = waiting_sync_read_threads (rwl w)"
  using assms unat_add_one [of "rw_word (rwl w)"]
  by (auto simp: run_rw_def rw_try_step_def try_lock_read_def read_attempt_eq)

lemma many_reads:
  assumes "w = rworld0 v" "n \<le> 127"
  shows "\<exists>es. ragents (rrun E es w) = (\<lambda>_. RIdle) \<and> unat (rw_word (rwl (rrun E es w))) = n \<and>
    waiting_sync_read_threads (rwl (rrun E es w)) = spin_new []"
  using assms(2)
proof (induction n)
  case 0
  then show ?case
    by (intro exI [of _ "[]"]) (simp add: assms(1) rworld0_def rwlock_new_def UNLOCKED_def)
next
  case (Suc n)
  then obtain es where es: "ragents (rrun E es w) = (\<lambda>_. RIdle)"
    "unat (rw_word (rwl (rrun E es w))) = n" "waiting_sync_read_threads (rwl (rrun E es w)) = spin_new []"
    by auto
  have app: "rrun E (es @ [RCall 1 (TryLockRw Rd), RRun 1]) w = rrun E [RCall 1 (TryLockRw Rd), RRun 1] (rrun E es w)"
    by (simp add: rrun_def)
  have "n < 127" using Suc.prems by simp
  then have "ragents (rrun E (es @ [RCall 1 (TryLockRw Rd), RRun 1]) w) = (\<lambda>_. RIdle)"
    "unat (rw_word (rwl (rrun E (es @ [RCall 1 (TryLockRw Rd), RRun 1]) w))) = Suc n"
    "waiting_sync_read_threads (rwl (rrun E (es @ [RCall 1 (TryLockRw Rd), RRun 1]) w)) = spin_new []"
    unfolding app using read_again [of "rrun E es w" n E] es by simp_all
  then show ?case by blast
qed

theorem too_many_readers_poison_witness:
  "\<exists>w :: (nat \<times> nat list, nat) rworld. reach (rinit (demo_env True) 7) (rstep (demo_env True)) w \<and>
     ragents w 2 = RCrashed (RwReg Rd RTry) \<and>
     (\<forall>w'. (rstep (demo_env True))\<^sup>*\<^sup>* w w' \<longrightarrow> sl_locked (waiting_sync_read_threads (rwl w')))"
proof -
  let ?E = "demo_env True"
  obtain es where es: "ragents (rrun ?E es (rworld0 (7 :: nat))) = (\<lambda>_. RIdle)"
    "unat (rw_word (rwl (rrun ?E es (rworld0 (7 :: nat))))) = 127"
    "waiting_sync_read_threads (rwl (rrun ?E es (rworld0 (7 :: nat)))) = spin_new []"
    using many_reads [of _ 7 127 ?E, OF refl] by auto
  define x where "x = rrun ?E es (rworld0 (7 :: nat))"
  note x = es [folded x_def]
  define w where "w = rrun ?E [RCall 2 (LockBlockRw Rd), RRun 2, RRun 2] x"
  have r: "reach (rinit ?E 7) (rstep ?E) w"
    unfolding w_def x_def by (intro rrun_reach rworld0_reach)
  have c: "ragents w 2 = RCrashed (RwReg Rd RTry)"
    using x by (simp add: w_def run_rw_def rw_sync_reg_def spin_new_def spin_swap_def read_attempt_eq)
  have "sl_locked (waiting_sync_read_threads (rwl w'))" if "(rstep ?E)\<^sup>*\<^sup>* w w'" for w'
    using too_many_readers_poison [OF r c that] by blast
  with r c show ?thesis by blast
qed

section \<open>Refinement of an abstract reader-writer lock\<close>

record 'a abstract_rw =
  arw_value :: 'a
  arw_readers :: nat
  arw_writers :: nat



definition rw_abs :: "('k, 'a, 'z) rworld_scheme \<Rightarrow> 'a abstract_rw" where
  "rw_abs w = \<lparr>arw_value = rw_inner (rwl w), arw_readers = shares Rd w, arw_writers = shares Wr w\<rparr>"

text \<open>The word determines the shares, so a step's effect on the word decides the abstract
  step.\<close>

lemma count_of_word:
  "rw_count_ok w \<Longrightarrow> shares Rd w = unat (rw_word (rwl w)) mod 128 \<and> shares Wr w = unat (rw_word (rwl w)) div 128"
  by (auto simp: rw_count_ok_def)

lemma rw_abs_same:
  assumes "rw_count_ok w" "rw_count_ok w'" "rw_word (rwl w') = rw_word (rwl w)"
    "rw_inner (rwl w') = rw_inner (rwl w)"
  shows "rw_abs w' = rw_abs w"
  using count_of_word [OF assms(1)] count_of_word [OF assms(2)] assms(3,4) by (simp add: rw_abs_def)








section \<open>Single calls\<close>

text \<open>C26: an acquisition that meets free list spinlocks and a lock available to it returns its
  guard within three of its own steps: a reader also beside up to 126 other readers, a writer
  only on a free lock. All that changes is the word.\<close>

theorem rw_uncontended:
  assumes "\<not> sl_locked (sync_list md (rwl w))" "\<not> sl_locked (async_list md (rwl w))"
    and "attempt_of md (rw_word (rwl w)) = Got x"
    and "c \<in> {TryLockRw md, LockSpinRw md, LockBlockRw md, LockAsyncRw md}"
  shows "\<exists>w'. run_alone (rw_step E t) 3 (rw_entry c) w = (Return (RwAcquired md), w') \<and>
    rwl w' = (rwl w)\<lparr>rw_word := x\<rparr>"
  using assms
  by (cases md) (auto simp: eval_nat_numeral rw_try_step_def lock_spin_read_step_def
    lock_spin_write_step_def try_lock_read_def try_lock_write_def rw_sync_reg_def rw_async_reg_def
    spin_swap_def spin_store_def Let_def split: prod.splits)

theorem rw_uncontended_witness:
  "\<exists>w'. run_alone (rw_step (demo_env True) 3) 3 (rw_entry (LockAsyncRw Rd))
       ((rworld0 (5 :: nat))\<lparr>rwl := (rwlock_new 5)\<lparr>rw_word := 126\<rparr>\<rparr>) = (Return (RwAcquired Rd), w') \<and>
     rwl w' = (rwlock_new 5)\<lparr>rw_word := 127\<rparr>"
  using rw_uncontended [of Rd "(rworld0 (5 :: nat))\<lparr>rwl := (rwlock_new 5)\<lparr>rw_word := 126\<rparr>\<rparr>" 127 "LockAsyncRw Rd" "demo_env True" 3]
  by (simp add: rwlock_new_def spin_new_def read_attempt_eq)

text \<open>The tail of every drop: the two writers' lists.\<close>

lemma rw_wake_sync_w:
  "run_alone (rw_drop_step E) (length hs + Suc n) (USyncW (TWake hs)) w =
   run_alone (rw_drop_step E) n (UAsyncW TSwap) (w\<lparr>token := (\<lambda>t. t \<in> set hs \<or> token w t)\<rparr>)"
proof (induction hs arbitrary: w)
  case (Cons h hs)
  have "(\<lambda>t. t \<in> set hs \<or> token (unpark h w) t) = (\<lambda>t. t \<in> set (h # hs) \<or> token w t)"
    by (auto simp: unpark_def)
  then show ?case using Cons [of "unpark h w"] by (simp add: unpark_def)
qed simp

lemma rw_wake_async_w:
  "run_alone (rw_drop_step E) (length rs + Suc n) (UAsyncW (TWake rs)) w =
   (Return (), w\<lparr>conts := fold (send E) rs (conts w)\<rparr>)"
proof (induction rs arbitrary: w)
  case (Cons r rs)
  then show ?case using Cons [of "send_to E r w"] by (simp add: send_to_def)
qed simp

lemma rw_take_sync_w:
  "\<not> sl_locked (waiting_sync_write_threads (rwl w)) \<Longrightarrow>
   run_alone (rw_drop_step E) (Suc (Suc (Suc n))) (USyncW TSwap) w =
   run_alone (rw_drop_step E) n (USyncW (TWake (sl_data (waiting_sync_write_threads (rwl w)))))
     (w\<lparr>rwl := (rwl w)\<lparr>waiting_sync_write_threads := spin_new []\<rparr>\<rparr>)"
  by (cases "waiting_sync_write_threads (rwl w)")
    (simp add: spin_swap_def mem_take_def spin_store_def spin_new_def)

lemma rw_take_async_w:
  "\<not> sl_locked (waiting_async_write_threads (rwl w)) \<Longrightarrow>
   run_alone (rw_drop_step E) (Suc (Suc (Suc n))) (UAsyncW TSwap) w =
   run_alone (rw_drop_step E) n (UAsyncW (TWake (sl_data (waiting_async_write_threads (rwl w)))))
     (w\<lparr>rwl := (rwl w)\<lparr>waiting_async_write_threads := spin_new []\<rparr>\<rparr>)"
  by (cases "waiting_async_write_threads (rwl w)")
    (simp add: spin_swap_def mem_take_def spin_store_def spin_new_def)

text \<open>C27: a reader's drop that runs alone gives back its share and wakes every waiting
  writer, blocked or async, and no reader; it does so at every drop, also while other readers
  remain.\<close>

theorem read_drop_wakes_writers:
  assumes "0 < rw_word (rwl w)" "\<not> sl_locked (waiting_sync_write_threads (rwl w))"
    "\<not> sl_locked (waiting_async_write_threads (rwl w))"
    and "n = length (sl_data (waiting_sync_write_threads (rwl w))) +
             length (sl_data (waiting_async_write_threads (rwl w))) + 9"
  shows "run_alone (rw_drop_step E) n RSub w =
    (Return (), w\<lparr>token := (\<lambda>t. t \<in> set (sl_data (waiting_sync_write_threads (rwl w))) \<or> token w t),
       conts := fold (send E) (sl_data (waiting_async_write_threads (rwl w))) (conts w),
       rwl := (rwl w)\<lparr>rw_word := rw_word (rwl w) - 1, waiting_sync_write_threads := spin_new [],
         waiting_async_write_threads := spin_new []\<rparr>\<rparr>)"
proof -
  let ?ts = "sl_data (waiting_sync_write_threads (rwl w))" and ?rs = "sl_data (waiting_async_write_threads (rwl w))"
  let ?w1 = "w\<lparr>rwl := (rwl w)\<lparr>rw_word := rw_word (rwl w) - 1\<rparr>\<rparr>"
  have n: "n = Suc (Suc (Suc (Suc (length ?ts + Suc (Suc (Suc (Suc (length ?rs + Suc 0))))))))"
    using assms(4) by simp
  have "run_alone (rw_drop_step E) n RSub w =
      run_alone (rw_drop_step E) (Suc (Suc (Suc (length ?ts + Suc (Suc (Suc (Suc (length ?rs + Suc 0))))))))
        (USyncW TSwap) ?w1"
    unfolding n by (subst run_alone.simps(2)) (simp add: read_drop_step_def assms(1) Let_def del: run_alone.simps add_Suc_right)
  then show ?thesis
    by (simp add: rw_take_sync_w rw_wake_sync_w rw_take_async_w rw_wake_async_w assms(2,3)
        del: run_alone.simps add_Suc_right)
qed

theorem read_drop_wakes_writers_witness:
  "run_alone (rw_drop_step (demo_env True)) 12 RSub
     ((rworld0 (5 :: nat))\<lparr>rwl := (rwlock_new 5)\<lparr>rw_word := 2,
        waiting_sync_write_threads := spin_new [4, 9], waiting_async_write_threads := spin_new [0],
        waiting_sync_read_threads := spin_new [6]\<rparr>\<rparr>) =
   (Return (), (rworld0 5)\<lparr>token := (\<lambda>t. t = 4 \<or> t = 9), conts := (0, [0]),
      rwl := (rwlock_new 5)\<lparr>rw_word := 1, waiting_sync_read_threads := spin_new [6]\<rparr>\<rparr>)"
  by (subst read_drop_wakes_writers) (auto simp: spin_new_def rworld0_def rwlock_new_def demo_env_def)

text \<open>C28: the four \<^verbatim>\<open>with_*\<close> methods on a free lock: the closure runs once on the data,
  a reading closure changes nothing, a writing one leaves its update, the result is the
  closure's, and the lock is free again also when the closure panics.\<close>

theorem rw_with_releases:
  assumes "rwl w = rwlock_new x" and "f x = (ro, y)"
    and "pc = rw_with_sync g \<or> pc = rw_with_async \<Longrightarrow> z = x"
    and "pc = rw_with_mut_sync g \<or> pc = rw_with_mut_async \<Longrightarrow> z = y"
    and "pc \<in> {rw_with_sync g, rw_with_async, rw_with_mut_sync g, rw_with_mut_async}"
  shows "\<exists>w'. run_alone (rw_with_step E t f) 21 pc w =
      (case ro of Some r \<Rightarrow> Return r | None \<Rightarrow> Panic, w') \<and> rwl w' = rwlock_new z"
proof -
  have m: "lock_sync_read g \<in> {LockBlockRw Rd, LockSpinRw Rd}" "lock_sync_write g \<in> {LockBlockRw Wr, LockSpinRw Wr}"
    by (auto simp: lock_sync_read_def lock_sync_write_def split: strategy.splits)
  have rd: "pc \<in> {RwWithLock (RwReg Rd RSwap), RwWithLock (RwSpin Rd), RwWithLock (RwAReg Rd RSwap)} \<and> z = x \<or>
      pc \<in> {RwWithLock (RwReg Wr RSwap), RwWithLock (RwSpin Wr), RwWithLock (RwAReg Wr RSwap)} \<and> z = y"
    using assms(3-5) m
    by (auto simp: rw_with_sync_def rw_with_async_def rw_with_mut_sync_def rw_with_mut_async_def)
  have att: "read_attempt 0 = Got 1" "write_attempt 0 = Got LOCKED_WRITE"
    by (simp_all add: read_attempt_eq write_attempt_eq)
  have lw: "(0 :: 8 word) < 1" "LOCKED_WRITE \<noteq> 0" by (simp_all add: LOCKED_WRITE_val)
  obtain i k where new: "continuation E (conts w) = (i, k)" by force
  from rd show ?thesis using assms(1,2) att lw new
    by (cases ro) (elim disjE; auto simp: eval_nat_numeral rw_sync_reg_def rw_async_reg_def Let_def spin_swap_def
      spin_store_def lock_spin_read_step_def lock_spin_write_step_def try_lock_read_def try_lock_write_def
      read_drop_step_def write_drop_step_def rguard_deref_def wguard_deref_def
      wguard_deref_mut_def mem_take_def rwlock_new_def spin_new_def UNLOCKED_def)+
qed

theorem rw_with_releases_witness:
  "\<exists>w'. run_alone (rw_with_step (demo_env True) 1 (\<lambda>n :: nat. (None :: nat option, Suc n))) 21 (rw_with_mut_sync Native)
     (rworld0 (7 :: nat)) = (Panic, w') \<and> rwl w' = rwlock_new 8"
  using rw_with_releases [of "rworld0 7" 7 "\<lambda>n :: nat. (None :: nat option, Suc n)" None 8
      "rw_with_mut_sync Native" Native 8 "demo_env True" 1]
  by (simp add: rworld0_def rw_with_sync_def rw_with_async_def rw_with_mut_sync_def lock_sync_read_def
      lock_sync_write_def sync_strategy_def)

end
