(* ===== verification/Condvar.thy ===== *)
theory Condvar
  imports MutexMachine "HOL-Library.Word"
begin

text \<open>
  \<^verbatim>\<open>src/condvar.rs\<close> and \<^verbatim>\<open>src/condvar/*.rs\<close>: the data of \<^verbatim>\<open>Condvar\<close>, every
  wait as a program of atomic steps on top of the mutex of \<^verbatim>\<open>Mutex\<close>, the loops
  \<^verbatim>\<open>wait_*_while\<close>, and the two notifications. A call of \<^verbatim>\<open>Spinlock::with_mut\<close> on
  one of the three wait lists is one step (\<open>with_mut_atomic\<close>).
\<close>

section \<open>Data\<close>

text \<open>An \<^verbatim>\<open>Arc<AtomicBool>\<close> is the number of its allocation.\<close>

type_synonym flag = nat

record async_waiter =
  waiter_id :: "64 word"
  waiter_sender :: cont_id

record condvar =
  cv_waiting_sync_threads :: "tid list spinlock"
  cv_waiting_async_threads :: "async_waiter list spinlock"
  cv_waiting_spin_threads :: "flag list spinlock"

definition condvar_new :: condvar where
  "condvar_new = \<lparr>cv_waiting_sync_threads = spin_new [], cv_waiting_async_threads = spin_new [],
     cv_waiting_spin_threads = spin_new []\<rparr>"

definition condvar_default :: condvar where
  "condvar_default = condvar_new"

datatype wait_timeout_result = WaitTimeoutResult bool

fun timed_out :: "wait_timeout_result \<Rightarrow> bool" where
  "timed_out (WaitTimeoutResult b) = b"

section \<open>Program counters\<close>

text \<open>The methods that wait, with their deadline.\<close>

datatype wait_op =
    WaitBlock | WaitBlockTimeout instant
  | WaitSpin | WaitSpinTimeout instant
  | WaitAsync | WaitAsyncTimeout instant

text \<open>
  The program counters of the waits with the locals that live across a step: the wake flag
  \<open>f\<close>, the waiter id \<open>i\<close>, the notification receiver \<open>r\<close> and the timeout receiver \<open>q\<close>.
  The \<open>Release\<close> counters stand at \<^verbatim>\<open>drop(guard)\<close>; at \<open>Relock\<close> and \<open>SRelock\<close> the
  mutex is being locked again and the result is decided; at \<open>Unwinding\<close> a panic drops the
  guard. A method without a deadline returns just the guard, so its result is \<open>None\<close>.
\<close>

datatype wait_pc =
    BPush | BRelease | BPark | BNow | BRemove | BCall nat | BParkT instant | BCheck
  | SPush | SRelease flag | SLoad flag | SNow flag | SRemove flag | SLast flag
  | SRelock flag "wait_timeout_result option"
  | APush | ARelease cont_id | AAwait cont_id
  | AId | ACont "64 word" | APushT "64 word" cont_id | ASpawn "64 word" cont_id
  | AReleaseT "64 word" cont_id cont_id | ANotify "64 word" cont_id cont_id
  | ATimeout "64 word" cont_id cont_id | ARemove "64 word"
  | Relock lock_method "wait_timeout_result option"
  | Unwinding

datatype notify_pc =
    OneSpin | OneStore flag | OneSync | OneUnpark tid | OneAsync | OneSend async_waiter
  | AllSpin | AllStore "flag list" | AllSync | AllUnpark "tid list" | AllAsync
  | AllSend "async_waiter list"

text \<open>The loops: before the call of the condition, or inside the wait.\<close>

datatype loop_pc = LTest | LWait wait_pc

text \<open>
  What an agent is doing with the condition variable. \<open>Done\<close> is the value of a wait that has
  just returned (with the condition of the loop, for a \<^verbatim>\<open>_while\<close> method); \<open>Failed\<close> is
  a call that has panicked.
\<close>

datatype 'a ccall =
    NoCall
  | Waiting wait_op wait_pc
  | Looping wait_op "('a, bool) closure" loop_pc
  | Notifying notify_pc
  | Done wait_op "('a, bool) closure option" "wait_timeout_result option"
  | Failed

text \<open>
  The state: the mutex and its platform, the condition variable, the wake flags that have been
  allocated, the counter \<^verbatim>\<open>ASYNC_WAITER_ID_COUNTER\<close>, and the calls.
\<close>

record ('k, 'a) cworld = "('k, 'a) mworld" +
  cv :: condvar
  wake_flags :: "flag \<Rightarrow> bool"
  next_flag :: flag
  waiter_ids :: "64 word"
  ccalls :: "tid \<Rightarrow> 'a ccall"

section \<open>Closures on the wait lists\<close>

text \<open>\<^verbatim>\<open>push\<close>, \<^verbatim>\<open>pop\<close>, \<^verbatim>\<open>std::mem::take\<close>, and the search of a timed wait for its own
  entry, which it removes; the result is \<^verbatim>\<open>notified\<close>, that is, the entry was not there.\<close>

definition push_handle :: "'h \<Rightarrow> 'h list \<Rightarrow> unit \<times> 'h list" where
  [step_defs]: "push_handle h hs = ((), vec_push hs h)"

definition remove_handle :: "('h \<Rightarrow> bool) \<Rightarrow> 'h list \<Rightarrow> 'h option \<times> 'h list" where
  [step_defs]: "remove_handle P hs =
     (case vec_position P hs of
        Some pos \<Rightarrow> (Some (hs ! pos), vec_remove hs pos)
      | None \<Rightarrow> (None, hs))"

definition on_sync :: "(tid list \<Rightarrow> 'r \<times> tid list) \<Rightarrow> ('k, 'a, 'z) cworld_scheme \<Rightarrow>
    'r \<times> ('k, 'a, 'z) cworld_scheme" where
  [step_defs]: "on_sync f w =
     (case with_mut_atomic f (cv_waiting_sync_threads (cv w)) of
        (r, l) \<Rightarrow> (r, w\<lparr>cv := (cv w)\<lparr>cv_waiting_sync_threads := l\<rparr>\<rparr>))"

definition on_async :: "(async_waiter list \<Rightarrow> 'r \<times> async_waiter list) \<Rightarrow> ('k, 'a, 'z) cworld_scheme \<Rightarrow>
    'r \<times> ('k, 'a, 'z) cworld_scheme" where
  [step_defs]: "on_async f w =
     (case with_mut_atomic f (cv_waiting_async_threads (cv w)) of
        (r, l) \<Rightarrow> (r, w\<lparr>cv := (cv w)\<lparr>cv_waiting_async_threads := l\<rparr>\<rparr>))"

definition on_spin :: "(flag list \<Rightarrow> 'r \<times> flag list) \<Rightarrow> ('k, 'a, 'z) cworld_scheme \<Rightarrow>
    'r \<times> ('k, 'a, 'z) cworld_scheme" where
  [step_defs]: "on_spin f w =
     (case with_mut_atomic f (cv_waiting_spin_threads (cv w)) of
        (r, l) \<Rightarrow> (r, w\<lparr>cv := (cv w)\<lparr>cv_waiting_spin_threads := l\<rparr>\<rparr>))"

section \<open>Releasing and locking the mutex\<close>

text \<open>
  The agent's own state in the mutex moves through the drop of the guard and through
  \<^verbatim>\<open>lock_sync\<close> or \<^verbatim>\<open>lock_async\<close>, one atomic step of these at a time.
\<close>

definition release_step :: "'k env \<Rightarrow> tid \<Rightarrow> ('k, 'a, 'z) mworld_scheme \<Rightarrow> ('k, 'a, 'z) mworld_scheme" where
  "release_step E t w =
     (case agents w t of
        Holding \<Rightarrow> set_agent t (Dropping DStore) w
      | Dropping p \<Rightarrow> run_drop E t p w
      | _ \<Rightarrow> w)"

definition drop_guard :: "'k env \<Rightarrow> tid \<Rightarrow> 'p \<Rightarrow> ('p, 'r) ctl \<Rightarrow> ('k, 'a, 'z) mworld_scheme \<Rightarrow>
    ('p, 'r) ctl \<times> ('k, 'a, 'z) mworld_scheme" where
  "drop_guard E t stay next w =
     (let w' = release_step E t w in (if agents w' t = Idle then next else Next stay, w'))"

definition relock_step :: "'k env \<Rightarrow> tid \<Rightarrow> lock_method \<Rightarrow> ('k, 'a, 'z) mworld_scheme \<Rightarrow> ('k, 'a, 'z) mworld_scheme" where
  "relock_step E t lm w =
     (case agents w t of
        Idle \<Rightarrow> set_agent t (Locking (entry lm)) w
      | Locking p \<Rightarrow> run_lock E t p w
      | _ \<Rightarrow> w)"

definition lock_again :: "'k env \<Rightarrow> tid \<Rightarrow> lock_method \<Rightarrow> 'p \<Rightarrow> 'r \<Rightarrow> ('k, 'a, 'z) mworld_scheme \<Rightarrow>
    ('p, 'r) ctl \<times> ('k, 'a, 'z) mworld_scheme" where
  "lock_again E t lm stay res w =
     (let w' = relock_step E t lm w in
      (case agents w' t of
         Holding \<Rightarrow> Return res
       | Crashed \<Rightarrow> Panic
       | _ \<Rightarrow> Next stay, w'))"

section \<open>The waits\<close>

type_synonym wait_ctl = "(wait_pc, wait_timeout_result option) ctl"

text \<open>The end of every wait, and the unwinding of a panic while the guard is alive.\<close>

fun finish_step :: "'k env \<Rightarrow> tid \<Rightarrow> wait_pc \<Rightarrow> ('k, 'a, 'z) cworld_scheme \<Rightarrow>
    wait_ctl \<times> ('k, 'a, 'z) cworld_scheme" where
  "finish_step E t (Relock lm ro) w = lock_again E t lm (Relock lm ro) ro w"
| "finish_step E t Unwinding w = drop_guard E t Unwinding Panic w"
| "finish_step E t p w = (Next p, w)"

text \<open>\<^verbatim>\<open>wait_block\<close>.\<close>

fun wait_block_step :: "'k env \<Rightarrow> target \<Rightarrow> tid \<Rightarrow> wait_pc \<Rightarrow> ('k, 'a, 'z) cworld_scheme \<Rightarrow>
    wait_ctl \<times> ('k, 'a, 'z) cworld_scheme" where
  "wait_block_step E g t BPush w = (Next BRelease, snd (on_sync (push_handle t) w))"
| "wait_block_step E g t BRelease w = drop_guard E t BRelease (Next BPark) w"
| "wait_block_step E g t BPark w =
     (case park E t w of
        (Return _, w') \<Rightarrow> (Next (Relock (lock_sync g) None), w')
      | (Next _, w') \<Rightarrow> (Next BPark, w')
      | (Panic, w') \<Rightarrow> (Panic, w'))"
| "wait_block_step E g t p w = finish_step E t p w"

text \<open>\<^verbatim>\<open>wait_block_timeout\<close>. At its deadline and after every return of
  \<^verbatim>\<open>park_timeout\<close> the thread looks for itself on the list: if it is not there a notifier
  has taken it.\<close>

fun wait_block_timeout_step :: "'k env \<Rightarrow> target \<Rightarrow> tid \<Rightarrow> instant \<Rightarrow> wait_pc \<Rightarrow>
    ('k, 'a, 'z) cworld_scheme \<Rightarrow> wait_ctl \<times> ('k, 'a, 'z) cworld_scheme" where
  "wait_block_timeout_step E g t d BPush w = (Next BRelease, snd (on_sync (push_handle t) w))"
| "wait_block_timeout_step E g t d BRelease w = drop_guard E t BRelease (Next BNow) w"
| "wait_block_timeout_step E g t d BNow w =
     (Next (if d \<le> now w then BRemove else BCall (d - now w)), w)"
| "wait_block_timeout_step E g t d BRemove w =
     (case on_sync (remove_handle (\<lambda>x. x = t)) w of (removed, w') \<Rightarrow>
       (case removed of
          Some _ \<Rightarrow> (Next (Relock (lock_sync g) (Some (WaitTimeoutResult True))), w')
        | None \<Rightarrow> (Next (Relock (lock_sync g) (Some (WaitTimeoutResult False))), w')))"
| "wait_block_timeout_step E g t d (BCall timeout) w = (Next (BParkT (now w + timeout)), w)"
| "wait_block_timeout_step E g t d (BParkT until) w =
     (case park_until E t until w of
        (Return _, w') \<Rightarrow> (Next BCheck, w')
      | (Next _, w') \<Rightarrow> (Next (BParkT until), w')
      | (Panic, w') \<Rightarrow> (Panic, w'))"
| "wait_block_timeout_step E g t d BCheck w =
     (case on_sync (\<lambda>hs. (t \<notin> set hs, hs)) w of (notified, w') \<Rightarrow>
       (if notified then Next (Relock (lock_sync g) (Some (WaitTimeoutResult False))) else Next BNow, w'))"
| "wait_block_timeout_step E g t d p w = finish_step E t p w"

text \<open>\<^verbatim>\<open>wait_spin\<close>: a wake flag of its own, on the list until a notifier takes it.\<close>

definition new_flag :: "('k, 'a, 'z) cworld_scheme \<Rightarrow> flag \<times> ('k, 'a, 'z) cworld_scheme" where
  [step_defs]: "new_flag w =
     (next_flag w, w\<lparr>wake_flags := (wake_flags w)(next_flag w := False), next_flag := Suc (next_flag w)\<rparr>)"

definition push_new_flag :: "('k, 'a, 'z) cworld_scheme \<Rightarrow> flag \<times> ('k, 'a, 'z) cworld_scheme" where
  [step_defs]: "push_new_flag w =
     (case new_flag w of (f, w') \<Rightarrow> (f, snd (on_spin (push_handle f) w')))"

fun spin_end :: "'k env \<Rightarrow> target \<Rightarrow> tid \<Rightarrow> wait_pc \<Rightarrow> ('k, 'a, 'z) cworld_scheme \<Rightarrow>
    wait_ctl \<times> ('k, 'a, 'z) cworld_scheme" where
  "spin_end E g t (SRelock f ro) w = lock_again E t (lock_sync g) (SRelock f ro) ro w"
| "spin_end E g t p w = finish_step E t p w"

fun wait_spin_step :: "'k env \<Rightarrow> target \<Rightarrow> tid \<Rightarrow> wait_pc \<Rightarrow> ('k, 'a, 'z) cworld_scheme \<Rightarrow>
    wait_ctl \<times> ('k, 'a, 'z) cworld_scheme" where
  "wait_spin_step E g t SPush w = (case push_new_flag w of (f, w') \<Rightarrow> (Next (SRelease f), w'))"
| "wait_spin_step E g t (SRelease f) w = drop_guard E t (SRelease f) (Next (SLoad f)) w"
| "wait_spin_step E g t (SLoad f) w =
     (Next (if wake_flags w f then SRelock f None else SLoad f), w)"
| "wait_spin_step E g t p w = spin_end E g t p w"

text \<open>\<^verbatim>\<open>wait_spin_timeout\<close>.\<close>

fun wait_spin_timeout_step :: "'k env \<Rightarrow> target \<Rightarrow> tid \<Rightarrow> instant \<Rightarrow> wait_pc \<Rightarrow>
    ('k, 'a, 'z) cworld_scheme \<Rightarrow> wait_ctl \<times> ('k, 'a, 'z) cworld_scheme" where
  "wait_spin_timeout_step E g t d SPush w =
     (case push_new_flag w of (f, w') \<Rightarrow> (Next (SRelease f), w'))"
| "wait_spin_timeout_step E g t d (SRelease f) w = drop_guard E t (SRelease f) (Next (SLoad f)) w"
| "wait_spin_timeout_step E g t d (SLoad f) w =
     (Next (if wake_flags w f then SRelock f (Some (WaitTimeoutResult False)) else SNow f), w)"
| "wait_spin_timeout_step E g t d (SNow f) w = (Next (if d \<le> now w then SRemove f else SLoad f), w)"
| "wait_spin_timeout_step E g t d (SRemove f) w =
     (case on_spin (remove_handle (\<lambda>x. x = f)) w of (removed, w') \<Rightarrow>
       (case removed of
          Some _ \<Rightarrow> (Next (SRelock f (Some (WaitTimeoutResult True))), w')
        | None \<Rightarrow> (Next (SLast f), w')))"
| "wait_spin_timeout_step E g t d (SLast f) w =
     (Next (if wake_flags w f then SRelock f (Some (WaitTimeoutResult False)) else SLast f), w)"
| "wait_spin_timeout_step E g t d p w = spin_end E g t p w"

text \<open>\<^verbatim>\<open>ASYNC_WAITER_ID_COUNTER.fetch_add(1)\<close>.\<close>

definition fetch_waiter_id :: "('k, 'a, 'z) cworld_scheme \<Rightarrow> 64 word \<times> ('k, 'a, 'z) cworld_scheme" where
  [step_defs]: "fetch_waiter_id w = (waiter_ids w, w\<lparr>waiter_ids := waiter_ids w + 1\<rparr>)"

definition new_cont :: "'k env \<Rightarrow> ('k, 'z) os_scheme \<Rightarrow> cont_id \<times> ('k, 'z) os_scheme" where
  [step_defs]: "new_cont E w = (case continuation E (conts w) of (r, k) \<Rightarrow> (r, w\<lparr>conts := k\<rparr>))"

text \<open>\<^verbatim>\<open>wait_async\<close>: the closure makes the continuation, takes an id and pushes.\<close>

fun wait_async_step :: "'k env \<Rightarrow> tid \<Rightarrow> wait_pc \<Rightarrow> ('k, 'a, 'z) cworld_scheme \<Rightarrow>
    wait_ctl \<times> ('k, 'a, 'z) cworld_scheme" where
  "wait_async_step E t APush w =
     (case new_cont E w of (r, w1) \<Rightarrow>
      case fetch_waiter_id w1 of (i, w2) \<Rightarrow>
        (Next (ARelease r), snd (on_async (push_handle \<lparr>waiter_id = i, waiter_sender = r\<rparr>) w2)))"
| "wait_async_step E t (ARelease r) w = drop_guard E t (ARelease r) (Next (AAwait r)) w"
| "wait_async_step E t (AAwait r) w =
     (Next (if is_ready E (conts w) r then Relock LockAsync None else AAwait r), w)"
| "wait_async_step E t p w = finish_step E t p w"

text \<open>
  \<^verbatim>\<open>wait_async_timeout\<close>. The race polls the notification first and the timeout second;
  when both are pending the executor polls again. After a timeout the task looks for its id on
  the list and, if it is there, removes the entry and sends to it. The timeout continuation is
  made in the step that moves its sender into the spawned thread; if spawning fails, the panic
  drops the guard.
\<close>

fun wait_async_timeout_step :: "'k env \<Rightarrow> tid \<Rightarrow> instant \<Rightarrow> wait_pc \<Rightarrow>
    ('k, 'a, 'z) cworld_scheme \<Rightarrow> wait_ctl \<times> ('k, 'a, 'z) cworld_scheme" where
  "wait_async_timeout_step E t d AId w = (case fetch_waiter_id w of (i, w') \<Rightarrow> (Next (ACont i), w'))"
| "wait_async_timeout_step E t d (ACont i) w = (case new_cont E w of (r, w') \<Rightarrow> (Next (APushT i r), w'))"
| "wait_async_timeout_step E t d (APushT i r) w =
     (Next (ASpawn i r), snd (on_async (push_handle \<lparr>waiter_id = i, waiter_sender = r\<rparr>) w))"
| "wait_async_timeout_step E t d (ASpawn i r) w =
     (case new_cont E w of (q, w') \<Rightarrow>
        if can_spawn E then (Next (AReleaseT i r q), w'\<lparr>timers := (d, q) # timers w'\<rparr>)
        else (Next Unwinding, w'))"
| "wait_async_timeout_step E t d (AReleaseT i r q) w =
     drop_guard E t (AReleaseT i r q) (Next (ANotify i r q)) w"
| "wait_async_timeout_step E t d (ANotify i r q) w =
     (Next (if is_ready E (conts w) r then Relock LockAsync (Some (WaitTimeoutResult False))
            else ATimeout i r q), w)"
| "wait_async_timeout_step E t d (ATimeout i r q) w =
     (Next (if is_ready E (conts w) q then ARemove i else ANotify i r q), w)"
| "wait_async_timeout_step E t d (ARemove i) w =
     (case on_async (remove_handle (\<lambda>x. waiter_id x = i)) w of (removed, w') \<Rightarrow>
       (Next (Relock LockAsync (Some (WaitTimeoutResult True))),
        case removed of Some x \<Rightarrow> send_to E (waiter_sender x) w' | None \<Rightarrow> w'))"
| "wait_async_timeout_step E t d p w = finish_step E t p w"

text \<open>The step of a method, and where each starts.\<close>

fun wait_step :: "'k env \<Rightarrow> target \<Rightarrow> tid \<Rightarrow> wait_op \<Rightarrow> wait_pc \<Rightarrow> ('k, 'a, 'z) cworld_scheme \<Rightarrow>
    wait_ctl \<times> ('k, 'a, 'z) cworld_scheme" where
  "wait_step E g t WaitBlock = wait_block_step E g t"
| "wait_step E g t (WaitBlockTimeout d) = wait_block_timeout_step E g t d"
| "wait_step E g t WaitSpin = wait_spin_step E g t"
| "wait_step E g t (WaitSpinTimeout d) = wait_spin_timeout_step E g t d"
| "wait_step E g t WaitAsync = wait_async_step E t"
| "wait_step E g t (WaitAsyncTimeout d) = wait_async_timeout_step E t d"

fun wait_entry :: "wait_op \<Rightarrow> wait_pc" where
  "wait_entry WaitBlock = BPush"
| "wait_entry (WaitBlockTimeout d) = BPush"
| "wait_entry WaitSpin = SPush"
| "wait_entry (WaitSpinTimeout d) = SPush"
| "wait_entry WaitAsync = APush"
| "wait_entry (WaitAsyncTimeout d) = AId"

definition wait_sync :: "target \<Rightarrow> wait_op" where
  "wait_sync g = (case sync_strategy g of Blocking \<Rightarrow> WaitBlock | Spinning \<Rightarrow> WaitSpin)"

definition wait_sync_timeout :: "target \<Rightarrow> instant \<Rightarrow> wait_op" where
  "wait_sync_timeout g d =
     (case sync_strategy g of Blocking \<Rightarrow> WaitBlockTimeout d | Spinning \<Rightarrow> WaitSpinTimeout d)"

text \<open>
  Where the future of an async wait is suspended and may be dropped by its owner: at its
  notification, at its race, or in \<^verbatim>\<open>lock_async\<close>, whose state is \<open>c\<close>.
\<close>

fun wait_awaits :: "wait_pc \<Rightarrow> mpc \<Rightarrow> bool" where
  "wait_awaits (AAwait r) c = True"
| "wait_awaits (ANotify i r q) c = True"
| "wait_awaits (Relock lm ro) c = agent_awaits c"
| "wait_awaits p c = False"

section \<open>The loops\<close>

text \<open>
  \<^verbatim>\<open>while condition(&mut guard) { ... }\<close>. The condition may change the data, and a panic
  of it drops the guard. A loop with a deadline also ends when its wait has timed out.
\<close>

type_synonym loop_ctl = "(loop_pc, wait_timeout_result option) ctl"

definition test_condition :: "('a, bool) closure \<Rightarrow> wait_pc \<Rightarrow> wait_timeout_result option \<Rightarrow>
    ('k, 'a, 'z) mworld_scheme \<Rightarrow> loop_ctl \<times> ('k, 'a, 'z) mworld_scheme" where
  "test_condition f start res w =
     (case f (guard_deref (mtx w)) of (b, v) \<Rightarrow>
       (case b of
          Some True \<Rightarrow> Next (LWait start)
        | Some False \<Rightarrow> Return res
        | None \<Rightarrow> Next (LWait Unwinding), w\<lparr>mtx := guard_deref_mut v (mtx w)\<rparr>))"

fun untimed_after :: "wait_ctl \<Rightarrow> loop_ctl" where
  "untimed_after (Next p) = Next (LWait p)"
| "untimed_after (Return ro) = Next LTest"
| "untimed_after Panic = Panic"

fun timed_after :: "wait_ctl \<Rightarrow> loop_ctl" where
  "timed_after (Next p) = Next (LWait p)"
| "timed_after (Return (Some r)) = (if timed_out r then Return (Some r) else Next LTest)"
| "timed_after (Return None) = Next LTest"
| "timed_after Panic = Panic"

fun wait_block_while_step :: "'k env \<Rightarrow> target \<Rightarrow> tid \<Rightarrow> ('a, bool) closure \<Rightarrow> loop_pc \<Rightarrow>
    ('k, 'a, 'z) cworld_scheme \<Rightarrow> loop_ctl \<times> ('k, 'a, 'z) cworld_scheme" where
  "wait_block_while_step E g t f LTest w = test_condition f BPush None w"
| "wait_block_while_step E g t f (LWait p) w = apfst untimed_after (wait_block_step E g t p w)"

fun wait_block_timeout_while_step :: "'k env \<Rightarrow> target \<Rightarrow> tid \<Rightarrow> instant \<Rightarrow> ('a, bool) closure \<Rightarrow> loop_pc \<Rightarrow>
    ('k, 'a, 'z) cworld_scheme \<Rightarrow> loop_ctl \<times> ('k, 'a, 'z) cworld_scheme" where
  "wait_block_timeout_while_step E g t d f LTest w =
     test_condition f BPush (Some (WaitTimeoutResult False)) w"
| "wait_block_timeout_while_step E g t d f (LWait p) w =
     apfst timed_after (wait_block_timeout_step E g t d p w)"

fun wait_spin_while_step :: "'k env \<Rightarrow> target \<Rightarrow> tid \<Rightarrow> ('a, bool) closure \<Rightarrow> loop_pc \<Rightarrow>
    ('k, 'a, 'z) cworld_scheme \<Rightarrow> loop_ctl \<times> ('k, 'a, 'z) cworld_scheme" where
  "wait_spin_while_step E g t f LTest w = test_condition f SPush None w"
| "wait_spin_while_step E g t f (LWait p) w = apfst untimed_after (wait_spin_step E g t p w)"

fun wait_spin_timeout_while_step :: "'k env \<Rightarrow> target \<Rightarrow> tid \<Rightarrow> instant \<Rightarrow> ('a, bool) closure \<Rightarrow> loop_pc \<Rightarrow>
    ('k, 'a, 'z) cworld_scheme \<Rightarrow> loop_ctl \<times> ('k, 'a, 'z) cworld_scheme" where
  "wait_spin_timeout_while_step E g t d f LTest w =
     test_condition f SPush (Some (WaitTimeoutResult False)) w"
| "wait_spin_timeout_while_step E g t d f (LWait p) w =
     apfst timed_after (wait_spin_timeout_step E g t d p w)"

fun wait_async_while_step :: "'k env \<Rightarrow> tid \<Rightarrow> ('a, bool) closure \<Rightarrow> loop_pc \<Rightarrow>
    ('k, 'a, 'z) cworld_scheme \<Rightarrow> loop_ctl \<times> ('k, 'a, 'z) cworld_scheme" where
  "wait_async_while_step E t f LTest w = test_condition f APush None w"
| "wait_async_while_step E t f (LWait p) w = apfst untimed_after (wait_async_step E t p w)"

fun wait_async_timeout_while_step :: "'k env \<Rightarrow> tid \<Rightarrow> instant \<Rightarrow> ('a, bool) closure \<Rightarrow> loop_pc \<Rightarrow>
    ('k, 'a, 'z) cworld_scheme \<Rightarrow> loop_ctl \<times> ('k, 'a, 'z) cworld_scheme" where
  "wait_async_timeout_while_step E t d f LTest w =
     test_condition f AId (Some (WaitTimeoutResult False)) w"
| "wait_async_timeout_while_step E t d f (LWait p) w =
     apfst timed_after (wait_async_timeout_step E t d p w)"

fun loop_step :: "'k env \<Rightarrow> target \<Rightarrow> tid \<Rightarrow> wait_op \<Rightarrow> ('a, bool) closure \<Rightarrow> loop_pc \<Rightarrow>
    ('k, 'a, 'z) cworld_scheme \<Rightarrow> loop_ctl \<times> ('k, 'a, 'z) cworld_scheme" where
  "loop_step E g t WaitBlock = wait_block_while_step E g t"
| "loop_step E g t (WaitBlockTimeout d) = wait_block_timeout_while_step E g t d"
| "loop_step E g t WaitSpin = wait_spin_while_step E g t"
| "loop_step E g t (WaitSpinTimeout d) = wait_spin_timeout_while_step E g t d"
| "loop_step E g t WaitAsync = wait_async_while_step E t"
| "loop_step E g t (WaitAsyncTimeout d) = wait_async_timeout_while_step E t d"

text \<open>\<^verbatim>\<open>wait_sync_while\<close> and \<^verbatim>\<open>wait_sync_timeout_while\<close> make the adaptive choice once,
  before the loop.\<close>

definition wait_sync_while_step :: "'k env \<Rightarrow> target \<Rightarrow> tid \<Rightarrow> ('a, bool) closure \<Rightarrow> loop_pc \<Rightarrow>
    ('k, 'a, 'z) cworld_scheme \<Rightarrow> loop_ctl \<times> ('k, 'a, 'z) cworld_scheme" where
  "wait_sync_while_step E g t =
     (case sync_strategy g of
        Blocking \<Rightarrow> wait_block_while_step E g t
      | Spinning \<Rightarrow> wait_spin_while_step E g t)"

definition wait_sync_timeout_while_step :: "'k env \<Rightarrow> target \<Rightarrow> tid \<Rightarrow> instant \<Rightarrow> ('a, bool) closure \<Rightarrow>
    loop_pc \<Rightarrow> ('k, 'a, 'z) cworld_scheme \<Rightarrow> loop_ctl \<times> ('k, 'a, 'z) cworld_scheme" where
  "wait_sync_timeout_while_step E g t d =
     (case sync_strategy g of
        Blocking \<Rightarrow> wait_block_timeout_while_step E g t d
      | Spinning \<Rightarrow> wait_spin_timeout_while_step E g t d)"

lemma sync_loops:
  "loop_step E g t (wait_sync g) = wait_sync_while_step E g t"
  "loop_step E g t (wait_sync_timeout g d) = wait_sync_timeout_while_step E g t d"
  by (simp_all add: wait_sync_def wait_sync_timeout_def wait_sync_while_step_def
      wait_sync_timeout_while_step_def split: strategy.splits)

section \<open>The notifications\<close>

text \<open>\<^verbatim>\<open>thread.store(true, Release)\<close> on a wake flag.\<close>

definition set_flag :: "flag \<Rightarrow> ('k, 'a, 'z) cworld_scheme \<Rightarrow> ('k, 'a, 'z) cworld_scheme" where
  [step_defs]: "set_flag f w = w\<lparr>wake_flags := (wake_flags w)(f := True)\<rparr>"

type_synonym notify_ctl = "(notify_pc, unit) ctl"

text \<open>\<^verbatim>\<open>notify_one\<close>: the last spinning thread, else the last parked one, else the last task.\<close>

fun notify_one_step :: "'k env \<Rightarrow> notify_pc \<Rightarrow> ('k, 'a, 'z) cworld_scheme \<Rightarrow>
    notify_ctl \<times> ('k, 'a, 'z) cworld_scheme" where
  "notify_one_step E OneSpin w =
     (case on_spin vec_pop w of (x, w') \<Rightarrow>
       (case x of Some f \<Rightarrow> Next (OneStore f) | None \<Rightarrow> Next OneSync, w'))"
| "notify_one_step E (OneStore f) w = (Return (), set_flag f w)"
| "notify_one_step E OneSync w =
     (case on_sync vec_pop w of (x, w') \<Rightarrow>
       (case x of Some h \<Rightarrow> Next (OneUnpark h) | None \<Rightarrow> Next OneAsync, w'))"
| "notify_one_step E (OneUnpark h) w = (Return (), unpark h w)"
| "notify_one_step E OneAsync w =
     (case on_async vec_pop w of (x, w') \<Rightarrow>
       (case x of Some a \<Rightarrow> Next (OneSend a) | None \<Rightarrow> Return (), w'))"
| "notify_one_step E (OneSend a) w = (Return (), send_to E (waiter_sender a) w)"
| "notify_one_step E p w = (Next p, w)"

text \<open>\<^verbatim>\<open>notify_all\<close>: the three lists one after the other, each taken whole.\<close>

fun notify_all_step :: "'k env \<Rightarrow> notify_pc \<Rightarrow> ('k, 'a, 'z) cworld_scheme \<Rightarrow>
    notify_ctl \<times> ('k, 'a, 'z) cworld_scheme" where
  "notify_all_step E AllSpin w = (case on_spin mem_take w of (fs, w') \<Rightarrow> (Next (AllStore fs), w'))"
| "notify_all_step E (AllStore []) w = (Next AllSync, w)"
| "notify_all_step E (AllStore (f # fs)) w = (Next (AllStore fs), set_flag f w)"
| "notify_all_step E AllSync w = (case on_sync mem_take w of (hs, w') \<Rightarrow> (Next (AllUnpark hs), w'))"
| "notify_all_step E (AllUnpark []) w = (Next AllAsync, w)"
| "notify_all_step E (AllUnpark (h # hs)) w = (Next (AllUnpark hs), unpark h w)"
| "notify_all_step E AllAsync w = (case on_async mem_take w of (xs, w') \<Rightarrow> (Next (AllSend xs), w'))"
| "notify_all_step E (AllSend []) w = (Return (), w)"
| "notify_all_step E (AllSend (x # xs)) w = (Next (AllSend xs), send_to E (waiter_sender x) w)"
| "notify_all_step E p w = (Next p, w)"

fun is_one :: "notify_pc \<Rightarrow> bool" where
  "is_one AllSpin = False"
| "is_one (AllStore fs) = False"
| "is_one AllSync = False"
| "is_one (AllUnpark hs) = False"
| "is_one AllAsync = False"
| "is_one (AllSend xs) = False"
| "is_one _ = True"

definition notify_step :: "'k env \<Rightarrow> notify_pc \<Rightarrow> ('k, 'a, 'z) cworld_scheme \<Rightarrow>
    notify_ctl \<times> ('k, 'a, 'z) cworld_scheme" where
  "notify_step E p w = (if is_one p then notify_one_step E p w else notify_all_step E p w)"

end
