(* ===== verification/CondvarMachine.thy ===== *)
theory CondvarMachine
  imports Condvar
begin

text \<open>
  Any number of agents using one condition variable and its mutex at the same time. Every step
  is a step, or a few, of the mutex's machine, so what holds of the mutex holds here; the
  invariant says at which program counters of a wait the agent holds the mutex, what a timed
  wait knows about its deadline, and what a loop knows about its condition when it returns.
\<close>

section \<open>The machine\<close>

definition set_call :: "tid \<Rightarrow> 'a ccall \<Rightarrow> ('k, 'a, 'z) cworld_scheme \<Rightarrow> ('k, 'a, 'z) cworld_scheme" where
  "set_call t c w = w\<lparr>ccalls := (ccalls w)(t := c)\<rparr>"

fun after_wait :: "wait_op \<Rightarrow> wait_ctl \<Rightarrow> 'a ccall" where
  "after_wait op (Next p) = Waiting op p"
| "after_wait op (Return ro) = Done op None ro"
| "after_wait op Panic = Failed"

fun after_loop :: "wait_op \<Rightarrow> ('a, bool) closure \<Rightarrow> loop_ctl \<Rightarrow> 'a ccall" where
  "after_loop op f (Next p) = Looping op f p"
| "after_loop op f (Return ro) = Done op (Some f) ro"
| "after_loop op f Panic = Failed"

fun after_notify :: "notify_ctl \<Rightarrow> 'a ccall" where
  "after_notify (Next p) = Notifying p"
| "after_notify (Return _) = NoCall"
| "after_notify Panic = Failed"

definition run_wait :: "'k env \<Rightarrow> target \<Rightarrow> tid \<Rightarrow> wait_op \<Rightarrow> wait_pc \<Rightarrow>
    ('k, 'a, 'z) cworld_scheme \<Rightarrow> ('k, 'a, 'z) cworld_scheme" where
  "run_wait E g t op p w = (case wait_step E g t op p w of (c, w') \<Rightarrow> set_call t (after_wait op c) w')"

definition run_loop :: "'k env \<Rightarrow> target \<Rightarrow> tid \<Rightarrow> wait_op \<Rightarrow> ('a, bool) closure \<Rightarrow> loop_pc \<Rightarrow>
    ('k, 'a, 'z) cworld_scheme \<Rightarrow> ('k, 'a, 'z) cworld_scheme" where
  "run_loop E g t op f p w = (case loop_step E g t op f p w of (c, w') \<Rightarrow> set_call t (after_loop op f c) w')"

definition run_notify :: "'k env \<Rightarrow> tid \<Rightarrow> notify_pc \<Rightarrow>
    ('k, 'a, 'z) cworld_scheme \<Rightarrow> ('k, 'a, 'z) cworld_scheme" where
  "run_notify E t p w = (case notify_step E p w of (c, w') \<Rightarrow> set_call t (after_notify c) w')"

text \<open>
  What the agents that are in no call of the condition variable, the clock, the timeout threads
  and the rest of the program do: any step of the mutex's machine that leaves the condition
  variable alone, does not move an agent that is in such a call nor take its parking token, and
  writes the data only through the guard of an agent that is in no such call.
\<close>

definition client_frame :: "('k, 'a, 'z) cworld_scheme \<Rightarrow> ('k, 'a, 'z) cworld_scheme \<Rightarrow> bool" where
  "client_frame w w' \<longleftrightarrow>
     cv w' = cv w \<and> wake_flags w' = wake_flags w \<and> next_flag w' = next_flag w \<and> ccalls w' = ccalls w \<and>
     (\<forall>t. ccalls w t \<noteq> NoCall \<longrightarrow> agents w' t = agents w t \<and> (token w t \<longrightarrow> token w' t)) \<and>
     (inner (mtx w') \<noteq> inner (mtx w) \<longrightarrow> (\<exists>t. ccalls w t = NoCall \<and> agents w t = Holding))"

text \<open>
  The future of a call is dropped while it is suspended: the agent is in no call any more, of
  the condition variable or of the mutex, and all else stays, its entry on a list included.
\<close>

fun call_awaits :: "'a ccall \<Rightarrow> mpc \<Rightarrow> bool" where
  "call_awaits (Waiting op p) c = wait_awaits p c"
| "call_awaits (Looping op f (LWait p)) c = wait_awaits p c"
| "call_awaits d c = False"

definition abandon_call :: "tid \<Rightarrow> ('k, 'a, 'z) cworld_scheme \<Rightarrow> ('k, 'a, 'z) cworld_scheme" where
  "abandon_call t w = set_call t NoCall (set_agent t Idle w)"

inductive cstep :: "'k env \<Rightarrow> target \<Rightarrow> ('k, 'a, 'z) cworld_scheme \<Rightarrow> ('k, 'a, 'z) cworld_scheme \<Rightarrow> bool"
  for E :: "'k env" and g :: target where
  client: "mstep E w w' \<Longrightarrow> client_frame w w' \<Longrightarrow> cstep E g w w'"
| begin_wait: "ccalls w t = NoCall \<Longrightarrow> agents w t = Holding \<Longrightarrow>
     cstep E g w (set_call t (Waiting op (wait_entry op)) w)"
| begin_loop: "ccalls w t = NoCall \<Longrightarrow> agents w t = Holding \<Longrightarrow>
     cstep E g w (set_call t (Looping op f LTest) w)"
| begin_notify: "ccalls w t = NoCall \<Longrightarrow> at_rest (agents w t) \<or> agents w t = Holding \<Longrightarrow>
     p = OneSpin \<or> p = AllSpin \<Longrightarrow> cstep E g w (set_call t (Notifying p) w)"
| wait: "ccalls w t = Waiting op p \<Longrightarrow> cstep E g w (run_wait E g t op p w)"
| loop: "ccalls w t = Looping op f p \<Longrightarrow> cstep E g w (run_loop E g t op f p w)"
| notify: "ccalls w t = Notifying p \<Longrightarrow> cstep E g w (run_notify E t p w)"
| resume: "ccalls w t = Done op fo ro \<Longrightarrow> cstep E g w (set_call t NoCall w)"
| abandon: "call_awaits (ccalls w t) (agents w t) \<Longrightarrow> cstep E g w (abandon_call t w)"

definition cinit :: "'k env \<Rightarrow> 'a \<Rightarrow> ('k, 'a, 'z) cworld_scheme \<Rightarrow> bool" where
  "cinit E v w \<longleftrightarrow> minit E v w \<and> cv w = condvar_new \<and> (\<forall>t. ccalls w t = NoCall) \<and>
     (\<forall>f. \<not> wake_flags w f)"

lemma set_call_sel [simp]:
  "ccalls (set_call t c w) = (ccalls w)(t := c)" "cv (set_call t c w) = cv w"
  "wake_flags (set_call t c w) = wake_flags w" "next_flag (set_call t c w) = next_flag w"
  "agents (set_call t c w) = agents w" "mtx (set_call t c w) = mtx w"
  "token (set_call t c w) = token w" "conts (set_call t c w) = conts w"
  "timers (set_call t c w) = timers w" "now (set_call t c w) = now w"
  by (simp_all add: set_call_def)

section \<open>Where a step of the mutex leaves the rest of the state\<close>

lemma lock_step_more:
  assumes "lock_step E t p w = (c, w')" shows "mworld.more w' = mworld.more w"
proof (cases p)
  case (BlockReg q)
  with assms show ?thesis by (auto split: prod.splits)
next
  case (BlockTReg d q)
  with assms show ?thesis by (auto split: prod.splits)
next
  case (AsyncReg q)
  with assms show ?thesis by (auto simp: async_reg_def Let_def split: prod.splits)
next
  case (AsyncTReg d q)
  with assms show ?thesis by (auto simp: async_reg_def Let_def split: prod.splits)
qed (use assms in \<open>auto simp: try_lock_eq lock_swap_def park_def park_until_def
    split: prod.splits ctl.splits if_splits\<close>)

lemma guard_drop_more:
  assumes "guard_drop_step E p w = (c, w')" shows "mworld.more w' = mworld.more w"
proof (cases p)
  case (DSync q)
  with assms show ?thesis by (auto simp: Let_def unpark_def split: prod.splits drain_res.splits)
next
  case (DAsync q)
  with assms show ?thesis by (auto simp: Let_def send_to_def split: prod.splits drain_res.splits)
qed (use assms in auto)

text \<open>The condition variable's part of the state.\<close>

definition cv_same :: "('k, 'a, 'z) cworld_scheme \<Rightarrow> ('k, 'a, 'z) cworld_scheme \<Rightarrow> bool" where
  "cv_same w w' \<longleftrightarrow> cv w' = cv w \<and> wake_flags w' = wake_flags w \<and> next_flag w' = next_flag w \<and>
     waiter_ids w' = waiter_ids w \<and> ccalls w' = ccalls w"

lemma cv_same_more: "mworld.more w' = mworld.more w \<Longrightarrow> cv_same w w'"
  for w w' :: "('k, 'a, 'z) cworld_scheme"
  by (cases w; cases w') (simp add: cv_same_def)

lemma cv_sameD:
  "cv_same w w' \<Longrightarrow> cv w' = cv w \<and> wake_flags w' = wake_flags w \<and> next_flag w' = next_flag w \<and>
     waiter_ids w' = waiter_ids w \<and> ccalls w' = ccalls w"
  by (simp add: cv_same_def)

section \<open>The phases of a wait\<close>

datatype phase = Held | Letting | Away | Taking

fun in_phase :: "phase \<Rightarrow> mpc \<Rightarrow> bool" where
  "in_phase Held c = (c = Holding)"
| "in_phase Letting c = (c = Holding \<or> (\<exists>p. c = Dropping p))"
| "in_phase Away c = (c = Idle)"
| "in_phase Taking c = (at_rest c \<or> (\<exists>p. c = Locking p))"

fun pc_phase :: "wait_pc \<Rightarrow> phase" where
  "pc_phase BPush = Held" | "pc_phase SPush = Held" | "pc_phase APush = Held"
| "pc_phase AId = Held" | "pc_phase (ACont i) = Held" | "pc_phase (APushT i r) = Held"
| "pc_phase (ASpawn i r) = Held"
| "pc_phase BRelease = Letting" | "pc_phase (SRelease f) = Letting"
| "pc_phase (ARelease r) = Letting" | "pc_phase (AReleaseT i r q) = Letting"
| "pc_phase Unwinding = Letting"
| "pc_phase (Relock lm ro) = Taking" | "pc_phase (SRelock f ro) = Taking"
| "pc_phase _ = Away"

lemma release_step_facts:
  assumes "in_phase Letting (agents w t)" "w' = release_step E t w"
  shows "mstep E w w'" "agents w' = (agents w)(t := agents w' t)"
    "agents w' t = Idle \<or> (\<exists>p. agents w' t = Dropping p)"
    "inner (mtx w') = inner (mtx w)" "mworld.more w' = mworld.more w"
    "now w' = now w" "timers w' = timers w" "\<And>u. token w u \<Longrightarrow> token w' u"
proof -
  from assms(1) consider "agents w t = Holding" | p where "agents w t = Dropping p" by auto
  then have "mstep E w w' \<and> agents w' = (agents w)(t := agents w' t) \<and>
    (agents w' t = Idle \<or> (\<exists>p. agents w' t = Dropping p)) \<and>
    inner (mtx w') = inner (mtx w) \<and> mworld.more w' = mworld.more w \<and> now w' = now w \<and>
    timers w' = timers w \<and> (\<forall>u. token w u \<longrightarrow> token w' u)"
  proof cases
    case 1
    then show ?thesis using assms(2)
      by (auto simp: release_step_def set_agent_def intro: mstep.release [unfolded set_agent_def])
  next
    case (2 p)
    obtain c v where st: "guard_drop_step E p w = (c, v)" by force
    have "now v = now w \<and> timers v = timers w \<and> (\<forall>u. token w u \<longrightarrow> token v u)"
      using st by (cases p) (auto simp: Let_def unpark_def send_to_def split: prod.splits drain_res.splits)
    moreover have "mstep E w w'"
      using mstep.drop [of w t p E] 2 assms(2) by (simp add: release_step_def)
    ultimately show ?thesis
      using 2 assms(2) st guard_drop_word [OF st] guard_drop_more [OF st]
      by (cases c) (auto simp: release_step_def run_drop_def set_agent_def)
  qed
  then show "mstep E w w'" "agents w' = (agents w)(t := agents w' t)"
    "agents w' t = Idle \<or> (\<exists>p. agents w' t = Dropping p)"
    "inner (mtx w') = inner (mtx w)" "mworld.more w' = mworld.more w"
    "now w' = now w" "timers w' = timers w" "\<And>u. token w u \<Longrightarrow> token w' u"
    by blast+
qed

lemma lock_step_token: "lock_step E t p w = (c, w') \<Longrightarrow> u \<noteq> t \<Longrightarrow> token w' u = token w u"
proof (cases p)
  case (AsyncReg q)
  then show "lock_step E t p w = (c, w') \<Longrightarrow> ?thesis" by (auto simp: async_reg_def Let_def split: prod.splits)
next
  case (AsyncTReg d q)
  then show "lock_step E t p w = (c, w') \<Longrightarrow> ?thesis" by (auto simp: async_reg_def Let_def split: prod.splits)
qed (auto simp: try_lock_eq lock_swap_def park_def park_until_def split: prod.splits ctl.splits if_splits)

lemma relock_step_facts:
  assumes "in_phase Taking (agents w t)" "w' = relock_step E t lm w"
  shows "w' = w \<or> mstep E w w'" "agents w' = (agents w)(t := agents w' t)"
    "in_phase Taking (agents w' t) \<or> agents w' t = Holding \<or> agents w' t = Crashed"
    "inner (mtx w') = inner (mtx w)" "mworld.more w' = mworld.more w"
    "\<And>u. u \<noteq> t \<Longrightarrow> token w' u = token w u"
proof -
  have "(w' = w \<or> mstep E w w') \<and> agents w' = (agents w)(t := agents w' t) \<and>
    (in_phase Taking (agents w' t) \<or> agents w' t = Holding \<or> agents w' t = Crashed) \<and>
    inner (mtx w') = inner (mtx w) \<and> mworld.more w' = mworld.more w \<and>
    (\<forall>u. u \<noteq> t \<longrightarrow> token w' u = token w u)"
  proof (cases "agents w t")
    case Idle
    then show ?thesis using assms(2) mstep.call [of w t E lm]
      by (auto simp: relock_step_def) (simp add: set_agent_def)
  next
    case (Locking p)
    obtain c v where st: "lock_step E t p w = (c, v)" by force
    have "mstep E w w'"
      using mstep.lock [of w t p E] Locking assms(2) by (simp add: relock_step_def)
    then show ?thesis
      using Locking assms(2) st lock_step_word [OF st] lock_step_more [OF st] lock_step_token [OF st]
      by (cases c rule: after_lock.cases)
        (auto simp: relock_step_def run_lock_def word_ok_def set_agent_def)
  qed (use assms in \<open>auto simp: relock_step_def\<close>)
  then show "w' = w \<or> mstep E w w'" "agents w' = (agents w)(t := agents w' t)"
    "in_phase Taking (agents w' t) \<or> agents w' t = Holding \<or> agents w' t = Crashed"
    "inner (mtx w') = inner (mtx w)" "mworld.more w' = mworld.more w"
    "\<And>u. u \<noteq> t \<Longrightarrow> token w' u = token w u"
    by blast+
qed

section \<open>One step of a call\<close>

text \<open>What a step of agent \<open>t\<close> inside a call does to the mutex's machine.\<close>

definition moves :: "'k env \<Rightarrow> tid \<Rightarrow> ('k, 'a, 'z) cworld_scheme \<Rightarrow> ('k, 'a, 'z) cworld_scheme \<Rightarrow> bool" where
  "moves E t w w' \<longleftrightarrow> (mstep E)\<^sup>*\<^sup>* w w' \<and> (\<forall>u. u \<noteq> t \<longrightarrow> agents w' u = agents w u) \<and>
     ccalls w' = ccalls w \<and> (\<forall>u. u \<noteq> t \<longrightarrow> token w u \<longrightarrow> token w' u)"

fun phase_after :: "wait_ctl \<Rightarrow> mpc \<Rightarrow> bool" where
  "phase_after (Next p) c = in_phase (pc_phase p) c"
| "phase_after (Return ro) c = (c = Holding)"
| "phase_after Panic c = True"

lemma moves_other_state:
  "mworld.truncate w' = mworld.truncate w \<Longrightarrow> ccalls w' = ccalls w \<Longrightarrow> moves E t w w'"
  by (auto simp: moves_def dest: truncate_eqD intro: mstep.other_state)

lemma moves_refl [simp]: "moves E t w w"
  by (rule moves_other_state) simp_all

lemma moves_msteps:
  "mstep E w w' \<Longrightarrow> agents w' = agents w \<Longrightarrow> token w' = token w \<Longrightarrow> ccalls w' = ccalls w \<Longrightarrow> moves E t w w'"
  by (simp add: moves_def r_into_rtranclp)

lemma moves_trans: "moves E t w w1 \<Longrightarrow> moves E t w1 w2 \<Longrightarrow> moves E t w w2"
  by (auto simp: moves_def)

lemma on_list_sel [simp]:
  "agents (snd (on_sync f w)) = agents w" "agents (snd (on_async fa w)) = agents w"
  "agents (snd (on_spin fs w)) = agents w"
  "mtx (snd (on_sync f w)) = mtx w" "mtx (snd (on_async fa w)) = mtx w" "mtx (snd (on_spin fs w)) = mtx w"
  "ccalls (snd (on_sync f w)) = ccalls w" "ccalls (snd (on_async fa w)) = ccalls w"
  "ccalls (snd (on_spin fs w)) = ccalls w"
  "timers (snd (on_sync f w)) = timers w" "timers (snd (on_async fa w)) = timers w"
  "timers (snd (on_spin fs w)) = timers w"
  "conts (snd (on_sync f w)) = conts w" "conts (snd (on_async fa w)) = conts w"
  "conts (snd (on_spin fs w)) = conts w"
  "token (snd (on_sync f w)) = token w" "token (snd (on_async fa w)) = token w"
  "token (snd (on_spin fs w)) = token w"
  "now (snd (on_sync f w)) = now w" "now (snd (on_async fa w)) = now w"
  "now (snd (on_spin fs w)) = now w"
  "mworld.truncate (snd (on_sync f w)) = mworld.truncate w"
  "mworld.truncate (snd (on_async fa w)) = mworld.truncate w"
  "mworld.truncate (snd (on_spin fs w)) = mworld.truncate w"
  by (simp_all add: on_sync_def on_async_def on_spin_def mworld.truncate_def split: prod.splits)

lemma moves_on_list:
  "moves E t w (snd (on_sync f w))" "moves E t w (snd (on_async fa w))" "moves E t w (snd (on_spin fs w))"
  by (intro moves_other_state; simp)+

lemma on_list_moves:
  "on_sync f w = (x, w') \<Longrightarrow> moves E t w w' \<and> agents w' = agents w \<and> mtx w' = mtx w"
  "on_async fa w = (y, w') \<Longrightarrow> moves E t w w' \<and> agents w' = agents w \<and> mtx w' = mtx w"
  "on_spin fs w = (z, w') \<Longrightarrow> moves E t w w' \<and> agents w' = agents w \<and> mtx w' = mtx w"
proof -
  assume "on_sync f w = (x, w')"
  then show "moves E t w w' \<and> agents w' = agents w \<and> mtx w' = mtx w"
    using moves_on_list(1) [of E t w f] on_list_sel(1,4) [of f w] by simp
next
  assume "on_async fa w = (y, w')"
  then show "moves E t w w' \<and> agents w' = agents w \<and> mtx w' = mtx w"
    using moves_on_list(2) [of E t w fa] on_list_sel(2,5) [of _ w] by (metis snd_conv)
next
  assume "on_spin fs w = (z, w')"
  then show "moves E t w w' \<and> agents w' = agents w \<and> mtx w' = mtx w"
    using moves_on_list(3) [of E t w fs] on_list_sel(3,6) [of _ w] by (metis snd_conv)
qed

lemma drop_guard_moves:
  assumes "drop_guard E t stay next w = (c, w')" "in_phase Letting (agents w t)"
  shows "moves E t w w'" "inner (mtx w') = inner (mtx w)"
    "if agents w' t = Idle then c = next else c = Next stay \<and> in_phase Letting (agents w' t)"
    "cv_same w w'" "now w' = now w" "timers w' = timers w" "token w u \<Longrightarrow> token w' u"
proof -
  from assms(1) have w': "w' = release_step E t w" and c: "c = (if agents w' t = Idle then next else Next stay)"
    by (auto simp: drop_guard_def Let_def)
  note facts = release_step_facts [OF assms(2) w']
  show cs: "cv_same w w'" using facts(5) by (rule cv_same_more)
  show "moves E t w w'" using facts(1,8) cv_sameD [OF cs] facts(2)
    unfolding moves_def by (metis fun_upd_apply r_into_rtranclp)
  show "inner (mtx w') = inner (mtx w)" "now w' = now w" "timers w' = timers w" "token w u \<Longrightarrow> token w' u"
    using facts by simp_all
  show "if agents w' t = Idle then c = next else c = Next stay \<and> in_phase Letting (agents w' t)"
    using facts(3) c by auto
qed

lemma lock_again_moves:
  assumes "lock_again E t lm stay res w = (c, w')" "in_phase Taking (agents w t)"
  shows "moves E t w w'" "inner (mtx w') = inner (mtx w)" "cv_same w w'"
    "c = Return res \<and> agents w' t = Holding \<or> c = Panic \<or> c = Next stay \<and> in_phase Taking (agents w' t)"
proof -
  from assms(1) have w': "w' = relock_step E t lm w"
    and c: "c = (case agents w' t of Holding \<Rightarrow> Return res | Crashed \<Rightarrow> Panic | _ \<Rightarrow> Next stay)"
    by (auto simp: lock_again_def Let_def)
  note facts = relock_step_facts [OF assms(2) w']
  show cs: "cv_same w w'" using facts(5) by (rule cv_same_more)
  have "(mstep E)\<^sup>*\<^sup>* w w'" using facts(1) by auto
  then show "moves E t w w'" using facts(6) cv_sameD [OF cs] facts(2)
    unfolding moves_def by (metis fun_upd_apply)
  show "inner (mtx w') = inner (mtx w)" using facts by simp
  show "c = Return res \<and> agents w' t = Holding \<or> c = Panic \<or> c = Next stay \<and> in_phase Taking (agents w' t)"
    using facts(3) c by (cases "agents w' t") auto
qed

lemma park_moves:
  assumes "agents w t = Idle"
  shows "park E t w = (c, w') \<Longrightarrow> moves E t w w' \<and> agents w' = agents w \<and> mtx w' = mtx w"
    "park_until E t u w = (c, w') \<Longrightarrow> moves E t w w' \<and> agents w' = agents w \<and> mtx w' = mtx w"
  using mstep.other_park [of w t E] assms
  by (auto simp: park_def park_until_def moves_def split: if_splits)

lemma new_cont_moves:
  fixes w w' :: "('k, 'a, 'z) cworld_scheme"
  assumes "new_cont E w = (r, w')"
  shows "moves E t w w' \<and> agents w' = agents w \<and> mtx w' = mtx w"
proof -
  obtain k where k: "continuation E (conts w) = (r, k)" "w' = w\<lparr>conts := k\<rparr>"
    using assms by (auto simp: new_cont_def split: prod.splits)
  have "mstep E w w'" unfolding k(2) by (rule mstep.other_cont) (rule k(1))
  with k show ?thesis by (auto intro: moves_msteps)
qed

lemma finish_step_moves:
  assumes "finish_step E t p w = (c, w')" "in_phase (pc_phase p) (agents w t)"
  shows "moves E t w w' \<and> inner (mtx w') = inner (mtx w) \<and> phase_after c (agents w' t)"
proof (cases p)
  case (Relock lm ro)
  with assms lock_again_moves [of E t lm "Relock lm ro" ro w c w'] show ?thesis by auto
next
  case Unwinding
  with assms drop_guard_moves(1-3) [of E t Unwinding Panic w c w'] show ?thesis
    by (auto split: if_splits)
qed (use assms in auto)

lemma spin_end_other: "\<nexists>f ro. p = SRelock f ro \<Longrightarrow> spin_end E g t p w = finish_step E t p w"
  by (cases p) simp_all

lemma spin_end_moves:
  assumes "spin_end E g t p w = (c, w')" "in_phase (pc_phase p) (agents w t)"
  shows "moves E t w w' \<and> inner (mtx w') = inner (mtx w) \<and> phase_after c (agents w' t)"
proof (cases "\<exists>f ro. p = SRelock f ro")
  case True
  then obtain f ro where "p = SRelock f ro" by blast
  with assms lock_again_moves [of E t "lock_sync g" "SRelock f ro" ro w c w'] show ?thesis by auto
next
  case False
  with assms finish_step_moves [of E t p w c w'] show ?thesis by (simp add: spin_end_other)
qed

text \<open>A step that is neither the release nor the locking of the mutex.\<close>

definition step_facts :: "'k env \<Rightarrow> tid \<Rightarrow> wait_ctl \<Rightarrow> ('k, 'a, 'z) cworld_scheme \<Rightarrow> ('k, 'a, 'z) cworld_scheme \<Rightarrow> bool" where
  "step_facts E t c w w' \<longleftrightarrow> moves E t w w' \<and> inner (mtx w') = inner (mtx w) \<and> phase_after c (agents w' t)"

lemma drop_guard_facts:
  "drop_guard E t stay next w = (c, w') \<Longrightarrow> in_phase Letting (agents w t) \<Longrightarrow>
   pc_phase stay = Letting \<Longrightarrow> phase_after next Idle \<Longrightarrow> step_facts E t c w w'"
  using drop_guard_moves(1-3) [of E t stay "next" w c w'] by (auto simp: step_facts_def split: if_splits)

lemma finish_step_facts:
  "finish_step E t p w = (c, w') \<Longrightarrow> in_phase (pc_phase p) (agents w t) \<Longrightarrow> step_facts E t c w w'"
  using finish_step_moves [of E t p w c w'] by (simp add: step_facts_def)

lemma spin_end_facts:
  "spin_end E g t p w = (c, w') \<Longrightarrow> in_phase (pc_phase p) (agents w t) \<Longrightarrow> step_facts E t c w w'"
  using spin_end_moves [of E g t p w c w'] by (simp add: step_facts_def)

lemma still_facts: "phase_after c (agents w t) \<Longrightarrow> step_facts E t c w w"
  by (simp add: step_facts_def)

lemma same_facts:
  "moves E t w w' \<and> agents w' = agents w \<and> mtx w' = mtx w \<Longrightarrow> phase_after c (agents w t) \<Longrightarrow>
   step_facts E t c w w'"
  by (simp add: step_facts_def)

lemma other_facts:
  "mworld.truncate w' = mworld.truncate w \<Longrightarrow> ccalls w' = ccalls w \<Longrightarrow> phase_after c (agents w t) \<Longrightarrow>
   step_facts E t c w w'"
  by (frule truncate_eqD) (simp add: step_facts_def moves_other_state)

lemma push_new_flag_truncate:
  "push_new_flag w = (f, w') \<Longrightarrow> mworld.truncate w' = mworld.truncate w \<and> ccalls w' = ccalls w"
  by (auto simp: push_new_flag_def new_flag_def on_spin_def mworld.truncate_def split: prod.splits)

lemma fetch_waiter_id_truncate:
  "fetch_waiter_id w = (i, w') \<Longrightarrow> mworld.truncate w' = mworld.truncate w \<and> ccalls w' = ccalls w"
  by (auto simp: fetch_waiter_id_def mworld.truncate_def)

lemma wait_block_facts:
  assumes st: "wait_block_step E g t p w = (c, w')" and ph: "in_phase (pc_phase p) (agents w t)"
  shows "step_facts E t c w w'"
proof (cases p)
  case BPush
  with st ph show ?thesis by (auto intro!: same_facts moves_on_list)
next
  case BRelease
  with st ph show ?thesis by (auto intro!: drop_guard_facts)
next
  case BPark
  with st ph show ?thesis
    by (auto dest!: park_moves(1) [rotated] intro!: same_facts split: prod.splits ctl.splits)
qed (use st ph finish_step_facts [of E t p w c w'] in auto)

lemma wait_block_timeout_facts:
  assumes st: "wait_block_timeout_step E g t d p w = (c, w')" and ph: "in_phase (pc_phase p) (agents w t)"
  shows "step_facts E t c w w'"
proof (cases p)
  case BPush
  with st ph show ?thesis by (auto intro!: same_facts moves_on_list)
next
  case BRelease
  with st ph show ?thesis by (auto intro!: drop_guard_facts)
next
  case BNow
  with st ph show ?thesis by (auto intro!: still_facts)
next
  case BRemove
  with st ph show ?thesis
    by (auto dest!: on_list_moves(1) [where t = t and E = E] intro!: same_facts split: prod.splits option.splits)
next
  case (BCall n)
  with st ph show ?thesis by (auto intro!: still_facts)
next
  case (BParkT u)
  with st ph show ?thesis
    by (auto dest!: park_moves(2) [rotated] intro!: same_facts split: prod.splits ctl.splits)
next
  case BCheck
  with st ph show ?thesis
    by (auto dest!: on_list_moves(1) [where t = t and E = E] intro!: same_facts split: prod.splits if_splits)
qed (use st ph finish_step_facts [of E t p w c w'] in auto)

lemma wait_spin_facts:
  assumes st: "wait_spin_step E g t p w = (c, w')" and ph: "in_phase (pc_phase p) (agents w t)"
  shows "step_facts E t c w w'"
proof (cases p)
  case SPush
  with st ph show ?thesis by (auto dest!: push_new_flag_truncate intro!: other_facts split: prod.splits)
next
  case (SRelease f)
  with st ph show ?thesis by (auto intro!: drop_guard_facts)
next
  case (SLoad f)
  with st ph show ?thesis by (auto intro!: still_facts)
qed (use st ph spin_end_facts [of E g t p w c w'] in auto)

lemma wait_spin_timeout_facts:
  assumes st: "wait_spin_timeout_step E g t d p w = (c, w')" and ph: "in_phase (pc_phase p) (agents w t)"
  shows "step_facts E t c w w'"
proof (cases p)
  case SPush
  with st ph show ?thesis by (auto dest!: push_new_flag_truncate intro!: other_facts split: prod.splits)
next
  case (SRelease f)
  with st ph show ?thesis by (auto intro!: drop_guard_facts)
next
  case (SLoad f)
  with st ph show ?thesis by (auto intro!: still_facts)
next
  case (SNow f)
  with st ph show ?thesis by (auto intro!: still_facts)
next
  case (SRemove f)
  with st ph show ?thesis
    by (auto dest!: on_list_moves(3) [where t = t and E = E] intro!: same_facts split: prod.splits option.splits)
next
  case (SLast f)
  with st ph show ?thesis by (auto intro!: still_facts)
qed (use st ph spin_end_facts [of E g t p w c w'] in auto)

text \<open>The async waits send and make continuations, so they need to know that no sender on the
  list belongs to a timeout thread.\<close>

definition list_senders :: "('k, 'a, 'z) cworld_scheme \<Rightarrow> cont_id set" where
  "list_senders w = waiter_sender ` set (sl_data (cv_waiting_async_threads (cv w)))"

lemma wait_async_facts:
  assumes st: "wait_async_step E t p w = (c, w')" and ph: "in_phase (pc_phase p) (agents w t)"
  shows "step_facts E t c w w'"
proof (cases p)
  case APush
  obtain r w1 where w1: "new_cont E w = (r, w1)" by force
  obtain i w2 where w2: "fetch_waiter_id w1 = (i, w2)" by force
  note f1 = new_cont_moves [OF w1, of t] and f2 = fetch_waiter_id_truncate [OF w2]
  have "moves E t w1 w2" using f2 by (blast intro: moves_other_state)
  with f1 have "moves E t w w2" by (blast intro: moves_trans)
  moreover have w': "w' = snd (on_async (push_handle \<lparr>waiter_id = i, waiter_sender = r\<rparr>) w2)" "c = Next (ARelease r)"
    using st APush w1 w2 by auto
  ultimately have "moves E t w w'" using moves_on_list(2) moves_trans by blast
  then show ?thesis using f1 truncate_eqD [OF conjunct1 [OF f2]] w' ph APush
    by (simp add: step_facts_def)
next
  case (ARelease r)
  with st ph show ?thesis by (auto intro!: drop_guard_facts)
next
  case (AAwait r)
  with st ph show ?thesis by (auto intro!: still_facts)
qed (use st ph finish_step_facts [of E t p w c w'] in auto)

lemma wait_async_timeout_facts:
  assumes st: "wait_async_timeout_step E t d p w = (c, w')" and ph: "in_phase (pc_phase p) (agents w t)"
    and tm: "list_senders w \<inter> snd ` set (timers w) = {}"
  shows "step_facts E t c w w'"
proof (cases p)
  case AId
  with st ph show ?thesis by (auto dest!: fetch_waiter_id_truncate intro!: other_facts split: prod.splits)
next
  case (ACont i)
  with st ph show ?thesis
    by (auto dest!: new_cont_moves [where t = t] intro!: same_facts split: prod.splits)
next
  case (APushT i r)
  with st ph show ?thesis by (auto intro!: same_facts moves_on_list)
next
  case (ASpawn i r)
  obtain q k where k: "continuation E (conts w) = (q, k)" by force
  have "mstep E w (w\<lparr>conts := k, timers := (d, q) # timers w\<rparr>)" "mstep E w (w\<lparr>conts := k\<rparr>)"
    using k by (auto intro: mstep.other_timer mstep.other_cont)
  with st ph k ASpawn show ?thesis
    by (auto simp: new_cont_def intro!: same_facts moves_msteps split: if_splits)
next
  case (AReleaseT i r q)
  with st ph show ?thesis by (auto intro!: drop_guard_facts)
next
  case (ANotify i r q)
  with st ph show ?thesis by (auto intro!: still_facts)
next
  case (ATimeout i r q)
  with st ph show ?thesis by (auto intro!: still_facts)
next
  case (ARemove i)
  define P where "P = (\<lambda>x :: async_waiter. waiter_id x = i)"
  obtain x w1 where w1: "on_async (remove_handle P) w = (x, w1)" by force
  note f1 = on_list_moves(2) [OF w1, of E t]
  have w1': "w1 = snd (on_async (remove_handle P) w)" using w1 by simp
  have c: "c = Next (Relock LockAsync (Some (WaitTimeoutResult True)))"
    and w': "w' = (case x of Some a \<Rightarrow> send_to E (waiter_sender a) w1 | None \<Rightarrow> w1)"
    using st ARemove w1 by (auto simp: P_def)
  show ?thesis
  proof (cases x)
    case None
    with c w' f1 ph ARemove show ?thesis by (auto intro!: same_facts)
  next
    case (Some a)
    then have "waiter_sender a \<in> list_senders w"
      using w1 by (auto simp: on_async_def with_mut_atomic_def remove_handle_def list_senders_def
          split: prod.splits option.splits dest!: vec_position_SomeD)
    with tm have "waiter_sender a \<notin> snd ` set (timers w1)" unfolding w1' by auto
    then have "mstep E w1 w'" using w' Some by (auto intro: mstep.other_send)
    then have "moves E t w1 w'" using w' Some by (intro moves_msteps) (auto simp: send_to_def)
    with f1 have "moves E t w w'" by (blast intro: moves_trans)
    with f1 w' Some c ph ARemove show ?thesis by (auto simp: step_facts_def send_to_def)
  qed
qed (use st ph finish_step_facts [of E t p w c w'] in auto)

lemma wait_step_facts:
  assumes "wait_step E g t op p w = (c, w')" "in_phase (pc_phase p) (agents w t)"
    and "list_senders w \<inter> snd ` set (timers w) = {}"
  shows "step_facts E t c w w'"
  using assms
  by (cases op) (auto intro: wait_block_facts wait_block_timeout_facts wait_spin_facts
      wait_spin_timeout_facts wait_async_facts wait_async_timeout_facts)

section \<open>Deadlines and results\<close>

fun op_deadline :: "wait_op \<Rightarrow> instant option" where
  "op_deadline (WaitBlockTimeout d) = Some d"
| "op_deadline (WaitSpinTimeout d) = Some d"
| "op_deadline (WaitAsyncTimeout d) = Some d"
| "op_deadline _ = None"

definition overdue :: "('k, 'z) os_scheme \<Rightarrow> wait_op \<Rightarrow> bool" where
  "overdue w op \<longleftrightarrow> (\<exists>d. op_deadline op = Some d \<and> d \<le> now w)"

text \<open>A wait without a deadline returns only the guard; one with a deadline reports a timeout
  only when the deadline is over.\<close>

definition result_ok :: "('k, 'z) os_scheme \<Rightarrow> wait_op \<Rightarrow> wait_timeout_result option \<Rightarrow> bool" where
  "result_ok w op ro \<longleftrightarrow> (ro = None \<longleftrightarrow> op_deadline op = None) \<and>
     (\<forall>r. ro = Some r \<longrightarrow> timed_out r \<longrightarrow> overdue w op)"

fun wpc_ok :: "'k env \<Rightarrow> ('k, 'z) os_scheme \<Rightarrow> wait_op \<Rightarrow> wait_pc \<Rightarrow> bool" where
  "wpc_ok E w op (Relock lm ro) = result_ok w op ro"
| "wpc_ok E w op (SRelock f ro) = result_ok w op ro"
| "wpc_ok E w op BRemove = overdue w op"
| "wpc_ok E w op (SRemove f) = overdue w op"
| "wpc_ok E w op (ARemove i) = overdue w op"
| "wpc_ok E w op (ARelease r) = is_live E (conts w) r"
| "wpc_ok E w op (AAwait r) = is_live E (conts w) r"
| "wpc_ok E w op (APushT i r) = is_live E (conts w) r"
| "wpc_ok E w op (ASpawn i r) = is_live E (conts w) r"
| "wpc_ok E w op (AReleaseT i r q) = (is_live E (conts w) r \<and> (\<exists>d. op_deadline op = Some d \<and> polling E w d q))"
| "wpc_ok E w op (ANotify i r q) = (is_live E (conts w) r \<and> (\<exists>d. op_deadline op = Some d \<and> polling E w d q))"
| "wpc_ok E w op (ATimeout i r q) = (is_live E (conts w) r \<and> (\<exists>d. op_deadline op = Some d \<and> polling E w d q))"
| "wpc_ok E w op _ = True"

fun wpc_after :: "'k env \<Rightarrow> ('k, 'z) os_scheme \<Rightarrow> wait_op \<Rightarrow> wait_ctl \<Rightarrow> bool" where
  "wpc_after E w op (Next p) = wpc_ok E w op p"
| "wpc_after E w op (Return ro) = result_ok w op ro"
| "wpc_after E w op Panic = True"

lemma overdue_mono: "os_keeps E w w' \<Longrightarrow> overdue w op \<Longrightarrow> overdue w' op"
  by (auto simp: os_keeps_def overdue_def)

lemma result_ok_mono: "os_keeps E w w' \<Longrightarrow> result_ok w op ro \<Longrightarrow> result_ok w' op ro"
  unfolding result_ok_def using overdue_mono by blast

lemma wpc_ok_mono: "os_keeps E w w' \<Longrightarrow> wpc_ok E w op p \<Longrightarrow> wpc_ok E w' op p"
  by (cases p) (auto intro: overdue_mono result_ok_mono, auto simp: os_keeps_def)

lemma entry_wpc_ok: "wpc_ok E w op (wait_entry op)" "in_phase (pc_phase (wait_entry op)) Holding"
  by (cases op; simp)+

lemma drop_guard_wpc:
  "drop_guard E t stay next w = (c, w') \<Longrightarrow> wpc_ok E w' op stay \<Longrightarrow> wpc_after E w' op next \<Longrightarrow> wpc_after E w' op c"
  by (auto simp: drop_guard_def Let_def split: if_splits)

lemma lock_again_wpc:
  "lock_again E t lm stay ro w = (c, w') \<Longrightarrow> wpc_ok E w' op stay \<Longrightarrow> result_ok w' op ro \<Longrightarrow> wpc_after E w' op c"
  by (auto simp: lock_again_def Let_def split: mpc.splits)

lemma finish_step_wpc:
  "finish_step E t p w = (c, w') \<Longrightarrow> os_keeps E w w' \<Longrightarrow> wpc_ok E w op p \<Longrightarrow> wpc_after E w' op c"
proof (cases p)
  case (Relock lm ro)
  assume st: "finish_step E t p w = (c, w')" and k: "os_keeps E w w'" and ok: "wpc_ok E w op p"
  from Relock ok result_ok_mono [OF k] have "result_ok w' op ro" by simp
  with st Relock show ?thesis using lock_again_wpc [of E t lm "Relock lm ro" ro w c w' op] by simp
qed (auto dest: wpc_ok_mono intro: drop_guard_wpc overdue_mono)

lemma spin_end_wpc:
  "spin_end E g t p w = (c, w') \<Longrightarrow> os_keeps E w w' \<Longrightarrow> wpc_ok E w op p \<Longrightarrow> wpc_after E w' op c"
proof (cases "\<exists>f ro. p = SRelock f ro")
  case True
  assume st: "spin_end E g t p w = (c, w')" and k: "os_keeps E w w'" and ok: "wpc_ok E w op p"
  from True obtain f ro where p: "p = SRelock f ro" by blast
  with ok result_ok_mono [OF k] have "result_ok w' op ro" by simp
  with st p show ?thesis using lock_again_wpc [of E t "lock_sync g" "SRelock f ro" ro w c w' op] by simp
qed (auto simp: spin_end_other intro: finish_step_wpc)

lemma wait_block_wpc:
  assumes st: "wait_block_step E g t p w = (c, w')" and k: "os_keeps E w w'" and ok: "wpc_ok E w WaitBlock p"
  shows "wpc_after E w' WaitBlock c"
proof (cases p)
  case BRelease
  with st show ?thesis by (auto intro: drop_guard_wpc)
qed (use st ok finish_step_wpc [of E t p w c w', OF _ k ok] in
    \<open>auto simp: result_ok_def park_def split: prod.splits ctl.splits if_splits\<close>)

lemma wait_block_timeout_wpc:
  assumes st: "wait_block_timeout_step E g t d p w = (c, w')" and k: "os_keeps E w w'"
    and ok: "wpc_ok E w (WaitBlockTimeout d) p"
  shows "wpc_after E w' (WaitBlockTimeout d) c"
proof (cases p)
  case BRelease
  with st show ?thesis by (auto intro: drop_guard_wpc)
next
  case BRemove
  then have "overdue w' (WaitBlockTimeout d)" using ok overdue_mono [OF k] by simp
  with st BRemove show ?thesis by (auto simp: result_ok_def split: prod.splits option.splits)
qed (use st ok finish_step_wpc [of E t p w c w', OF _ k ok] in
    \<open>auto simp: result_ok_def overdue_def park_until_def split: prod.splits ctl.splits if_splits\<close>)

lemma wait_spin_wpc:
  assumes st: "wait_spin_step E g t p w = (c, w')" and k: "os_keeps E w w'" and ok: "wpc_ok E w WaitSpin p"
  shows "wpc_after E w' WaitSpin c"
proof (cases p)
  case (SRelease f)
  with st show ?thesis by (auto intro: drop_guard_wpc)
qed (use st ok spin_end_wpc [of E g t p w c w', OF _ k ok] in
    \<open>auto simp: result_ok_def split: prod.splits if_splits\<close>)

lemma wait_spin_timeout_wpc:
  assumes st: "wait_spin_timeout_step E g t d p w = (c, w')" and k: "os_keeps E w w'"
    and ok: "wpc_ok E w (WaitSpinTimeout d) p"
  shows "wpc_after E w' (WaitSpinTimeout d) c"
proof (cases p)
  case (SRelease f)
  with st show ?thesis by (auto intro: drop_guard_wpc)
next
  case (SRemove f)
  then have "overdue w' (WaitSpinTimeout d)" using ok overdue_mono [OF k] by simp
  with st SRemove show ?thesis by (auto simp: result_ok_def split: prod.splits option.splits)
qed (use st ok spin_end_wpc [of E g t p w c w', OF _ k ok] in
    \<open>auto simp: result_ok_def overdue_def split: prod.splits if_splits\<close>)

lemma new_cont_live:
  fixes w w' :: "('k, 'z) os_scheme"
  shows "new_cont E w = (r, w') \<Longrightarrow> cont_ok E \<Longrightarrow> is_live E (conts w') r \<and> \<not> is_ready E (conts w') r"
  by (auto simp: new_cont_def cont_ok_new(2,3) split: prod.splits)

lemma wait_async_wpc:
  assumes st: "wait_async_step E t p w = (c, w')" and k: "os_keeps E w w'" and ok: "wpc_ok E w WaitAsync p"
    and E: "cont_ok E"
  shows "wpc_after E w' WaitAsync c"
proof (cases p)
  case APush
  obtain r w1 where w1: "new_cont E w = (r, w1)" by force
  with st APush have "c = Next (ARelease r)" "conts w' = conts w1"
    by (auto simp: fetch_waiter_id_def)
  with new_cont_live [OF w1 E] show ?thesis by simp
next
  case (ARelease r)
  from wpc_ok_mono [OF k ok] ARelease have "wpc_ok E w' WaitAsync (ARelease r)" by simp
  moreover from this have "wpc_after E w' WaitAsync (Next (AAwait r))" by simp
  ultimately show ?thesis 
    using drop_guard_wpc [of E t "ARelease r" "Next (AAwait r)" w c w' WaitAsync] st ARelease by simp
next
  case (AAwait r)
  from wpc_ok_mono [OF k ok] AAwait st show ?thesis by (auto simp: result_ok_def)
qed (use st ok finish_step_wpc [of E t p w c w', OF _ k ok] in
    \<open>auto simp: result_ok_def split: prod.splits if_splits\<close>)

lemma wait_async_timeout_wpc:
  assumes st: "wait_async_timeout_step E t d p w = (c, w')" and k: "os_keeps E w w'"
    and ok: "wpc_ok E w (WaitAsyncTimeout d) p" and E: "cont_ok E"
  shows "wpc_after E w' (WaitAsyncTimeout d) c"
proof (cases p)
  case (ACont i)
  obtain r w1 where w1: "new_cont E w = (r, w1)" by force
  with st ACont have "c = Next (APushT i r)" "w' = w1" by auto
  with new_cont_live [OF w1 E] show ?thesis by simp
next
  case (APushT i r)
  from wpc_ok_mono [OF k ok] APushT st show ?thesis by auto
next
  case (ASpawn i r)
  obtain q w1 where w1: "new_cont E w = (q, w1)" by force
  from wpc_ok_mono [OF k ok] ASpawn have "is_live E (conts w') r" by simp
  moreover have "if can_spawn E then c = Next (AReleaseT i r q) \<and> w' = w1\<lparr>timers := (d, q) # timers w1\<rparr>
      else c = Next Unwinding" using st ASpawn w1 by (auto split: if_splits)
  ultimately show ?thesis using new_cont_live [OF w1 E] by (auto simp: polling_def split: if_splits)
next
  case (AReleaseT i r q)
  from wpc_ok_mono [OF k ok] AReleaseT have "wpc_ok E w' (WaitAsyncTimeout d) (AReleaseT i r q)" by simp
  moreover from this have "wpc_after E w' (WaitAsyncTimeout d) (Next (ANotify i r q))" by simp
  ultimately show ?thesis 
    using drop_guard_wpc [of E t "AReleaseT i r q" "Next (ANotify i r q)" w c w' "WaitAsyncTimeout d"]
      st AReleaseT by simp
next
  case (ANotify i r q)
  from wpc_ok_mono [OF k ok] ANotify st show ?thesis by (auto simp: result_ok_def)
next
  case (ATimeout i r q)
  with st ok show ?thesis by (auto simp: polling_def overdue_def)
next
  case (ARemove i)
  then have "overdue w' (WaitAsyncTimeout d)" using ok overdue_mono [OF k] by simp
  with st ARemove show ?thesis by (auto simp: result_ok_def split: prod.splits option.splits)
qed (use st ok finish_step_wpc [of E t p w c w', OF _ k ok] in
    \<open>auto simp: result_ok_def split: prod.splits if_splits\<close>)

lemma wait_step_wpc:
  assumes "wait_step E g t op p w = (c, w')" "os_keeps E w w'" "wpc_ok E w op p" "cont_ok E"
  shows "wpc_after E w' op c"
  using assms
  by (cases op) (auto intro: wait_block_wpc wait_block_timeout_wpc wait_spin_wpc
      wait_spin_timeout_wpc wait_async_wpc wait_async_timeout_wpc)

section \<open>Senders outside the mutex\<close>

text \<open>The notification senders of the condition variable: on the list, in the hand of a
  notifier, or made and not yet pushed.\<close>

fun pc_senders :: "wait_pc \<Rightarrow> cont_id set" where
  "pc_senders (APushT i r) = {r}"
| "pc_senders p = {}"

fun ctl_senders :: "wait_ctl \<Rightarrow> cont_id set" where
  "ctl_senders (Next p) = pc_senders p"
| "ctl_senders c = {}"

fun call_senders :: "'a ccall \<Rightarrow> cont_id set" where
  "call_senders (Waiting op p) = pc_senders p"
| "call_senders (Looping op f (LWait p)) = pc_senders p"
| "call_senders (Notifying (OneSend a)) = {waiter_sender a}"
| "call_senders (Notifying (AllSend xs)) = waiter_sender ` set xs"
| "call_senders c = {}"

definition cv_senders :: "('k, 'a, 'z) cworld_scheme \<Rightarrow> cont_id set" where
  "cv_senders w = list_senders w \<union> (\<Union>t. call_senders (ccalls w t))"

lemma list_senders_simps [simp]:
  "list_senders (snd (on_sync f w)) = list_senders w"
  "list_senders (snd (on_spin fs w)) = list_senders w"
  "list_senders (snd (on_async (push_handle a) w)) = insert (waiter_sender a) (list_senders w)"
  "list_senders (set_call t c w) = list_senders w"
  "list_senders (w\<lparr>token := k\<rparr>) = list_senders w"
  "list_senders (w\<lparr>conts := ks\<rparr>) = list_senders w"
  "list_senders (w\<lparr>conts := ks, timers := ts\<rparr>) = list_senders w"
  "list_senders (w\<lparr>conts := ks, waiter_ids := ids\<rparr>) = list_senders w"
  by (auto simp: list_senders_def on_sync_def on_async_def on_spin_def push_handle_def
      with_mut_atomic_def set_call_def split: prod.splits)

lemma list_senders_cv: "cv w' = cv w \<Longrightarrow> list_senders w' = list_senders w"
  by (simp add: list_senders_def)

lemma drop_guard_senders:
  "drop_guard E t stay next w = (c, w') \<Longrightarrow> in_phase Letting (agents w t) \<Longrightarrow> list_senders w' = list_senders w"
  by (rule list_senders_cv) (auto dest: drop_guard_moves(4) cv_sameD)

lemma lock_again_senders:
  "lock_again E t lm stay ro w = (c, w') \<Longrightarrow> in_phase Taking (agents w t) \<Longrightarrow> list_senders w' = list_senders w"
  by (rule list_senders_cv) (auto dest: lock_again_moves(3) cv_sameD)

lemma ctl_senders_ends:
  "drop_guard E t stay next w = (c, w') \<Longrightarrow> ctl_senders (Next stay) = {} \<Longrightarrow> ctl_senders next = {} \<Longrightarrow> ctl_senders c = {}"
  "lock_again E t lm stay ro w = (c, w') \<Longrightarrow> ctl_senders (Next stay) = {} \<Longrightarrow> ctl_senders c = {}"
  by (auto simp: drop_guard_def lock_again_def Let_def split: if_splits mpc.splits)

definition same_senders :: "wait_pc \<Rightarrow> ('k, 'a, 'z) cworld_scheme \<Rightarrow> wait_ctl \<Rightarrow> ('k, 'a, 'z) cworld_scheme \<Rightarrow> bool" where
  "same_senders p w c w' \<longleftrightarrow> list_senders w' \<union> ctl_senders c \<subseteq> list_senders w \<union> pc_senders p"

definition new_sender :: "'k env \<Rightarrow> ('k, 'a, 'z) cworld_scheme \<Rightarrow> wait_ctl \<Rightarrow> ('k, 'a, 'z) cworld_scheme \<Rightarrow> bool" where
  "new_sender E w c w' \<longleftrightarrow> (\<exists>r k. continuation E (conts w) = (r, k) \<and> conts w' = k \<and> timers w' = timers w \<and>
     now w' = now w \<and> agents w' = agents w \<and> mtx w' = mtx w \<and>
     list_senders w' \<union> ctl_senders c \<subseteq> insert r (list_senders w))"

lemma same_sendersI: "list_senders w' = list_senders w \<Longrightarrow> ctl_senders c = {} \<Longrightarrow> same_senders p w c w'"
  by (simp add: same_senders_def)

lemma drop_guard_same_senders:
  "drop_guard E t stay next w = (c, w') \<Longrightarrow> in_phase Letting (agents w t) \<Longrightarrow>
   ctl_senders (Next stay) = {} \<Longrightarrow> ctl_senders next = {} \<Longrightarrow> same_senders p w c w'"
  using drop_guard_senders ctl_senders_ends(1) unfolding same_senders_def by fastforce

lemma lock_again_same_senders:
  "lock_again E t lm stay ro w = (c, w') \<Longrightarrow> in_phase Taking (agents w t) \<Longrightarrow>
   ctl_senders (Next stay) = {} \<Longrightarrow> same_senders p w c w'"
  using lock_again_senders ctl_senders_ends(2) unfolding same_senders_def by fastforce

lemma finish_step_senders:
  "finish_step E t p w = (c, w') \<Longrightarrow> in_phase (pc_phase p) (agents w t) \<Longrightarrow> same_senders p w c w'"
proof (cases p)
  case (Relock lm ro)
  assume "finish_step E t p w = (c, w')" "in_phase (pc_phase p) (agents w t)"
  with Relock show ?thesis by (auto intro!: lock_again_same_senders)
next
  case Unwinding
  assume "finish_step E t p w = (c, w')" "in_phase (pc_phase p) (agents w t)"
  with Unwinding show ?thesis by (auto intro!: drop_guard_same_senders)
qed (auto simp: same_senders_def)

lemma spin_end_senders:
  "spin_end E g t p w = (c, w') \<Longrightarrow> in_phase (pc_phase p) (agents w t) \<Longrightarrow> same_senders p w c w'"
  by (cases "\<exists>f ro. p = SRelock f ro")
    (auto simp: spin_end_other finish_step_senders intro!: lock_again_same_senders)

lemma park_senders:
  fixes w w' :: "('k, 'a, 'z) cworld_scheme"
  shows "park E t w = (x, w') \<Longrightarrow> list_senders w' = list_senders w"
    "park_until E t u w = (x, w') \<Longrightarrow> list_senders w' = list_senders w"
  by (auto simp: park_def park_until_def split: if_splits)

lemma on_list_senders:
  "on_sync f w = (x, w') \<Longrightarrow> list_senders w' = list_senders w"
  "on_spin fs w = (y, w') \<Longrightarrow> list_senders w' = list_senders w"
  by (metis list_senders_simps(1) snd_conv, metis list_senders_simps(2) snd_conv)

lemma push_new_flag_senders: "push_new_flag w = (f, w') \<Longrightarrow> list_senders w' = list_senders w"
  by (auto simp: push_new_flag_def new_flag_def on_spin_def list_senders_def split: prod.splits)

lemma wait_block_senders:
  assumes "wait_block_step E g t p w = (c, w')" "in_phase (pc_phase p) (agents w t)"
  shows "same_senders p w c w'"
proof (cases p)
  case BRelease
  with assms show ?thesis by (auto intro!: drop_guard_same_senders)
qed (use assms finish_step_senders [of E t p w c w'] in
    \<open>auto intro!: same_sendersI dest: park_senders
      split: prod.splits ctl.splits option.splits if_splits\<close>)

lemma wait_block_timeout_senders:
  assumes "wait_block_timeout_step E g t d p w = (c, w')" "in_phase (pc_phase p) (agents w t)"
  shows "same_senders p w c w'"
proof (cases p)
  case BRelease
  with assms show ?thesis by (auto intro!: drop_guard_same_senders)
qed (use assms finish_step_senders [of E t p w c w'] in
    \<open>auto intro!: same_sendersI dest: park_senders on_list_senders
      split: prod.splits ctl.splits option.splits if_splits\<close>)

lemma wait_spin_senders:
  assumes "wait_spin_step E g t p w = (c, w')" "in_phase (pc_phase p) (agents w t)"
  shows "same_senders p w c w'"
proof (cases p)
  case (SRelease f)
  with assms show ?thesis by (auto intro!: drop_guard_same_senders)
qed (use assms spin_end_senders [of E g t p w c w'] in
    \<open>auto intro!: same_sendersI dest: push_new_flag_senders
      split: prod.splits ctl.splits option.splits if_splits\<close>)

lemma wait_spin_timeout_senders:
  assumes "wait_spin_timeout_step E g t d p w = (c, w')" "in_phase (pc_phase p) (agents w t)"
  shows "same_senders p w c w'"
proof (cases p)
  case (SRelease f)
  with assms show ?thesis by (auto intro!: drop_guard_same_senders)
qed (use assms spin_end_senders [of E g t p w c w'] in
    \<open>auto intro!: same_sendersI dest: push_new_flag_senders on_list_senders
      split: prod.splits ctl.splits option.splits if_splits\<close>)

lemma wait_async_senders:
  assumes "wait_async_step E t p w = (c, w')" "in_phase (pc_phase p) (agents w t)"
  shows "same_senders p w c w' \<or> new_sender E w c w'"
proof (cases p)
  case APush
  with assms show ?thesis
    by (auto simp: new_sender_def new_cont_def fetch_waiter_id_def split: prod.splits)
next
  case (ARelease r)
  with assms show ?thesis by (auto intro!: drop_guard_same_senders)
next
  case (AAwait r)
  with assms show ?thesis by (auto intro!: same_sendersI split: if_splits)
qed (use assms finish_step_senders [of E t p w c w'] in \<open>auto simp: same_senders_def\<close>)

lemma wait_async_timeout_senders:
  assumes "wait_async_timeout_step E t d p w = (c, w')" "in_phase (pc_phase p) (agents w t)"
  shows "same_senders p w c w' \<or> new_sender E w c w'"
proof (cases p)
  case AId
  with assms show ?thesis by (auto simp: same_senders_def fetch_waiter_id_def list_senders_def)
next
  case (ACont i)
  with assms show ?thesis by (auto simp: new_sender_def new_cont_def split: prod.splits)
next
  case (ASpawn i r)
  with assms show ?thesis by (auto simp: same_senders_def new_cont_def split: prod.splits if_splits)
next
  case (AReleaseT i r q)
  with assms show ?thesis by (auto intro!: drop_guard_same_senders)
next
  case (ARemove i)
  with assms show ?thesis
    by (auto simp: same_senders_def on_async_def remove_handle_def with_mut_atomic_def list_senders_def
        send_to_def split: prod.splits option.splits intro!: imageI dest: set_vec_remove_subset [THEN subsetD])
qed (use assms finish_step_senders [of E t p w c w'] in \<open>auto simp: same_senders_def split: if_splits\<close>)

lemma wait_step_senders:
  "wait_step E g t op p w = (c, w') \<Longrightarrow> in_phase (pc_phase p) (agents w t) \<Longrightarrow>
   same_senders p w c w' \<or> new_sender E w c w'"
  by (cases op) (auto intro: wait_block_senders wait_block_timeout_senders wait_spin_senders
      wait_spin_timeout_senders dest: wait_async_senders wait_async_timeout_senders)

fun npc_senders :: "notify_pc \<Rightarrow> cont_id set" where
  "npc_senders (OneSend a) = {waiter_sender a}"
| "npc_senders (AllSend xs) = waiter_sender ` set xs"
| "npc_senders p = {}"

fun nctl_senders :: "notify_ctl \<Rightarrow> cont_id set" where
  "nctl_senders (Next p) = npc_senders p"
| "nctl_senders c = {}"

lemma call_senders_notifying [simp]: "call_senders (Notifying p) = npc_senders p"
  by (cases p) auto

lemma on_list_msteps:
  "(mstep E)\<^sup>*\<^sup>* w (snd (on_sync f w))" "(mstep E)\<^sup>*\<^sup>* w (snd (on_async fa w))"
  "(mstep E)\<^sup>*\<^sup>* w (snd (on_spin fs w))"
  by (rule r_into_rtranclp, rule mstep.other_state, simp)+

lemma on_list_facts:
  "on_sync f w = (x, w') \<Longrightarrow> (mstep E)\<^sup>*\<^sup>* w w' \<and> agents w' = agents w \<and> mtx w' = mtx w \<and>
     ccalls w' = ccalls w \<and> token w' = token w \<and> list_senders w' = list_senders w"
  "on_spin fs w = (z, w') \<Longrightarrow> (mstep E)\<^sup>*\<^sup>* w w' \<and> agents w' = agents w \<and> mtx w' = mtx w \<and>
     ccalls w' = ccalls w \<and> token w' = token w \<and> list_senders w' = list_senders w"
  "on_async fa w = (y, w') \<Longrightarrow> (mstep E)\<^sup>*\<^sup>* w w' \<and> agents w' = agents w \<and> mtx w' = mtx w \<and>
     ccalls w' = ccalls w \<and> token w' = token w"
proof -
  assume "on_sync f w = (x, w')"
  then have "w' = snd (on_sync f w)" by simp
  then show "(mstep E)\<^sup>*\<^sup>* w w' \<and> agents w' = agents w \<and> mtx w' = mtx w \<and>
     ccalls w' = ccalls w \<and> token w' = token w \<and> list_senders w' = list_senders w"
    by (simp add: on_list_msteps)
next
  assume "on_spin fs w = (z, w')"
  then have "w' = snd (on_spin fs w)" by simp
  then show "(mstep E)\<^sup>*\<^sup>* w w' \<and> agents w' = agents w \<and> mtx w' = mtx w \<and>
     ccalls w' = ccalls w \<and> token w' = token w \<and> list_senders w' = list_senders w"
    by (simp add: on_list_msteps)
next
  assume "on_async fa w = (y, w')"
  then have "w' = snd (on_async fa w)" by simp
  then show "(mstep E)\<^sup>*\<^sup>* w w' \<and> agents w' = agents w \<and> mtx w' = mtx w \<and>
     ccalls w' = ccalls w \<and> token w' = token w"
    by (simp add: on_list_msteps)
qed

lemma notify_step_facts:
  assumes st: "notify_step E p w = (c, w')"
    and tm: "(list_senders w \<union> npc_senders p) \<inter> snd ` set (timers w) = {}"
  shows "(mstep E)\<^sup>*\<^sup>* w w'" "agents w' = agents w" "mtx w' = mtx w" "ccalls w' = ccalls w"
    "token w u \<Longrightarrow> token w' u" "list_senders w' \<union> nctl_senders c \<subseteq> list_senders w \<union> npc_senders p"
    "c \<noteq> Panic"
proof -
  have send: "waiter_sender a \<notin> snd ` set (timers w) \<Longrightarrow> mstep E w (send_to E (waiter_sender a) w)" for a
    by (rule mstep.other_send)
  have "(mstep E)\<^sup>*\<^sup>* w w' \<and> agents w' = agents w \<and> mtx w' = mtx w \<and> ccalls w' = ccalls w \<and>
    (\<forall>u. token w u \<longrightarrow> token w' u) \<and> list_senders w' \<union> nctl_senders c \<subseteq> list_senders w \<union> npc_senders p \<and> c \<noteq> Panic"
  proof (cases p)
    case (OneStore f)
    with st show ?thesis
      by (auto simp: notify_step_def set_flag_def list_senders_def mworld.truncate_def intro!: mstep.other_state)
  next
    case (AllStore fs)
    with st show ?thesis
      by (cases fs) (auto simp: notify_step_def set_flag_def list_senders_def mworld.truncate_def intro!: mstep.other_state)
  next
    case (OneUnpark h)
    with st show ?thesis
      by (auto simp: notify_step_def unpark_def intro: mstep.other_unpark [unfolded unpark_def])
  next
    case (AllUnpark hs)
    with st show ?thesis
      by (cases hs) (auto simp: notify_step_def unpark_def intro: mstep.other_unpark [unfolded unpark_def])
  next
    case (OneSend a)
    with st tm send show ?thesis
      by (auto simp: notify_step_def send_to_def list_senders_def)
  next
    case (AllSend xs)
    with st tm send show ?thesis
      by (cases xs) (auto simp: notify_step_def send_to_def list_senders_def)
  next
    case OneAsync
    obtain x w1 where w1: "on_async vec_pop w = (x, w1)" by force
    then have "list_senders w1 \<union> (case x of Some a \<Rightarrow> {waiter_sender a} | None \<Rightarrow> {}) \<subseteq> list_senders w"
      by (auto simp: on_async_def with_mut_atomic_def vec_pop_def list_senders_def split: if_splits intro!: imageI dest: in_set_butlastD)
    with w1 on_list_facts(3) [OF w1, of E] st OneAsync
    show ?thesis by (auto simp: notify_step_def split: option.splits)
  next
    case AllAsync
    obtain x w1 where w1: "on_async mem_take w = (x, w1)" by force
    then have "list_senders w1 \<union> waiter_sender ` set x \<subseteq> list_senders w"
      by (auto simp: on_async_def with_mut_atomic_def mem_take_def list_senders_def)
    with w1 on_list_facts(3) [OF w1, of E] st AllAsync
    show ?thesis by (auto simp: notify_step_def)
  qed (use st in \<open>auto simp: notify_step_def dest: on_list_facts(1,2) [where E = E]
      split: prod.splits option.splits\<close>)
  then show "(mstep E)\<^sup>*\<^sup>* w w'" "agents w' = agents w" "mtx w' = mtx w" "ccalls w' = ccalls w"
    "token w u \<Longrightarrow> token w' u" "list_senders w' \<union> nctl_senders c \<subseteq> list_senders w \<union> npc_senders p"
    "c \<noteq> Panic"
    by blast+
qed

section \<open>The invariant\<close>

text \<open>What the condition of a loop said when the loop returned without a timeout.\<close>

definition condition_false :: "('a, bool) closure \<Rightarrow> wait_timeout_result option \<Rightarrow> 'a \<Rightarrow> bool" where
  "condition_false f ro v \<longleftrightarrow> (\<exists>r. ro = Some r \<and> timed_out r) \<or> (\<exists>x. f x = (Some False, v))"

fun call_ok :: "'k env \<Rightarrow> ('k, 'a, 'z) mworld_scheme \<Rightarrow> 'a ccall \<Rightarrow> mpc \<Rightarrow> bool" where
  "call_ok E w (Waiting op p) c = (in_phase (pc_phase p) c \<and> wpc_ok E w op p)"
| "call_ok E w (Looping op f (LWait p)) c = (in_phase (pc_phase p) c \<and> wpc_ok E w op p)"
| "call_ok E w (Looping op f LTest) c = (c = Holding)"
| "call_ok E w (Notifying p) c = (at_rest c \<or> c = Holding)"
| "call_ok E w (Done op fo ro) c =
     (c = Holding \<and> result_ok w op ro \<and> (\<forall>f. fo = Some f \<longrightarrow> condition_false f ro (inner (mtx w))))"
| "call_ok E w NoCall c = True"
| "call_ok E w Failed c = True"

definition cinv :: "'k env \<Rightarrow> ('k, 'a, 'z) cworld_scheme \<Rightarrow> bool" where
  "cinv E w \<longleftrightarrow> minv E w \<and> timers_ok E (senders w \<union> cv_senders w) w \<and>
     (\<forall>t. call_ok E w (ccalls w t) (agents w t))"

lemma call_ok_mono:
  "os_keeps E w w' \<Longrightarrow> call_ok E w c a \<Longrightarrow> inner (mtx w') = inner (mtx w) \<or> a \<noteq> Holding \<Longrightarrow> call_ok E w' c a"
proof (cases c)
  case (Looping op f p)
  then show "os_keeps E w w' \<Longrightarrow> call_ok E w c a \<Longrightarrow> ?thesis" by (cases p) (auto intro: wpc_ok_mono)
qed (auto intro: wpc_ok_mono result_ok_mono)

lemma call_ok_set_call [simp]: "call_ok E (set_call t c w) = call_ok E w"
proof -
  have "wpc_ok E (set_call t c w) op p = wpc_ok E w op p" for op p
    by (cases p) (auto simp: result_ok_def overdue_def polling_def)
  moreover have "result_ok (set_call t c w) op ro = result_ok w op ro" for op ro
    by (simp add: result_ok_def overdue_def)
  ultimately have "call_ok E (set_call t c w) x a = call_ok E w x a" for x a
  proof (cases x)
    case (Looping op f p)
    then show ?thesis using \<open>\<And>p op. wpc_ok E (set_call t c w) op p = wpc_ok E w op p\<close> by (cases p) auto
  qed auto
  then show ?thesis by blast
qed

lemma minv_set_call [simp]: "minv E (set_call t c w) = minv E w"
proof -
  have "pc_ok E u (set_call t c w) p = pc_ok E u w p" for u p
    by (cases p) (auto simp: polling_def)
  then have "agent_ok E u (set_call t c w) a = agent_ok E u w a" for u a
    by (cases a) auto
  then show ?thesis by (simp add: minv_def mutex_excl_def timers_ok_def senders_def)
qed

lemma plat_set_call [simp]:
  "timers_ok E S (set_call t c w) = timers_ok E S w" "senders (set_call t c w) = senders w"
  by (simp_all add: timers_ok_def senders_def)

lemma os_keeps_trans: "os_keeps E w w1 \<Longrightarrow> os_keeps E w1 w2 \<Longrightarrow> os_keeps E w w2"
  unfolding os_keeps_def using order_trans by blast

lemma msteps_platform:
  assumes "(mstep E)\<^sup>*\<^sup>* w w'" "minv E w" "timers_ok E (senders w \<union> X) w"
  shows "minv E w' \<and> os_keeps E w w' \<and> timers_ok E (senders w' \<union> X) w'"
  using assms(1)
proof (induction rule: rtranclp_induct)
  case base
  with assms show ?case by (simp add: os_keeps_refl)
next
  case (step w1 w2)
  then have "plat_inv E X w1 w2" by (intro mstep_platform) auto
  with step show ?case by (auto simp: plat_inv_def intro: minv_step os_keeps_trans)
qed

lemma minv_holding_unique: "minv E w \<Longrightarrow> agents w t = Holding \<Longrightarrow> agents w u = Holding \<Longrightarrow> t = u"
  unfolding minv_def mutex_excl_def by (metis exclusive_unique owns.simps(1))

text \<open>A step of agent \<open>t\<close> inside a call, which becomes \<open>c\<close>.\<close>

lemma cinv_agent:
  assumes inv: "cinv E w" and ms: "(mstep E)\<^sup>*\<^sup>* w w'"
    and others: "\<And>u. u \<noteq> t \<Longrightarrow> agents w' u = agents w u" and cc: "ccalls w' = ccalls w"
    and inn: "inner (mtx w') = inner (mtx w) \<or> agents w t = Holding"
    and senders: "list_senders w' \<union> call_senders c \<subseteq> cv_senders w \<or>
      (\<exists>r k. continuation E (conts w) = (r, k) \<and> conts w' = k \<and> timers w' = timers w \<and>
         agents w' = agents w \<and> mtx w' = mtx w \<and> list_senders w' \<union> call_senders c \<subseteq> insert r (cv_senders w))"
    and ok: "os_keeps E w w' \<Longrightarrow> call_ok E w' c (agents w' t)"
  shows "cinv E (set_call t c w')"
proof -
  from inv have m: "minv E w" and tm: "timers_ok E (senders w \<union> cv_senders w) w"
    and calls: "\<And>u. call_ok E w (ccalls w u) (agents w u)" by (auto simp: cinv_def)
  note plat = msteps_platform [OF ms m tm]
  have sub: "cv_senders (set_call t c w') \<subseteq> cv_senders w \<union> (list_senders w' \<union> call_senders c)"
  proof -
    have "call_senders (ccalls (set_call t c w') u) \<subseteq> cv_senders w \<union> call_senders c" for u
      using cc by (auto simp: cv_senders_def)
    then show ?thesis by (auto simp: cv_senders_def [of "set_call t c w'"])
  qed
  have "timers_ok E (senders w' \<union> cv_senders (set_call t c w')) w'"
    using senders
  proof
    assume "list_senders w' \<union> call_senders c \<subseteq> cv_senders w"
    with sub have "senders w' \<union> cv_senders (set_call t c w') \<subseteq> senders w' \<union> cv_senders w" by blast
    with plat show ?thesis by (auto intro: timers_ok_mono)
  next
    assume "\<exists>r k. continuation E (conts w) = (r, k) \<and> conts w' = k \<and> timers w' = timers w \<and>
         agents w' = agents w \<and> mtx w' = mtx w \<and> list_senders w' \<union> call_senders c \<subseteq> insert r (cv_senders w)"
    then obtain r k where new: "continuation E (conts w) = (r, k)" and w': "conts w' = k" "timers w' = timers w"
      "agents w' = agents w" "mtx w' = mtx w" "list_senders w' \<union> call_senders c \<subseteq> insert r (cv_senders w)" by blast
    have "senders w' = senders w" using w' by (simp add: senders_def)
    moreover have "cont_ok E" using m by (simp add: minv_def)
    ultimately show ?thesis using sub w'
      by (intro new_cont_timers [OF _ new tm]) auto
  qed
  moreover have "call_ok E w' (ccalls w u) (agents w u)" if "u \<noteq> t" for u
  proof (rule call_ok_mono [OF _ calls])
    show "os_keeps E w w'" using plat by blast
    show "inner (mtx w') = inner (mtx w) \<or> agents w u \<noteq> Holding"
      using inn minv_holding_unique [OF m, of t u] that by blast
  qed
  moreover have "call_ok E w' c (agents w' t)" using plat ok by blast
  ultimately show ?thesis using plat others cc unfolding cinv_def by simp
qed

lemma list_senders_timers: "cinv E w \<Longrightarrow> cv_senders w \<inter> snd ` set (timers w) = {}"
  by (auto simp: cinv_def timers_ok_def)

lemma list_senders_sub: "list_senders w \<subseteq> cv_senders w" "call_senders (ccalls w t) \<subseteq> cv_senders w"
  by (auto simp: cv_senders_def)

text \<open>The part of \<open>cinv_agent\<close> that is the same for a wait and for a wait inside a loop.\<close>

lemma cinv_wait_step:
  assumes inv: "cinv E w" and st: "wait_step E g t op p w = (c, w')"
    and ph: "in_phase (pc_phase p) (agents w t)" and wp: "wpc_ok E w op p"
    and from_p: "pc_senders p \<subseteq> cv_senders w" and to: "call_senders d \<subseteq> ctl_senders c"
    and ok: "wpc_after E w' op c \<Longrightarrow> phase_after c (agents w' t) \<Longrightarrow> call_ok E w' d (agents w' t)"
  shows "cinv E (set_call t d w')"
proof (rule cinv_agent [OF inv])
  have tm: "list_senders w \<inter> snd ` set (timers w) = {}"
    using list_senders_timers [OF inv] list_senders_sub(1) [of w] by blast
  note f = wait_step_facts [OF st ph tm, unfolded step_facts_def moves_def]
  show "(mstep E)\<^sup>*\<^sup>* w w'" "\<And>u. u \<noteq> t \<Longrightarrow> agents w' u = agents w u" "ccalls w' = ccalls w"
    "inner (mtx w') = inner (mtx w) \<or> agents w t = Holding" using f by auto
  show "list_senders w' \<union> call_senders d \<subseteq> cv_senders w \<or>
      (\<exists>r k. continuation E (conts w) = (r, k) \<and> conts w' = k \<and> timers w' = timers w \<and>
         agents w' = agents w \<and> mtx w' = mtx w \<and> list_senders w' \<union> call_senders d \<subseteq> insert r (cv_senders w))"
    using wait_step_senders [OF st ph] to from_p list_senders_sub(1) [of w]
    unfolding same_senders_def new_sender_def by (elim disjE exE conjE) blast+
  show "call_ok E w' d (agents w' t)" if "os_keeps E w w'"
  proof (rule ok)
    have "cont_ok E" using inv by (simp add: cinv_def minv_def)
    then show "wpc_after E w' op c" by (intro wait_step_wpc [OF st that wp])
    show "phase_after c (agents w' t)" using f by simp
  qed
qed

text \<open>A loop, by whether its method has a deadline.\<close>

lemma loop_step_LWait:
  "loop_step E g t op f (LWait p) w =
     apfst (if op_deadline op = None then untimed_after else timed_after) (wait_step E g t op p w)"
  by (cases op) simp_all

lemma loop_step_LTest:
  "loop_step E g t op f LTest w =
     test_condition f (wait_entry op) (if op_deadline op = None then None else Some (WaitTimeoutResult False)) w"
  by (cases op) simp_all

lemma loop_after_ok:
  assumes "wpc_after E w op c" "phase_after c a"
  shows "call_ok E w (after_loop op f ((if op_deadline op = None then untimed_after else timed_after) c)) a"
    and "call_senders (after_loop op f ((if op_deadline op = None then untimed_after else timed_after) c)) \<subseteq> ctl_senders c"
  using assms by (cases c rule: timed_after.cases; auto simp: result_ok_def condition_false_def)+

lemma cinv_loop_test:
  assumes inv: "cinv E w" and a: "agents w t = Holding" and st: "loop_step E g t op f LTest w = (c, w')"
  shows "cinv E (set_call t (after_loop op f c) w')"
proof -
  obtain b v where f: "f (inner (mtx w)) = (b, v)" by force
  from st f have w': "w' = w\<lparr>mtx := guard_deref_mut v (mtx w)\<rparr>"
    and c: "c = (case b of Some True \<Rightarrow> Next (LWait (wait_entry op))
      | Some False \<Rightarrow> Return (if op_deadline op = None then None else Some (WaitTimeoutResult False))
      | None \<Rightarrow> Next (LWait Unwinding))"
    by (auto simp: loop_step_LTest test_condition_def guard_deref_def)
  have cs: "call_senders (after_loop op f c) = {}"
    unfolding c by (cases op; cases b rule: option.exhaust) (auto split: bool.splits)
  show ?thesis
  proof (rule cinv_agent [OF inv])
    show "(mstep E)\<^sup>*\<^sup>* w w'" unfolding w' using a by (auto intro: mstep.access)
    show "list_senders w' \<union> call_senders (after_loop op f c) \<subseteq> cv_senders w \<or>
      (\<exists>r k. continuation E (conts w) = (r, k) \<and> conts w' = k \<and> timers w' = timers w \<and>
         agents w' = agents w \<and> mtx w' = mtx w \<and>
         list_senders w' \<union> call_senders (after_loop op f c) \<subseteq> insert r (cv_senders w))"
      using list_senders_sub(1) [of w] by (simp add: cs) (simp add: w' list_senders_def)
    show "call_ok E w' (after_loop op f c) (agents w' t)"
      using a f entry_wpc_ok [where op = op] unfolding c w'
      by (auto simp: result_ok_def condition_false_def guard_deref_mut_def split: option.splits bool.splits)
  qed (use a in \<open>simp_all add: w'\<close>)
qed

text \<open>A future that is dropped is a step of the mutex's machine, or none.\<close>

lemma wait_awaits_away: "wait_awaits p c \<Longrightarrow> in_phase (pc_phase p) c \<Longrightarrow> c = Idle \<or> (\<exists>q. c = Locking q \<and> lock_awaits q)"
  by (cases p; cases c) auto

lemma abandon_msteps:
  assumes "cinv E w" "call_awaits (ccalls w t) (agents w t)"
  shows "(mstep E)\<^sup>*\<^sup>* w (set_agent t Idle w)"
proof -
  have "call_ok E w (ccalls w t) (agents w t)" using assms(1) by (simp add: cinv_def)
  with assms(2) have "agents w t = Idle \<or> (\<exists>q. agents w t = Locking q \<and> lock_awaits q)"
    by (cases "(ccalls w t, agents w t)" rule: call_awaits.cases) (auto dest: wait_awaits_away)
  moreover have "set_agent t Idle w = w" if "agents w t = Idle"
    using that by (simp add: set_agent_def fun_upd_idem)
  ultimately show ?thesis by (auto intro: mstep.abandon)
qed

lemma cinv_step: "cstep E g w w' \<Longrightarrow> cinv E w \<Longrightarrow> cinv E w'"
proof (induction rule: cstep.induct)
  case (client w w')
  from client.prems have m: "minv E w" and tm: "timers_ok E (senders w \<union> cv_senders w) w"
    and calls: "\<And>u. call_ok E w (ccalls w u) (agents w u)" by (auto simp: cinv_def)
  from mstep_platform [OF client.hyps(1) m tm] have pl: "os_keeps E w w'" "timers_ok E (senders w' \<union> cv_senders w) w'"
    by (simp_all add: plat_inv_def)
  have fr: "cv w' = cv w" "ccalls w' = ccalls w"
    "\<And>t. ccalls w t \<noteq> NoCall \<Longrightarrow> agents w' t = agents w t"
    "inner (mtx w') \<noteq> inner (mtx w) \<Longrightarrow> \<exists>t. ccalls w t = NoCall \<and> agents w t = Holding"
    using client.hyps(2) by (auto simp: client_frame_def)
  have cs: "cv_senders w' = cv_senders w" using fr by (simp add: cv_senders_def list_senders_def)
  have "call_ok E w' (ccalls w u) (agents w' u)" for u
  proof (cases "ccalls w u = NoCall")
    case False
    have "call_ok E w' (ccalls w u) (agents w u)"
    proof (rule call_ok_mono [OF pl(1) calls])
      show "inner (mtx w') = inner (mtx w) \<or> agents w u \<noteq> Holding"
        using fr(4) minv_holding_unique [OF m] False by metis
    qed
    with fr(3) False show ?thesis by simp
  qed simp
  with pl minv_step [OF client.hyps(1) m] show ?case by (simp add: cinv_def cs fr(2))
next
  case (begin_wait w t op)
  then show ?case using entry_wpc_ok [where op = op] list_senders_sub(1) [of w]
    by (intro cinv_agent) (cases op; auto)+
next
  case (begin_loop w t op f)
  then show ?case using list_senders_sub(1) [of w] by (intro cinv_agent) auto
next
  case (begin_notify w t p)
  then show ?case using list_senders_sub(1) [of w] by (intro cinv_agent) auto
next
  case (wait w t op p)
  obtain c w' where st: "wait_step E g t op p w = (c, w')" by force
  from wait have "call_ok E w (Waiting op p) (agents w t)" by (metis cinv_def)
  then have ph: "in_phase (pc_phase p) (agents w t)" and wp: "wpc_ok E w op p" by simp_all
  have "cinv E (set_call t (after_wait op c) w')"
  proof (rule cinv_wait_step [OF wait.prems st ph wp])
    show "pc_senders p \<subseteq> cv_senders w" using list_senders_sub(2) [of w t] wait.hyps by simp
  qed (cases c; simp)+
  then show ?case by (simp add: run_wait_def st)
next
  case (loop w t op f p)
  show ?case
  proof (cases p)
    case LTest
    with loop have "agents w t = Holding" by (metis cinv_def call_ok.simps(3))
    then show ?thesis using cinv_loop_test [OF loop.prems, of t g op f] LTest
      by (auto simp: run_loop_def split: prod.splits)
  next
    case (LWait q)
    obtain c w' where st: "wait_step E g t op q w = (c, w')" by force
    from loop LWait have "call_ok E w (Looping op f (LWait q)) (agents w t)" by (metis cinv_def)
    then have ph: "in_phase (pc_phase q) (agents w t)" and wp: "wpc_ok E w op q" by simp_all
    have "cinv E (set_call t (after_loop op f ((if op_deadline op = None then untimed_after else timed_after) c)) w')"
    proof (rule cinv_wait_step [OF loop.prems st ph wp])
      show "pc_senders q \<subseteq> cv_senders w" using list_senders_sub(2) [of w t] loop.hyps LWait by simp
      show "call_senders (after_loop op f ((if op_deadline op = None then untimed_after else timed_after) c)) \<subseteq> ctl_senders c"
        by (cases c rule: timed_after.cases) auto
    qed (rule loop_after_ok(1))
    then show ?thesis by (simp add: run_loop_def LWait loop_step_LWait st)
  qed
next
  case (notify w t p)
  obtain c w' where st: "notify_step E p w = (c, w')" by force
  have "list_senders w \<union> npc_senders p \<subseteq> cv_senders w"
    using list_senders_sub [of w] list_senders_sub(2) [of w t] notify.hyps by simp
  then have tm: "(list_senders w \<union> npc_senders p) \<inter> snd ` set (timers w) = {}"
    using list_senders_timers [OF notify.prems] by blast
  note f = notify_step_facts [OF st tm]
  from notify have a: "at_rest (agents w t) \<or> agents w t = Holding" by (metis cinv_def call_ok.simps(4))
  have "cinv E (set_call t (after_notify c) w')"
  proof (rule cinv_agent [OF notify.prems f(1)])
    have "call_senders (after_notify c) = nctl_senders c" by (cases c) auto
    with f(6) \<open>list_senders w \<union> npc_senders p \<subseteq> cv_senders w\<close>
    show "list_senders w' \<union> call_senders (after_notify c) \<subseteq> cv_senders w \<or>
      (\<exists>r k. continuation E (conts w) = (r, k) \<and> conts w' = k \<and> timers w' = timers w \<and>
         agents w' = agents w \<and> mtx w' = mtx w \<and>
         list_senders w' \<union> call_senders (after_notify c) \<subseteq> insert r (cv_senders w))" by blast
    show "call_ok E w' (after_notify c) (agents w' t)" using a f(2) by (cases c) auto
  qed (use f in simp_all)
  then show ?case by (simp add: run_notify_def st)
next
  case (resume w t op fo ro)
  then show ?case using list_senders_sub(1) [of w] by (intro cinv_agent) auto
next
  case (abandon w t)
  show ?case unfolding abandon_call_def
    by (rule cinv_agent [OF abandon.prems abandon_msteps [OF abandon.prems abandon.hyps]])
      (use list_senders_sub(1) [of w] in \<open>auto simp: set_agent_def list_senders_def\<close>)
qed

lemma cinv_init: "cinit E v w \<Longrightarrow> cinv E w"
  using minv_init [of E v w]
  by (auto simp: cinit_def cinv_def cv_senders_def list_senders_def condvar_new_def spin_new_def minv_def)

interpretation condvar_inv: machine_invariant "cinit E v" "cstep E g" "cinv E" for E v g
  by unfold_locales (auto intro: cinv_init cinv_step)

section \<open>The mutex inside\<close>

text \<open>Every step is a step, or a few, of the mutex's machine on the same state, so whatever
  holds of the mutex in every reachable state holds here.\<close>

lemma set_call_mstep: "mstep E w (set_call t c w)"
  by (rule mstep.other_state) (simp add: set_call_def mworld.truncate_def)

lemma msteps_set_call: "(mstep E)\<^sup>*\<^sup>* w w' \<Longrightarrow> (mstep E)\<^sup>*\<^sup>* w (set_call t c w')"
  by (erule rtranclp.rtrancl_into_rtrancl) (rule set_call_mstep)

lemma cstep_msteps: "cstep E g w w' \<Longrightarrow> cinv E w \<Longrightarrow> (mstep E)\<^sup>*\<^sup>* w w'"
proof (induction rule: cstep.induct)
  case (wait w t op p)
  obtain c w' where st: "wait_step E g t op p w = (c, w')" by force
  from wait have "call_ok E w (Waiting op p) (agents w t)" by (metis cinv_def)
  then have ph: "in_phase (pc_phase p) (agents w t)" by simp
  have "list_senders w \<inter> snd ` set (timers w) = {}"
    using list_senders_timers [OF wait.prems] list_senders_sub(1) [of w] by blast
  from wait_step_facts [OF st ph this] have "(mstep E)\<^sup>*\<^sup>* w w'" by (simp add: step_facts_def moves_def)
  then show ?case by (simp add: run_wait_def st msteps_set_call)
next
  case (loop w t op f p)
  show ?case
  proof (cases p)
    case LTest
    with loop have "agents w t = Holding" by (metis cinv_def call_ok.simps(3))
    then have "mstep E w (w\<lparr>mtx := guard_deref_mut v (mtx w)\<rparr>)" for v by (rule mstep.access)
    then show ?thesis
      by (auto simp: run_loop_def LTest loop_step_LTest test_condition_def split: prod.splits
          intro!: msteps_set_call)
  next
    case (LWait q)
    obtain c w' where st: "wait_step E g t op q w = (c, w')" by force
    from loop LWait have "call_ok E w (Looping op f (LWait q)) (agents w t)" by (metis cinv_def)
    then have ph: "in_phase (pc_phase q) (agents w t)" by simp
    have "list_senders w \<inter> snd ` set (timers w) = {}"
      using list_senders_timers [OF loop.prems] list_senders_sub(1) [of w] by blast
    from wait_step_facts [OF st ph this] have "(mstep E)\<^sup>*\<^sup>* w w'" by (simp add: step_facts_def moves_def)
    then show ?thesis
      by (simp add: run_loop_def LWait loop_step_LWait st msteps_set_call)
  qed
next
  case (notify w t p)
  obtain c w' where st: "notify_step E p w = (c, w')" by force
  have "list_senders w \<union> npc_senders p \<subseteq> cv_senders w"
    using list_senders_sub [of w] list_senders_sub(2) [of w t] notify.hyps by simp
  then have "(list_senders w \<union> npc_senders p) \<inter> snd ` set (timers w) = {}"
    using list_senders_timers [OF notify.prems] by blast
  from notify_step_facts(1) [OF st this] show ?case
    by (simp add: run_notify_def st msteps_set_call)
next
  case (abandon w t)
  from abandon_msteps [OF abandon.prems abandon.hyps] show ?case
    unfolding abandon_call_def by (rule msteps_set_call)
qed (auto intro: set_call_mstep)

interpretation condvar_sim: machine_simulation "cinit E v" "cstep E g" "cinv E" "minit E v" "mstep E" "\<lambda>w. w"
  for E v g
  by unfold_locales (auto simp: cinit_def intro: cstep_msteps)

end
