(* ===== verification/CondvarLists.thy ===== *)
theory CondvarLists
  imports CondvarMachine
begin

text \<open>
  The wait lists of the condition variable: an agent that has registered and still waits is on
  its list, or has been woken, or is in the hand of a notifier; and a wake flag is in exactly
  one of these three places.
\<close>

section \<open>Handles\<close>

datatype handle = HThread tid | HFlag flag | HCont cont_id

text \<open>The handle by which an agent at a program counter expects to be woken.\<close>

fun waits_on :: "tid \<Rightarrow> wait_pc \<Rightarrow> handle option" where
  "waits_on t BRelease = Some (HThread t)"
| "waits_on t BPark = Some (HThread t)"
| "waits_on t BNow = Some (HThread t)"
| "waits_on t BRemove = Some (HThread t)"
| "waits_on t (BCall n) = Some (HThread t)"
| "waits_on t (BParkT u) = Some (HThread t)"
| "waits_on t (SRelease f) = Some (HFlag f)"
| "waits_on t (SLoad f) = Some (HFlag f)"
| "waits_on t (SNow f) = Some (HFlag f)"
| "waits_on t (SRemove f) = Some (HFlag f)"
| "waits_on t (SLast f) = Some (HFlag f)"
| "waits_on t (ARelease r) = Some (HCont r)"
| "waits_on t (AAwait r) = Some (HCont r)"
| "waits_on t (ASpawn i r) = Some (HCont r)"
| "waits_on t (AReleaseT i r q) = Some (HCont r)"
| "waits_on t (ANotify i r q) = Some (HCont r)"
| "waits_on t (ATimeout i r q) = Some (HCont r)"
| "waits_on t p = None"

fun call_pc :: "'a ccall \<Rightarrow> wait_pc option" where
  "call_pc (Waiting op p) = Some p"
| "call_pc (Looping op f (LWait p)) = Some p"
| "call_pc c = None"

text \<open>The wake flag a wait owns.\<close>

fun pc_flag :: "wait_pc \<Rightarrow> flag option" where
  "pc_flag (SRelease f) = Some f"
| "pc_flag (SLoad f) = Some f"
| "pc_flag (SNow f) = Some f"
| "pc_flag (SRemove f) = Some f"
| "pc_flag (SLast f) = Some f"
| "pc_flag (SRelock f ro) = Some f"
| "pc_flag p = None"

definition sync_list :: "('k, 'a, 'z) cworld_scheme \<Rightarrow> tid list" where
  "sync_list w = sl_data (cv_waiting_sync_threads (cv w))"

definition async_list :: "('k, 'a, 'z) cworld_scheme \<Rightarrow> async_waiter list" where
  "async_list w = sl_data (cv_waiting_async_threads (cv w))"

definition spin_list :: "('k, 'a, 'z) cworld_scheme \<Rightarrow> flag list" where
  "spin_list w = sl_data (cv_waiting_spin_threads (cv w))"

lemmas cv_lists = sync_list_def async_list_def spin_list_def

fun listed :: "('k, 'a, 'z) cworld_scheme \<Rightarrow> handle \<Rightarrow> bool" where
  "listed w (HThread t) = (t \<in> set (sync_list w))"
| "listed w (HFlag f) = (f \<in> set (spin_list w))"
| "listed w (HCont r) = (r \<in> waiter_sender ` set (async_list w))"

fun woken :: "'k env \<Rightarrow> ('k, 'a, 'z) cworld_scheme \<Rightarrow> handle \<Rightarrow> bool" where
  "woken E w (HThread t) = token w t"
| "woken E w (HFlag f) = wake_flags w f"
| "woken E w (HCont r) = is_ready E (conts w) r"

text \<open>The handles a notifier has taken off a list and not yet woken.\<close>

fun npc_hand :: "notify_pc \<Rightarrow> handle list" where
  "npc_hand (OneStore f) = [HFlag f]"
| "npc_hand (OneUnpark h) = [HThread h]"
| "npc_hand (OneSend a) = [HCont (waiter_sender a)]"
| "npc_hand (AllStore fs) = map HFlag fs"
| "npc_hand (AllUnpark hs) = map HThread hs"
| "npc_hand (AllSend xs) = map (HCont \<circ> waiter_sender) xs"
| "npc_hand p = []"

fun call_hand :: "'a ccall \<Rightarrow> handle list" where
  "call_hand (Notifying p) = npc_hand p"
| "call_hand c = []"

section \<open>What a step does to the lists\<close>

text \<open>All steps but seven leave the lists and the wake flags alone.\<close>

definition quiet :: "('k, 'a, 'z) cworld_scheme \<Rightarrow> ('k, 'a, 'z) cworld_scheme \<Rightarrow> bool" where
  "quiet w w' \<longleftrightarrow> cv w' = cv w \<and> wake_flags w' = wake_flags w \<and> next_flag w' = next_flag w"

fun loud :: "wait_pc \<Rightarrow> bool" where
  "loud BPush = True"
| "loud SPush = True"
| "loud APush = True"
| "loud (APushT i r) = True"
| "loud BRemove = True"
| "loud (SRemove f) = True"
| "loud (ARemove i) = True"
| "loud p = False"

lemma quiet_refl [simp]: "quiet w w"
  by (simp add: quiet_def)

lemma quietD:
  "quiet w w' \<Longrightarrow> sync_list w' = sync_list w \<and> async_list w' = async_list w \<and> spin_list w' = spin_list w \<and>
     wake_flags w' = wake_flags w \<and> next_flag w' = next_flag w"
  by (simp add: quiet_def cv_lists)

text \<open>A quiet step of a wait: it waits on as before, on the same flag and with its token, or
  it is about to wait because it has seen itself on the list.\<close>

definition stays :: "tid \<Rightarrow> ('k, 'a, 'z) cworld_scheme \<Rightarrow> wait_pc \<Rightarrow> ('k, 'a, 'z) cworld_scheme \<Rightarrow> wait_pc \<Rightarrow> bool" where
  "stays t w p w' p' \<longleftrightarrow>
     (pc_flag p' = None \<or> pc_flag p' = pc_flag p) \<and>
     (\<forall>h. waits_on t p' = Some h \<longrightarrow>
        waits_on t p = Some h \<and> (token w t \<longrightarrow> token w' t) \<or> p = BCheck \<and> listed w h) \<and>
     (\<forall>f ro. p' = SRelock f ro \<longrightarrow>
        p = p' \<or> (p = SLoad f \<or> p = SLast f) \<and> wake_flags w f \<and> (\<forall>r. ro = Some r \<longrightarrow> \<not> timed_out r)) \<and>
     (\<forall>f. p' = SLast f \<longrightarrow> p = SLast f)"

definition quiet_step :: "tid \<Rightarrow> wait_pc \<Rightarrow> wait_ctl \<Rightarrow> ('k, 'a, 'z) cworld_scheme \<Rightarrow> ('k, 'a, 'z) cworld_scheme \<Rightarrow> bool" where
  "quiet_step t p c w w' \<longleftrightarrow> quiet w w' \<and> (\<forall>p'. c = Next p' \<longrightarrow> stays t w p w' p')"

lemma stays_same: "p \<noteq> BCheck \<Longrightarrow> (token w t \<longrightarrow> token w' t) \<or> (\<forall>h. waits_on t p \<noteq> Some h) \<Longrightarrow> stays t w p w' p"
  by (auto simp: stays_def)

lemma drop_guard_quiet:
  assumes st: "drop_guard E t p (Next p1) w = (c, w')" and ph: "in_phase Letting (agents w t)"
    and "waits_on t p1 = waits_on t p" "pc_flag p1 = pc_flag p" "p \<noteq> BCheck"
    and "\<And>f ro. p1 \<noteq> SRelock f ro" "\<And>f. p1 \<noteq> SLast f"
  shows "quiet_step t p c w w'"
proof -
  note m = drop_guard_moves [OF st ph]
  have "quiet w w'" using m(4) by (simp add: quiet_def cv_same_def)
  moreover have "stays t w p w' p'" if "c = Next p'" for p'
    using m(3) that m(7) [of t] assms(3-) by (auto simp: stays_def split: if_splits)
  ultimately show ?thesis by (simp add: quiet_step_def)
qed

lemma finish_step_quiet:
  assumes st: "finish_step E t p w = (c, w')" and ph: "in_phase (pc_phase p) (agents w t)"
  shows "quiet_step t p c w w'"
proof (cases p)
  case (Relock lm ro)
  with st ph have lk: "lock_again E t lm (Relock lm ro) ro w = (c, w')" "in_phase Taking (agents w t)" by auto
  note m = lock_again_moves [OF lk]
  show ?thesis using m(3,4) Relock by (auto simp: quiet_step_def quiet_def cv_same_def stays_def)
next
  case Unwinding
  with st ph have dr: "drop_guard E t Unwinding Panic w = (c, w')" "in_phase Letting (agents w t)" by auto
  note m = drop_guard_moves [OF dr]
  show ?thesis using m(3,4) Unwinding
    by (auto simp: quiet_step_def quiet_def cv_same_def stays_def split: if_splits)
qed (use st in \<open>auto simp: quiet_step_def stays_def\<close>)

lemma spin_end_quiet:
  assumes st: "spin_end E g t p w = (c, w')" and ph: "in_phase (pc_phase p) (agents w t)"
  shows "quiet_step t p c w w'"
proof (cases "\<exists>f ro. p = SRelock f ro")
  case True
  then obtain f ro where p: "p = SRelock f ro" by blast
  with st ph have lk: "lock_again E t (lock_sync g) (SRelock f ro) ro w = (c, w')" "in_phase Taking (agents w t)" by auto
  note m = lock_again_moves [OF lk]
  show ?thesis using m(3,4) p by (auto simp: quiet_step_def quiet_def cv_same_def stays_def)
next
  case False
  with st have "finish_step E t p w = (c, w')" by (simp add: spin_end_other)
  then show ?thesis using ph by (rule finish_step_quiet)
qed

lemma quiet_updates [simp]:
  "quiet w (w\<lparr>token := k\<rparr>)" "quiet w (w\<lparr>conts := ks\<rparr>)" "quiet w (w\<lparr>conts := ks, timers := ts\<rparr>)"
  "quiet w (w\<lparr>waiter_ids := i\<rparr>)"
  by (simp_all add: quiet_def)

lemma park_quiet:
  fixes w w' :: "('k, 'a, 'z) cworld_scheme"
  shows "park E t w = (x, w') \<Longrightarrow> quiet w w' \<and> (x = Next () \<longrightarrow> w' = w)"
    "park_until E t u w = (x, w') \<Longrightarrow> quiet w w' \<and> (x = Next () \<longrightarrow> w' = w)"
  by (auto simp: park_def park_until_def split: if_splits)

lemma look_sync: "on_sync (\<lambda>hs. (t \<notin> set hs, hs)) w = (b, w') \<Longrightarrow> quiet w w' \<and> (b \<longleftrightarrow> t \<notin> set (sync_list w))"
  by (auto simp: on_sync_def with_mut_atomic_def quiet_def sync_list_def)

lemma wait_block_quiet:
  assumes st: "wait_block_step E g t p w = (c, w')" and ph: "in_phase (pc_phase p) (agents w t)" and "\<not> loud p"
  shows "quiet_step t p c w w'"
proof (cases p)
  case BRelease
  with st ph show ?thesis by (auto intro!: drop_guard_quiet)
next
  case BPark
  with st show ?thesis
    by (auto simp: quiet_step_def stays_def dest: park_quiet split: prod.splits ctl.splits)
qed (use assms finish_step_quiet [of E t p w c w'] in auto)

lemma wait_block_timeout_quiet:
  assumes st: "wait_block_timeout_step E g t d p w = (c, w')" and ph: "in_phase (pc_phase p) (agents w t)" and "\<not> loud p"
  shows "quiet_step t p c w w'"
proof (cases p)
  case BRelease
  with st ph show ?thesis by (auto intro!: drop_guard_quiet)
next
  case (BParkT u)
  with st show ?thesis
    by (auto simp: quiet_step_def stays_def dest: park_quiet split: prod.splits ctl.splits)
next
  case BCheck
  with st show ?thesis
    by (auto simp: quiet_step_def stays_def dest!: look_sync split: prod.splits if_splits)
next
  case BNow
  with st show ?thesis by (auto simp: quiet_step_def stays_def split: if_splits)
next
  case (BCall n)
  with st show ?thesis by (auto simp: quiet_step_def stays_def split: if_splits)
qed (use assms finish_step_quiet [of E t p w c w'] in auto)

lemma wait_spin_quiet:
  assumes st: "wait_spin_step E g t p w = (c, w')" and ph: "in_phase (pc_phase p) (agents w t)" and "\<not> loud p"
  shows "quiet_step t p c w w'"
proof (cases p)
  case (SRelease f)
  with st ph show ?thesis by (auto intro!: drop_guard_quiet)
next
  case (SLoad f)
  with st show ?thesis by (auto simp: quiet_step_def stays_def split: if_splits)
next
  case (SRemove f)
  with assms show ?thesis by simp
qed (use assms spin_end_quiet [of E g t p w c w'] in auto)

lemma wait_spin_timeout_quiet:
  assumes st: "wait_spin_timeout_step E g t d p w = (c, w')" and ph: "in_phase (pc_phase p) (agents w t)" and "\<not> loud p"
  shows "quiet_step t p c w w'"
proof (cases p)
  case (SRelease f)
  with st ph show ?thesis by (auto intro!: drop_guard_quiet)
next
  case (SLoad f)
  with st show ?thesis by (auto simp: quiet_step_def stays_def split: if_splits)
next
  case (SNow f)
  with st show ?thesis by (auto simp: quiet_step_def stays_def split: if_splits)
next
  case (SLast f)
  with st show ?thesis by (auto simp: quiet_step_def stays_def split: if_splits)
qed (use assms spin_end_quiet [of E g t p w c w'] in auto)

lemma wait_async_quiet:
  assumes st: "wait_async_step E t p w = (c, w')" and ph: "in_phase (pc_phase p) (agents w t)" and "\<not> loud p"
  shows "quiet_step t p c w w'"
proof (cases p)
  case (ARelease r)
  with st ph show ?thesis by (auto intro!: drop_guard_quiet)
next
  case (AAwait r)
  with st show ?thesis by (auto simp: quiet_step_def stays_def split: if_splits)
qed (use assms finish_step_quiet [of E t p w c w'] in auto)

lemma wait_async_timeout_quiet:
  assumes st: "wait_async_timeout_step E t d p w = (c, w')" and ph: "in_phase (pc_phase p) (agents w t)" and "\<not> loud p"
  shows "quiet_step t p c w w'"
proof (cases p)
  case AId
  with st show ?thesis by (auto simp: quiet_step_def stays_def fetch_waiter_id_def)
next
  case (ACont i)
  with st show ?thesis by (auto simp: quiet_step_def stays_def new_cont_def split: prod.splits)
next
  case (ASpawn i r)
  with st show ?thesis by (auto simp: quiet_step_def stays_def new_cont_def split: prod.splits if_splits)
next
  case (AReleaseT i r q)
  with st ph show ?thesis by (auto intro!: drop_guard_quiet)
next
  case (ANotify i r q)
  with st show ?thesis by (auto simp: quiet_step_def stays_def split: if_splits)
next
  case (ATimeout i r q)
  with st show ?thesis by (auto simp: quiet_step_def stays_def split: if_splits)
qed (use assms finish_step_quiet [of E t p w c w'] in auto)

lemma wait_step_quiet:
  "wait_step E g t op p w = (c, w') \<Longrightarrow> in_phase (pc_phase p) (agents w t) \<Longrightarrow> \<not> loud p \<Longrightarrow>
   quiet_step t p c w w'"
  by (cases op) (auto intro: wait_block_quiet wait_block_timeout_quiet wait_spin_quiet
      wait_spin_timeout_quiet wait_async_quiet wait_async_timeout_quiet)

text \<open>The seven other steps, at a program counter of the method's own. A program counter of
  another method is never reached and stays where it is.\<close>

lemma spin_flag_fresh: "push_new_flag w = (f, w') \<Longrightarrow>
   f = next_flag w \<and> next_flag w' = Suc f \<and> spin_list w' = spin_list w @ [f] \<and>
   wake_flags w' = (wake_flags w)(f := False) \<and> sync_list w' = sync_list w \<and> async_list w' = async_list w"
  by (auto simp: push_new_flag_def new_flag_def on_spin_def with_mut_atomic_def push_handle_def
      vec_push_def cv_lists)

text \<open>What a loud step does, whichever method it belongs to.\<close>

definition loud_effect :: "'k env \<Rightarrow> tid \<Rightarrow> wait_pc \<Rightarrow> wait_ctl \<Rightarrow> ('k, 'a, 'z) cworld_scheme \<Rightarrow>
    ('k, 'a, 'z) cworld_scheme \<Rightarrow> bool" where
  "loud_effect E t p c w w' \<longleftrightarrow>
     (case p of
        BPush \<Rightarrow> sync_list w' = sync_list w @ [t] \<and> async_list w' = async_list w \<and> spin_list w' = spin_list w \<and>
          wake_flags w' = wake_flags w \<and> next_flag w' = next_flag w \<and> c = Next BRelease
      | SPush \<Rightarrow> push_new_flag w = (next_flag w, w') \<and> c = Next (SRelease (next_flag w))
      | APush \<Rightarrow> (\<exists>i r. sync_list w' = sync_list w \<and> spin_list w' = spin_list w \<and>
          wake_flags w' = wake_flags w \<and> next_flag w' = next_flag w \<and>
          async_list w' = async_list w @ [\<lparr>waiter_id = i, waiter_sender = r\<rparr>] \<and> c = Next (ARelease r))
      | APushT i r \<Rightarrow> sync_list w' = sync_list w \<and> spin_list w' = spin_list w \<and>
          wake_flags w' = wake_flags w \<and> next_flag w' = next_flag w \<and>
          async_list w' = async_list w @ [\<lparr>waiter_id = i, waiter_sender = r\<rparr>] \<and> c = Next (ASpawn i r)
      | BRemove \<Rightarrow> sync_list w' = remove1 t (sync_list w) \<and> async_list w' = async_list w \<and>
          spin_list w' = spin_list w \<and> wake_flags w' = wake_flags w \<and> next_flag w' = next_flag w \<and>
          (\<exists>lm b. c = Next (Relock lm (Some (WaitTimeoutResult b))))
      | SRemove f \<Rightarrow> spin_list w' = remove1 f (spin_list w) \<and> async_list w' = async_list w \<and>
          sync_list w' = sync_list w \<and> wake_flags w' = wake_flags w \<and> next_flag w' = next_flag w \<and>
          c = (if f \<in> set (spin_list w) then Next (SRelock f (Some (WaitTimeoutResult True))) else Next (SLast f))
      | ARemove i \<Rightarrow> sync_list w' = sync_list w \<and> spin_list w' = spin_list w \<and>
          wake_flags w' = wake_flags w \<and> next_flag w' = next_flag w \<and>
          c = Next (Relock LockAsync (Some (WaitTimeoutResult True))) \<and>
          (\<forall>a. a \<in> set (async_list w) \<longrightarrow> a \<in> set (async_list w') \<or> is_ready E (conts w') (waiter_sender a))
      | _ \<Rightarrow> True)"

lemma remove_handle_eq:
  "snd (remove_handle (\<lambda>x. x = h) hs) = remove1 h hs"
  "fst (remove_handle (\<lambda>x. x = h) hs) = (if h \<in> set hs then Some h else None)"
proof -
  have "vec_remove (x # xs) (Suc i) = x # vec_remove xs i" for x and xs :: "'a list" and i
    by (simp add: vec_remove_def)
  then have "snd (remove_handle (\<lambda>x. x = h) hs) = remove1 h hs \<and>
    fst (remove_handle (\<lambda>x. x = h) hs) = (if h \<in> set hs then Some h else None)"
  proof (induction hs)
    case (Cons x xs)
    show ?case
    proof (cases "vec_position (\<lambda>x. x = h) xs")
      case None
      have "h \<notin> set xs" using vec_position_None_iff [THEN iffD1, OF None] by blast
      with Cons show ?thesis
        by (simp add: remove_handle_def vec_remove_def None del: vec_position_None_iff)
    next
      case (Some j)
      with Cons show ?thesis by (auto simp: remove_handle_def vec_remove_def split: if_splits)
    qed
  qed (simp add: remove_handle_def)
  then show "snd (remove_handle (\<lambda>x. x = h) hs) = remove1 h hs"
    "fst (remove_handle (\<lambda>x. x = h) hs) = (if h \<in> set hs then Some h else None)" by blast+
qed

lemma set_vec_remove: "i < length xs \<Longrightarrow> set xs = insert (xs ! i) (set (vec_remove xs i))"
  by (subst vec_remove_split [of i xs]) (auto simp: vec_remove_def)

text \<open>A step at a loud program counter has its effect, or the program counter belongs to
  another method and nothing happens.\<close>

lemma wait_step_loud:
  assumes st: "wait_step E g t op p w = (c, w')" and "loud p" and E: "cont_ok E"
  shows "c = Next p \<and> w' = w \<or> loud_effect E t p c w w'"
proof (cases p)
  case BPush
  with st show ?thesis
    by (cases op) (auto simp: loud_effect_def on_sync_def with_mut_atomic_def push_handle_def vec_push_def cv_lists)
next
  case SPush
  with st show ?thesis
    by (cases op) (auto simp: loud_effect_def push_new_flag_def new_flag_def split: prod.splits)
next
  case APush
  with st show ?thesis
    by (cases op) (auto simp: loud_effect_def on_async_def with_mut_atomic_def push_handle_def vec_push_def
        cv_lists new_cont_def fetch_waiter_id_def split: prod.splits)
next
  case (APushT i r)
  with st show ?thesis
    by (cases op) (auto simp: loud_effect_def on_async_def with_mut_atomic_def push_handle_def vec_push_def cv_lists)
next
  case BRemove
  obtain x w1 where w1: "on_sync (remove_handle (\<lambda>x. x = t)) w = (x, w1)" by force
  then have "sync_list w1 = remove1 t (sync_list w)" "async_list w1 = async_list w" "spin_list w1 = spin_list w"
      "wake_flags w1 = wake_flags w" "next_flag w1 = next_flag w"
    using remove_handle_eq(1) [of t "sync_list w"]
    by (auto simp: on_sync_def with_mut_atomic_def cv_lists split: prod.splits)
  with BRemove st w1 show ?thesis
    by (cases op) (auto simp: loud_effect_def split: option.splits)
next
  case (SRemove f)
  obtain x w1 where w1: "on_spin (remove_handle (\<lambda>x. x = f)) w = (x, w1)" by force
  then have "spin_list w1 = remove1 f (spin_list w)" "async_list w1 = async_list w" "sync_list w1 = sync_list w"
      "wake_flags w1 = wake_flags w" "next_flag w1 = next_flag w"
      "x = (if f \<in> set (spin_list w) then Some f else None)"
    using remove_handle_eq [of f "spin_list w"]
    by (auto simp: on_spin_def with_mut_atomic_def cv_lists split: prod.splits)
  with SRemove st w1 show ?thesis
    by (cases op) (auto simp: loud_effect_def split: option.splits if_splits)
next
  case (ARemove i)
  show ?thesis
  proof (cases "\<exists>d. op = WaitAsyncTimeout d")
    case True
    then obtain d where op: "op = WaitAsyncTimeout d" by blast
    define P where "P = (\<lambda>x :: async_waiter. waiter_id x = i)"
    obtain x hs where rh: "remove_handle P (async_list w) = (x, hs)" by force
    have keep: "a \<in> set hs \<or> x = Some a" if "a \<in> set (async_list w)" for a
    proof (cases "vec_position P (async_list w)")
      case None
      with rh that show ?thesis unfolding remove_handle_def None by simp
    next
      case (Some j)
      then have "set (async_list w) = insert (async_list w ! j) (set (vec_remove (async_list w) j))"
        by (intro set_vec_remove) (auto dest: vec_position_SomeD)
      with rh that show ?thesis unfolding remove_handle_def Some by auto
    qed
    have "on_async (remove_handle P) w =
        (x, w\<lparr>cv := (cv w)\<lparr>cv_waiting_async_threads := (cv_waiting_async_threads (cv w))\<lparr>sl_data := hs\<rparr>\<rparr>\<rparr>)"
      using rh by (simp add: on_async_def with_mut_atomic_def async_list_def)
    with st ARemove op show ?thesis
      by (cases x) (auto simp: P_def loud_effect_def cv_lists send_to_def cont_ok_send [OF E]
          dest: keep [unfolded async_list_def])
  next
    case False
    with ARemove st show ?thesis by (cases op) auto
  qed
qed (use assms in auto)

section \<open>No notification is lost\<close>

definition in_hand_of :: "('k, 'a, 'z) cworld_scheme \<Rightarrow> tid \<Rightarrow> handle set" where
  "in_hand_of w u = set (call_hand (ccalls w u))"

definition expects :: "('k, 'a, 'z) cworld_scheme \<Rightarrow> tid \<Rightarrow> handle \<Rightarrow> bool" where
  "expects w t h \<longleftrightarrow> (\<exists>p. call_pc (ccalls w t) = Some p \<and> waits_on t p = Some h)"

definition cared_for :: "'k env \<Rightarrow> ('k, 'a, 'z) cworld_scheme \<Rightarrow> handle \<Rightarrow> bool" where
  "cared_for E w h \<longleftrightarrow> listed w h \<or> woken E w h \<or> (\<exists>u. h \<in> in_hand_of w u)"

definition track :: "'k env \<Rightarrow> ('k, 'a, 'z) cworld_scheme \<Rightarrow> bool" where
  "track E w \<longleftrightarrow> (\<forall>t h. expects w t h \<longrightarrow> cared_for E w h)"

text \<open>The wake flags: each is owned by at most one wait, and is on the list once, or in the
  hand of one notifier, or set, and not two of these; a spin wait that reports a timeout has
  left no trace of its flag, and one that reports a notification has seen it set.\<close>

definition owns_flag :: "('k, 'a, 'z) cworld_scheme \<Rightarrow> tid \<Rightarrow> flag \<Rightarrow> bool" where
  "owns_flag w t f \<longleftrightarrow> (\<exists>p. call_pc (ccalls w t) = Some p \<and> pc_flag p = Some f)"

fun npc_flags :: "notify_pc \<Rightarrow> flag list" where
  "npc_flags (OneStore f) = [f]"
| "npc_flags (AllStore fs) = fs"
| "npc_flags p = []"

fun flag_hand :: "'a ccall \<Rightarrow> flag list" where
  "flag_hand (Notifying p) = npc_flags p"
| "flag_hand c = []"

definition flag_places :: "flag list \<Rightarrow> (tid \<Rightarrow> flag list) \<Rightarrow> (flag \<Rightarrow> bool) \<Rightarrow> flag \<Rightarrow> bool" where
  "flag_places L H k n \<longleftrightarrow>
     distinct L \<and> (\<forall>u. distinct (H u)) \<and> (\<forall>u. set (H u) \<inter> set L = {}) \<and>
     (\<forall>u v. u \<noteq> v \<longrightarrow> set (H u) \<inter> set (H v) = {}) \<and>
     (\<forall>f. k f \<longrightarrow> f \<notin> set L \<and> (\<forall>u. f \<notin> set (H u)) \<and> f < n) \<and>
     (\<forall>f \<in> set L. f < n) \<and> (\<forall>u. \<forall>f \<in> set (H u). f < n)"

definition hands :: "('k, 'a, 'z) cworld_scheme \<Rightarrow> tid \<Rightarrow> flag list" where
  "hands w u = flag_hand (ccalls w u)"

definition places :: "('k, 'a, 'z) cworld_scheme \<Rightarrow> bool" where
  "places w \<longleftrightarrow> flag_places (spin_list w) (hands w) (wake_flags w) (next_flag w)"

lemma flag_places_push:
  "flag_places L H k n \<Longrightarrow> flag_places (L @ [n]) H (k(n := False)) (Suc n)"
  unfolding flag_places_def by (auto simp: less_Suc_eq)

lemma flag_places_remove: "flag_places L H k n \<Longrightarrow> flag_places (remove1 f L) H k n"
  unfolding flag_places_def by (auto dest: notin_set_remove1 set_remove1_subset [THEN subsetD])

lemma flag_places_pop:
  "flag_places (L @ [f]) H k n \<Longrightarrow> H t = [] \<Longrightarrow> flag_places L (H(t := [f])) k n"
  unfolding flag_places_def by auto

lemma flag_places_take:
  "flag_places L H k n \<Longrightarrow> H t = [] \<Longrightarrow> flag_places [] (H(t := L)) k n"
  unfolding flag_places_def by auto

lemma flag_places_store:
  "flag_places L H k n \<Longrightarrow> H t = f # fs \<Longrightarrow> flag_places L (H(t := fs)) (k(f := True)) n"
  unfolding flag_places_def
  by (auto split: if_splits) (metis disjoint_iff list.set_intros distinct.simps(2))+

definition owners :: "('k, 'a, 'z) cworld_scheme \<Rightarrow> bool" where
  "owners w \<longleftrightarrow> (\<forall>t u f. owns_flag w t f \<longrightarrow> owns_flag w u f \<longrightarrow> t = u) \<and>
     (\<forall>t f. owns_flag w t f \<longrightarrow> f < next_flag w)"

text \<open>The flag is nowhere: not on the list, in no hand, and not set.\<close>

definition nowhere :: "('k, 'a, 'z) cworld_scheme \<Rightarrow> flag \<Rightarrow> bool" where
  "nowhere w f \<longleftrightarrow> f \<notin> set (spin_list w) \<and> (\<forall>u. f \<notin> set (hands w u)) \<and> \<not> wake_flags w f"

fun spin_verdict :: "('k, 'a, 'z) cworld_scheme \<Rightarrow> wait_pc \<Rightarrow> bool" where
  "spin_verdict w (SRelock f ro) =
     (if (\<exists>r. ro = Some r \<and> timed_out r) then nowhere w f else wake_flags w f)"
| "spin_verdict w (SLast f) = (f \<notin> set (spin_list w))"
| "spin_verdict w p = True"

definition verdicts :: "('k, 'a, 'z) cworld_scheme \<Rightarrow> bool" where
  "verdicts w \<longleftrightarrow> (\<forall>t p. call_pc (ccalls w t) = Some p \<longrightarrow> spin_verdict w p)"

definition cvinv :: "'k env \<Rightarrow> ('k, 'a, 'z) cworld_scheme \<Rightarrow> bool" where
  "cvinv E w \<longleftrightarrow> cinv E w \<and> track E w \<and> places w \<and> owners w \<and> verdicts w"

text \<open>What every step may do to the wake flags.\<close>

definition present :: "('k, 'a, 'z) cworld_scheme \<Rightarrow> flag \<Rightarrow> bool" where
  "present w f \<longleftrightarrow> \<not> nowhere w f"

definition spin_keeps :: "('k, 'a, 'z) cworld_scheme \<Rightarrow> ('k, 'a, 'z) cworld_scheme \<Rightarrow> bool" where
  "spin_keeps w w' \<longleftrightarrow> next_flag w \<le> next_flag w' \<and>
     (\<forall>f < next_flag w. (f \<in> set (spin_list w') \<longrightarrow> f \<in> set (spin_list w)) \<and>
        (nowhere w f \<longrightarrow> nowhere w' f) \<and> (wake_flags w f \<longrightarrow> wake_flags w' f))"

lemma spin_verdict_keeps:
  "spin_verdict w p \<Longrightarrow> spin_keeps w w' \<Longrightarrow> (\<And>f. pc_flag p = Some f \<Longrightarrow> f < next_flag w) \<Longrightarrow> spin_verdict w' p"
  by (cases p) (auto simp: spin_keeps_def)

lemma hands_set_call: "ccalls w' = ccalls w \<Longrightarrow> hands (set_call t d w') = (hands w)(t := flag_hand d)"
  by (auto simp: hands_def)

lemma lists_set_call [simp]:
  "spin_list (set_call t d w) = spin_list w" "sync_list (set_call t d w) = sync_list w"
  "async_list (set_call t d w) = async_list w" "listed (set_call t d w) h = listed w h"
  "woken E (set_call t d w) h = woken E w h"
  by (cases h; simp add: cv_lists)+

lemma expects_owns: "expects w t (HFlag f) \<Longrightarrow> owns_flag w t f"
  unfolding expects_def owns_flag_def
  by (elim exE conjE, rename_tac p, case_tac p) auto

lemma expects_thread: "expects w t (HThread u) \<Longrightarrow> u = t"
  unfolding expects_def by (elim exE conjE, rename_tac p, case_tac p) auto

lemma waits_live: "wpc_ok E w op p \<Longrightarrow> waits_on t p = Some (HCont r) \<Longrightarrow> is_live E (conts w) r"
  by (cases p) auto

lemma call_pc_ok:
  assumes "cinv E w" "call_pc (ccalls w t) = Some p"
  shows "\<exists>op. wpc_ok E w op p \<and> in_phase (pc_phase p) (agents w t)"
proof -
  from assms(1) have "call_ok E w (ccalls w t) (agents w t)" by (simp add: cinv_def)
  with assms(2) show ?thesis by (cases "ccalls w t" rule: call_pc.cases) auto
qed

lemma expects_live: "cinv E w \<Longrightarrow> expects w t (HCont r) \<Longrightarrow> is_live E (conts w) r"
  unfolding expects_def using call_pc_ok waits_live by blast

text \<open>A step of agent \<open>t\<close>: its call becomes \<open>d\<close>. What the others expect stays cared for.\<close>

lemma track_agent:
  assumes inv: "cinv E w" "track E w" and cc: "ccalls w' = ccalls w"
    and others: "\<And>u h. u \<noteq> t \<Longrightarrow> expects w u h \<Longrightarrow> cared_for E w h \<Longrightarrow> cared_for E (set_call t d w') h"
    and own: "\<And>p h. call_pc d = Some p \<Longrightarrow> waits_on t p = Some h \<Longrightarrow> cared_for E (set_call t d w') h"
  shows "track E (set_call t d w')"
  unfolding track_def
proof (intro allI impI)
  fix u h assume ex: "expects (set_call t d w') u h"
  show "cared_for E (set_call t d w') h"
  proof (cases "u = t")
    case True
    with ex own show ?thesis by (auto simp: expects_def)
  next
    case False
    with ex cc have "expects w u h" by (simp add: expects_def)
    with inv(2) False others show ?thesis by (simp add: track_def)
  qed
qed

lemma woken_mono:
  assumes "os_keeps E w w'" "\<And>u. u \<noteq> t \<Longrightarrow> token w u \<Longrightarrow> token w' u"
    and "\<And>f. f < next_flag w \<Longrightarrow> wake_flags w f \<Longrightarrow> wake_flags w' f"
    and "h \<noteq> HThread t" "\<And>f. h = HFlag f \<Longrightarrow> f < next_flag w" "\<And>r. h = HCont r \<Longrightarrow> is_live E (conts w) r"
  shows "woken E w h \<Longrightarrow> woken E w' h"
  using assms by (cases h) (auto simp: os_keeps_def)

text \<open>The handles of a wait's step that leave no notifier's hand and are on their lists.\<close>

lemma call_pc_hands: "call_pc c = Some p \<Longrightarrow> call_hand c = [] \<and> flag_hand c = []"
  by (cases c rule: call_pc.cases) auto

definition wait_call :: "wait_ctl \<Rightarrow> 'a ccall \<Rightarrow> bool" where
  "wait_call c d \<longleftrightarrow> call_hand d = [] \<and> flag_hand d = [] \<and>
     (\<forall>p'. call_pc d = Some p' \<longrightarrow> c = Next p')"

lemma cared_for_agent:
  assumes "ccalls w' = ccalls w" "call_hand (ccalls w t) = []" "call_hand d = []"
  shows "cared_for E (set_call t d w') h \<longleftrightarrow> listed w' h \<or> woken E w' h \<or> (\<exists>u. h \<in> in_hand_of w u)"
proof -
  have "in_hand_of (set_call t d w') u = in_hand_of w u" for u
    using assms by (cases "u = t") (simp_all add: in_hand_of_def)
  then show ?thesis by (simp add: cared_for_def)
qed

text \<open>Agent \<open>t\<close> makes a step of its wait at \<open>p\<close> with outcome \<open>c\<close>; its call becomes \<open>d\<close>.\<close>

definition wait_move :: "'k env \<Rightarrow> tid \<Rightarrow> wait_pc \<Rightarrow> wait_ctl \<Rightarrow> 'a ccall \<Rightarrow> ('k, 'a, 'z) cworld_scheme \<Rightarrow>
    ('k, 'a, 'z) cworld_scheme \<Rightarrow> bool" where
  "wait_move E t p c d w w' \<longleftrightarrow> cvinv E w \<and> call_pc (ccalls w t) = Some p \<and> wait_call c d \<and>
     os_keeps E w w' \<and> step_facts E t c w w'"

lemma wait_moveD:
  assumes "wait_move E t p c d w w'"
  shows "cinv E w" "track E w" "places w" "owners w" "verdicts w" "call_pc (ccalls w t) = Some p"
    "wait_call c d" "os_keeps E w w'" "ccalls w' = ccalls w" "\<And>u. u \<noteq> t \<Longrightarrow> token w u \<Longrightarrow> token w' u"
  using assms by (auto simp: wait_move_def cvinv_def step_facts_def moves_def)

lemma wait_cared:
  assumes "wait_move E t p c d w w'"
  shows "cared_for E (set_call t d w') h \<longleftrightarrow> listed w' h \<or> woken E w' h \<or> (\<exists>u. h \<in> in_hand_of w u)"
  using wait_moveD(6,7,9) [OF assms] call_pc_hands [OF wait_moveD(6) [OF assms]]
  by (intro cared_for_agent) (auto simp: wait_call_def)

lemma wait_hands:
  assumes "wait_move E t p c d w w'" shows "hands (set_call t d w') = hands w"
  using wait_moveD(6,7,9) [OF assms] call_pc_hands [OF wait_moveD(6) [OF assms]]
  by (auto simp: hands_def wait_call_def)

lemma owns_flag_lt: "owners w \<Longrightarrow> owns_flag w u f \<Longrightarrow> f < next_flag w"
  by (auto simp: owners_def)

lemma wait_woken:
  assumes wm: "wait_move E t p c d w w'" and ex: "expects w u h" and "u \<noteq> t"
    and flags: "\<And>f. f < next_flag w \<Longrightarrow> wake_flags w f \<Longrightarrow> wake_flags w' f"
  shows "woken E w h \<Longrightarrow> woken E w' h"
proof (rule woken_mono [OF wait_moveD(8) [OF wm], where t = t])
  show "h \<noteq> HThread t" using expects_thread ex \<open>u \<noteq> t\<close> by blast
  show "\<And>f. h = HFlag f \<Longrightarrow> f < next_flag w"
    using ex expects_owns owns_flag_lt [OF wait_moveD(4) [OF wm]] by blast
  show "\<And>r. h = HCont r \<Longrightarrow> is_live E (conts w) r" using ex expects_live wait_moveD(1) [OF wm] by blast
qed (use wait_moveD(10) [OF wm] flags in auto)

lemma wait_expects: "wait_move E t p c d w w' \<Longrightarrow> waits_on t p = Some h \<Longrightarrow> expects w t h"
  by (simp add: expects_def wait_moveD(6))

lemma wait_own_cared: "wait_move E t p c d w w' \<Longrightarrow> waits_on t p = Some h \<Longrightarrow> cared_for E w h"
  using wait_expects wait_moveD(2) by (metis track_def)

text \<open>The agent's own handle, kept over a step that keeps the list, the flags and its token.\<close>

lemma wait_own_woken:
  assumes wm: "wait_move E t p c d w w'" and h: "waits_on t p = Some h" "woken E w h"
    and "h = HThread t \<longrightarrow> token w t \<longrightarrow> token w' t" "wake_flags w' = wake_flags w"
  shows "woken E w' h"
proof (cases h)
  case (HThread u)
  with assms expects_thread [of w t u] wait_expects [OF wm h(1)] show ?thesis by simp
next
  case (HCont r)
  with h(2) expects_live [OF wait_moveD(1) [OF wm]] wait_expects [OF wm h(1)] wait_moveD(8) [OF wm]
  show ?thesis by (auto simp: os_keeps_def)
qed (use assms in simp)

lemma wait_quiet_cvinv:
  assumes wm: "wait_move E t p c d w w'" and q: "quiet_step t p c w w'"
  shows "track E (set_call t d w')" "places (set_call t d w')" "spin_keeps w (set_call t d w')"
    "call_pc d = Some p' \<Longrightarrow> stays t w p w' p'"
proof -
  note wD = wait_moveD [OF wm]
  from q have same: "quiet w w'" by (simp add: quiet_step_def)
  note ls = quietD [OF same]
  have listed: "listed w' h = listed w h" for h using ls by (cases h) auto
  have st': "stays t w p w' p'" if "call_pc d = Some p'" for p'
    using q wD(7) that by (auto simp: quiet_step_def wait_call_def)
  then show "call_pc d = Some p' \<Longrightarrow> stays t w p w' p'" .
  show "places (set_call t d w')"
    using wD(3) ls wait_hands [OF wm] by (simp add: places_def)
  show "spin_keeps w (set_call t d w')"
    using ls wait_hands [OF wm] by (simp add: spin_keeps_def nowhere_def)
  show "track E (set_call t d w')"
  proof (rule track_agent [OF wD(1,2,9)])
    fix u h assume a: "u \<noteq> t" "expects w u h" "cared_for E w h"
    have "woken E w h \<Longrightarrow> woken E w' h" using wait_woken [OF wm a(2,1)] ls by simp
    with a(3) have "listed w' h \<or> woken E w' h \<or> (\<exists>u. h \<in> in_hand_of w u)"
      unfolding cared_for_def listed by blast
    then show "cared_for E (set_call t d w') h" unfolding wait_cared [OF wm] .
  next
    fix p' h assume p': "call_pc d = Some p'" "waits_on t p' = Some h"
    from st' [OF p'(1)] p'(2) consider "waits_on t p = Some h" "token w t \<longrightarrow> token w' t" | "listed w h"
      unfolding stays_def by blast
    then show "cared_for E (set_call t d w') h"
    proof cases
      case 1
      have "woken E w h \<Longrightarrow> woken E w' h" using wait_own_woken [OF wm 1(1)] 1(2) ls by blast
      with wait_own_cared [OF wm 1(1)] have "listed w' h \<or> woken E w' h \<or> (\<exists>u. h \<in> in_hand_of w u)"
        unfolding cared_for_def listed by blast
      then show ?thesis unfolding wait_cared [OF wm] .
    next
      case 2
      then show ?thesis unfolding wait_cared [OF wm] listed by blast
    qed
  qed
qed

text \<open>What the step leaves agent \<open>t\<close> with: its flag is the one it had, or a new one, and its
  verdict is right.\<close>

definition own_ok :: "wait_pc \<Rightarrow> ('k, 'a, 'z) cworld_scheme \<Rightarrow> ('k, 'a, 'z) cworld_scheme \<Rightarrow> wait_pc \<Rightarrow> bool" where
  "own_ok p w w' p' \<longleftrightarrow>
     (pc_flag p' = None \<or> pc_flag p' = pc_flag p \<or>
      pc_flag p' = Some (next_flag w) \<and> next_flag w' = Suc (next_flag w)) \<and> spin_verdict w' p'"

lemma wait_quiet_own:
  assumes wm: "wait_move E t p c d w w'" and q: "quiet_step t p c w w'" and p': "call_pc d = Some p'"
  shows "own_ok p w (set_call t d w') p'"
proof -
  note wD = wait_moveD [OF wm] and qs = wait_quiet_cvinv [OF wm q]
  have st: "stays t w p w' p'" by (rule qs(4)) (rule p')
  have v: "spin_verdict w p" using wD(5,6) by (auto simp: verdicts_def)
  have lt: "pc_flag p = Some f \<Longrightarrow> f < next_flag w" for f
    using owns_flag_lt [OF wD(4), of t f] wD(6) by (auto simp: owns_flag_def)
  have keep: "spin_verdict (set_call t d w') p" by (rule spin_verdict_keeps [OF v qs(3) lt])
  have "spin_verdict (set_call t d w') p'"
  proof (cases p')
    case (SRelock f ro)
    with st consider "p = p'" | "p = SLoad f \<or> p = SLast f" "wake_flags w f" "\<forall>r. ro = Some r \<longrightarrow> \<not> timed_out r"
      unfolding stays_def by blast
    then show ?thesis
    proof cases
      case 2
      have "f < next_flag w" using 2(1) lt by auto
      with 2 qs(3) SRelock show ?thesis by (auto simp: spin_keeps_def)
    qed (use keep in simp)
  next
    case (SLast f)
    with st have "p = p'" by (simp add: stays_def)
    with keep show ?thesis by simp
  qed simp_all
  with st show ?thesis by (auto simp: own_ok_def stays_def)
qed

text \<open>The common part of the loud steps.\<close>

lemma wait_loud_track:
  assumes wm: "wait_move E t p c d w w'"
    and flags: "\<And>f. f < next_flag w \<Longrightarrow> wake_flags w f \<Longrightarrow> wake_flags w' f"
    and lists: "\<And>u h. u \<noteq> t \<Longrightarrow> expects w u h \<Longrightarrow> listed w h \<Longrightarrow> listed w' h \<or> woken E w' h"
    and own: "\<And>p' h. call_pc d = Some p' \<Longrightarrow> waits_on t p' = Some h \<Longrightarrow>
      listed w' h \<or> waits_on t p = Some h \<and> (listed w h \<longrightarrow> listed w' h) \<and>
        (h = HThread t \<longrightarrow> token w t \<longrightarrow> token w' t) \<and> wake_flags w' = wake_flags w"
  shows "track E (set_call t d w')"
proof (rule track_agent [OF wait_moveD(1,2,9) [OF wm]])
  fix u h assume a: "u \<noteq> t" "expects w u h" "cared_for E w h"
  have "woken E w h \<Longrightarrow> woken E w' h" using wait_woken [OF wm a(2,1)] flags by simp
  with a(3) lists [OF a(1,2)] have "listed w' h \<or> woken E w' h \<or> (\<exists>u. h \<in> in_hand_of w u)"
    unfolding cared_for_def by blast
  then show "cared_for E (set_call t d w') h" unfolding wait_cared [OF wm] .
next
  fix p' h assume p': "call_pc d = Some p'" "waits_on t p' = Some h"
  from own [OF p'] have "listed w' h \<or> woken E w' h \<or> (\<exists>u. h \<in> in_hand_of w u)"
    using wait_own_cared [OF wm] wait_own_woken [OF wm] unfolding cared_for_def by metis
  then show "cared_for E (set_call t d w') h" unfolding wait_cared [OF wm] .
qed

lemma wait_loud_cvinv:
  assumes wm: "wait_move E t p c d w w'" and l: "loud p" and ef: "loud_effect E t p c w w'"
  shows "track E (set_call t d w') \<and> places (set_call t d w') \<and> spin_keeps w (set_call t d w') \<and>
    (\<forall>p'. call_pc d = Some p' \<longrightarrow> own_ok p w (set_call t d w') p')"
proof -
  note wD = wait_moveD [OF wm] and wh = wait_hands [OF wm]
  have cp: "call_pc d = Some p' \<Longrightarrow> c = Next p'" for p' using wD(7) by (simp add: wait_call_def)
  have fl: "flag_places (spin_list w) (hands w) (wake_flags w) (next_flag w)" using wD(3) by (simp add: places_def)
  have frame: "places (set_call t d w') \<and> spin_keeps w (set_call t d w')"
    if "spin_list w' = spin_list w" "wake_flags w' = wake_flags w" "next_flag w' = next_flag w"
    using wD(3) that wh by (simp add: places_def spin_keeps_def nowhere_def)
  show ?thesis
  proof (cases p)
    case BPush
    with ef have e: "sync_list w' = sync_list w @ [t]" "async_list w' = async_list w" "spin_list w' = spin_list w"
      "wake_flags w' = wake_flags w" "next_flag w' = next_flag w" "c = Next BRelease"
      by (auto simp: loud_effect_def)
    have "listed w h \<Longrightarrow> listed w' h" for h using e by (cases h) auto
    then have "track E (set_call t d w')"
      by (intro wait_loud_track [OF wm]) (use e cp in auto)
    with frame e cp show ?thesis by (auto simp: own_ok_def)
  next
    case SPush
    with ef have "push_new_flag w = (next_flag w, w')" and c: "c = Next (SRelease (next_flag w))"
      by (auto simp: loud_effect_def)
    note e = spin_flag_fresh [OF this(1)]
    have "listed w h \<Longrightarrow> listed w' h" for h using e by (cases h) auto
    then have "track E (set_call t d w')"
      by (intro wait_loud_track [OF wm]) (use e c cp in auto)
    moreover have "places (set_call t d w')"
      using flag_places_push [OF fl] e wh by (simp add: places_def)
    moreover have "spin_keeps w (set_call t d w')"
      using e wh by (simp add: spin_keeps_def nowhere_def)
    ultimately show ?thesis using e c cp by (auto simp: own_ok_def)
  next
    case APush
    with ef obtain i r where e: "sync_list w' = sync_list w" "spin_list w' = spin_list w"
      "wake_flags w' = wake_flags w" "next_flag w' = next_flag w"
      "async_list w' = async_list w @ [\<lparr>waiter_id = i, waiter_sender = r\<rparr>]" "c = Next (ARelease r)"
      by (auto simp: loud_effect_def)
    have "listed w h \<Longrightarrow> listed w' h" for h using e by (cases h) auto
    then have "track E (set_call t d w')"
      by (intro wait_loud_track [OF wm]) (use e cp in auto)
    with frame e cp show ?thesis by (auto simp: own_ok_def)
  next
    case (APushT i r)
    with ef have e: "sync_list w' = sync_list w" "spin_list w' = spin_list w"
      "wake_flags w' = wake_flags w" "next_flag w' = next_flag w"
      "async_list w' = async_list w @ [\<lparr>waiter_id = i, waiter_sender = r\<rparr>]" "c = Next (ASpawn i r)"
      by (auto simp: loud_effect_def)
    have "listed w h \<Longrightarrow> listed w' h" for h using e by (cases h) auto
    then have "track E (set_call t d w')"
      by (intro wait_loud_track [OF wm]) (use e cp in auto)
    with frame e cp show ?thesis by (auto simp: own_ok_def)
  next
    case BRemove
    with ef obtain lm b where e: "sync_list w' = remove1 t (sync_list w)" "async_list w' = async_list w"
      "spin_list w' = spin_list w" "wake_flags w' = wake_flags w" "next_flag w' = next_flag w"
      "c = Next (Relock lm (Some (WaitTimeoutResult b)))"
      by (auto simp: loud_effect_def)
    have "track E (set_call t d w')"
    proof (rule wait_loud_track [OF wm])
      fix u h assume "u \<noteq> t" "expects w u h" "listed w h"
      with e expects_thread [of w u] show "listed w' h \<or> woken E w' h" by (cases h) fastforce+
    qed (use e cp in auto)
    with frame e cp show ?thesis by (auto simp: own_ok_def)
  next
    case (SRemove f)
    with ef have e: "spin_list w' = remove1 f (spin_list w)" "async_list w' = async_list w"
      "sync_list w' = sync_list w" "wake_flags w' = wake_flags w" "next_flag w' = next_flag w"
      and c: "c = (if f \<in> set (spin_list w) then Next (SRelock f (Some (WaitTimeoutResult True))) else Next (SLast f))"
      by (auto simp: loud_effect_def)
    have dl: "distinct (spin_list w)" "f \<in> set (spin_list w) \<Longrightarrow> (\<forall>u. f \<notin> set (hands w u)) \<and> \<not> wake_flags w f"
      using fl unfolding flag_places_def by blast+
    have of: "owns_flag w t f" using wD(6) SRemove by (simp add: owns_flag_def)
    have "track E (set_call t d w')"
    proof (rule wait_loud_track [OF wm])
      fix u h assume a: "u \<noteq> t" "expects w u h" "listed w h"
      show "listed w' h \<or> woken E w' h"
      proof (cases h)
        case (HFlag f')
        with a(2) have "owns_flag w u f'" by (simp add: expects_owns)
        with of a(1) wD(4) have "f' \<noteq> f" by (auto simp: owners_def)
        with HFlag a(3) e show ?thesis by simp
      qed (use a e in auto)
    next
      fix p' h assume p': "call_pc d = Some p'" "waits_on t p' = Some h"
      from cp [OF p'(1)] c p'(2) have "f \<notin> set (spin_list w)" "h = HFlag f" by (auto split: if_splits)
      then show "listed w' h \<or> waits_on t p = Some h \<and> (listed w h \<longrightarrow> listed w' h) \<and>
        (h = HThread t \<longrightarrow> token w t \<longrightarrow> token w' t) \<and> wake_flags w' = wake_flags w"
        using SRemove e by simp
    qed (use e in auto)
    moreover have "places (set_call t d w')"
      using flag_places_remove [OF fl] e wh by (simp add: places_def)
    moreover have "spin_keeps w (set_call t d w')"
      using e wh by (auto simp: spin_keeps_def nowhere_def dest: notin_set_remove1 set_remove1_subset [THEN subsetD])
    moreover have "own_ok p w (set_call t d w') p'" if "call_pc d = Some p'" for p'
      using cp [OF that] c SRemove e dl wh
      by (cases "f \<in> set (spin_list w)") (auto simp: own_ok_def nowhere_def)
    ultimately show ?thesis by blast
  next
    case (ARemove i)
    with ef have e: "sync_list w' = sync_list w" "spin_list w' = spin_list w"
      "wake_flags w' = wake_flags w" "next_flag w' = next_flag w"
      "c = Next (Relock LockAsync (Some (WaitTimeoutResult True)))"
      "\<And>a. a \<in> set (async_list w) \<Longrightarrow> a \<in> set (async_list w') \<or> is_ready E (conts w') (waiter_sender a)"
      by (auto simp: loud_effect_def)
    have "track E (set_call t d w')"
    proof (rule wait_loud_track [OF wm])
      fix u h assume "u \<noteq> t" "expects w u h" "listed w h"
      with e show "listed w' h \<or> woken E w' h" by (cases h) auto
    qed (use e cp in auto)
    with frame e cp show ?thesis by (auto simp: own_ok_def)
  qed (use l in auto)
qed

lemma owners_verdicts_agent:
  assumes ow: "owners w" "verdicts w" and k: "spin_keeps w w2" and cc: "ccalls w2 = (ccalls w)(t := d)"
    and own: "\<And>p'. call_pc d = Some p' \<Longrightarrow>
      (pc_flag p' = None \<or> (\<exists>p. call_pc (ccalls w t) = Some p \<and> pc_flag p' = pc_flag p) \<or>
       pc_flag p' = Some (next_flag w) \<and> next_flag w2 = Suc (next_flag w)) \<and> spin_verdict w2 p'"
  shows "owners w2 \<and> verdicts w2"
proof
  have nx: "next_flag w \<le> next_flag w2" using k by (simp add: spin_keeps_def)
  have other: "owns_flag w2 u f \<longleftrightarrow> owns_flag w u f" if "u \<noteq> t" for u f
    using that cc by (simp add: owns_flag_def)
  have mine: "owns_flag w t f \<or> f = next_flag w \<and> next_flag w2 = Suc (next_flag w)" if "owns_flag w2 t f" for f
  proof -
    from that cc obtain p' where "call_pc d = Some p'" "pc_flag p' = Some f" by (auto simp: owns_flag_def)
    with own [of p'] show ?thesis by (auto simp: owns_flag_def)
  qed
  have lt: "owns_flag w u f \<Longrightarrow> f < next_flag w" for u f using ow(1) by (rule owns_flag_lt)
  have uniq: "owns_flag w u f \<Longrightarrow> owns_flag w v f \<Longrightarrow> u = v" for u v f using ow(1) by (auto simp: owners_def)
  show "owners w2" unfolding owners_def
  proof (intro conjI allI impI)
    fix u v f assume a: "owns_flag w2 u f" "owns_flag w2 v f"
    show "u = v"
      using a other mine lt uniq by (metis less_irrefl)
  next
    fix u f assume "owns_flag w2 u f"
    then show "f < next_flag w2" using other mine lt nx by (metis less_Suc_eq less_le_trans)
  qed
  show "verdicts w2" unfolding verdicts_def
  proof (intro allI impI)
    fix u p assume p: "call_pc (ccalls w2 u) = Some p"
    show "spin_verdict w2 p"
    proof (cases "u = t")
      case True
      with p own cc show ?thesis by simp
    next
      case False
      with p cc have "call_pc (ccalls w u) = Some p" by simp
      with ow(2) have "spin_verdict w p" by (auto simp: verdicts_def)
      then show ?thesis
      proof (rule spin_verdict_keeps [OF _ k])
        fix f assume "pc_flag p = Some f"
        with \<open>call_pc (ccalls w u) = Some p\<close> show "f < next_flag w"
          using lt by (auto simp: owns_flag_def)
      qed
    qed
  qed
qed

lemma cvinv_wait_move:
  assumes wm: "wait_move E t p c d w w'" and st: "wait_step E g t op p w = (c, w')"
    and ci: "cinv E (set_call t d w')"
  shows "cvinv E (set_call t d w')"
proof -
  note wD = wait_moveD [OF wm]
  have E: "cont_ok E" using wD(1) by (simp add: cinv_def minv_def)
  have ph: "in_phase (pc_phase p) (agents w t)" using call_pc_ok [OF wD(1,6)] by blast
  consider "quiet_step t p c w w'" | "loud p" "loud_effect E t p c w w'" | "c = Next p" "w' = w"
    using wait_step_quiet [OF st ph] wait_step_loud [OF st _ E] by blast
  then have "track E (set_call t d w') \<and> places (set_call t d w') \<and> spin_keeps w (set_call t d w') \<and>
    (\<forall>p'. call_pc d = Some p' \<longrightarrow> own_ok p w (set_call t d w') p')"
  proof cases
    case 1
    then show ?thesis using wait_quiet_cvinv [OF wm] wait_quiet_own [OF wm] by blast
  next
    case 2
    then show ?thesis by (intro wait_loud_cvinv [OF wm])
  next
    case 3
    have "stays t w p w p" by (auto simp: stays_def)
    with 3 have "quiet_step t p c w w'" by (simp add: quiet_step_def)
    then show ?thesis using wait_quiet_cvinv [OF wm] wait_quiet_own [OF wm] by blast
  qed
  note r = this
  have "owners (set_call t d w') \<and> verdicts (set_call t d w')"
  proof (rule owners_verdicts_agent [OF wD(4,5)])
    show "spin_keeps w (set_call t d w')" using r by blast
    show "ccalls (set_call t d w') = (ccalls w)(t := d)" using wD(9) by simp
  qed (use r wD(6) in \<open>auto simp: own_ok_def\<close>)
  with r ci show ?thesis by (simp add: cvinv_def)
qed

text \<open>The steps that leave the lists, the flags and the platform alone.\<close>

lemma cvinv_begin:
  assumes inv: "cvinv E w" and ci: "cinv E (set_call t d w')"
    and same: "quiet w w'" "ccalls w' = ccalls w" "token w' = token w" "conts w' = conts w"
    and old: "call_hand (ccalls w t) = []" "flag_hand (ccalls w t) = []"
    and new: "call_hand d = []" "flag_hand d = []" "\<And>p. call_pc d = Some p \<Longrightarrow> waits_on t p = None \<and> pc_flag p = None"
  shows "cvinv E (set_call t d w')"
proof -
  have inv': "cinv E w" "track E w" "places w" "owners w" "verdicts w" using inv by (auto simp: cvinv_def)
  note ls = quietD [OF same(1)]
  have h: "hands (set_call t d w') = hands w" using same(2) old new by (auto simp: hands_def)
  have "listed w' h = listed w h" "woken E w' h = woken E w h" for h
    using ls same(3,4) by (cases h; simp)+
  then have c: "cared_for E (set_call t d w') h = cared_for E w h" for h
    using cared_for_agent [OF same(2) old(1) new(1), of E h] by (simp add: cared_for_def)
  have k: "spin_keeps w (set_call t d w')" using ls by (simp add: spin_keeps_def nowhere_def h)
  have "track E (set_call t d w')"
    by (rule track_agent [OF inv'(1,2) same(2)]) (use c new(3) in auto)
  moreover have "places (set_call t d w')" using inv'(3) ls by (simp add: places_def h)
  moreover have "owners (set_call t d w') \<and> verdicts (set_call t d w')"
  proof (rule owners_verdicts_agent [OF inv'(4,5) k])
    fix p' assume "call_pc d = Some p'"
    with new(3) have "pc_flag p' = None" "waits_on t p' = None" by blast+
    then show "(pc_flag p' = None \<or> (\<exists>p. call_pc (ccalls w t) = Some p \<and> pc_flag p' = pc_flag p) \<or>
       pc_flag p' = Some (next_flag w) \<and> next_flag (set_call t d w') = Suc (next_flag w)) \<and>
      spin_verdict (set_call t d w') p'"
      by (cases p') auto
  qed (use same in simp)
  ultimately show ?thesis using ci by (simp add: cvinv_def)
qed

lemma cvinv_client:
  assumes inv: "cvinv E w" and st: "mstep E w w'" and fr: "client_frame w w'" and ci: "cinv E w'"
  shows "cvinv E w'"
proof -
  have inv': "cinv E w" "track E w" "places w" "owners w" "verdicts w" using inv by (auto simp: cvinv_def)
  have k: "os_keeps E w w'" using mstep_platform [OF st] inv'(1) by (auto simp: cinv_def plat_inv_def)
  have f: "cv w' = cv w" "wake_flags w' = wake_flags w" "next_flag w' = next_flag w" "ccalls w' = ccalls w"
    "\<And>t. ccalls w t \<noteq> NoCall \<Longrightarrow> token w t \<Longrightarrow> token w' t"
    using fr by (auto simp: client_frame_def)
  have ls: "spin_list w' = spin_list w" "sync_list w' = sync_list w" "async_list w' = async_list w"
    using f(1) by (simp_all add: cv_lists)
  have same: "hands w' = hands w" "owns_flag w' = owns_flag w" "expects w' = expects w" "in_hand_of w' = in_hand_of w"
    using f(4) by (auto simp: hands_def owns_flag_def expects_def in_hand_of_def fun_eq_iff)
  have "nowhere w' = nowhere w" using ls same f by (auto simp: nowhere_def fun_eq_iff)
  then have sv: "spin_verdict w' p = spin_verdict w p" for p using ls f by (cases p) auto
  have "cared_for E w' h" if ex: "expects w t h" and c: "cared_for E w h" for t h
  proof -
    have "ccalls w t \<noteq> NoCall" using ex by (auto simp: expects_def)
    then have "woken E w h \<Longrightarrow> woken E w' h"
      using f(2,5) ex k expects_thread [of w t] expects_live [OF inv'(1)]
      by (cases h) (auto simp: os_keeps_def)
    moreover have "listed w' h = listed w h" using ls by (cases h) auto
    ultimately show ?thesis using c same by (auto simp: cared_for_def)
  qed
  then have "track E w'" using inv'(2) same by (auto simp: track_def)
  moreover have "places w'" using inv'(3) ls same f by (simp add: places_def)
  moreover have "owners w'" using inv'(4) same f by (simp add: owners_def)
  moreover have "verdicts w'" using inv'(5) sv f by (simp add: verdicts_def)
  ultimately show ?thesis using ci by (simp add: cvinv_def)
qed

section \<open>The notifications\<close>

fun nctl_hand :: "notify_ctl \<Rightarrow> handle list" where
  "nctl_hand (Next p) = npc_hand p"
| "nctl_hand c = []"

fun nctl_flags :: "notify_ctl \<Rightarrow> flag list" where
  "nctl_flags (Next p) = npc_flags p"
| "nctl_flags c = []"

lemma on_list_lists:
  "on_sync f w = (x, w') \<Longrightarrow> f (sync_list w) = (x, sync_list w') \<and> async_list w' = async_list w \<and>
     spin_list w' = spin_list w \<and> wake_flags w' = wake_flags w \<and> next_flag w' = next_flag w \<and>
     token w' = token w \<and> conts w' = conts w"
  "on_async fa w = (y, w') \<Longrightarrow> fa (async_list w) = (y, async_list w') \<and> sync_list w' = sync_list w \<and>
     spin_list w' = spin_list w \<and> wake_flags w' = wake_flags w \<and> next_flag w' = next_flag w \<and>
     token w' = token w \<and> conts w' = conts w"
  "on_spin fs w = (z, w') \<Longrightarrow> fs (spin_list w) = (z, spin_list w') \<and> sync_list w' = sync_list w \<and>
     async_list w' = async_list w \<and> wake_flags w' = wake_flags w \<and> next_flag w' = next_flag w \<and>
     token w' = token w \<and> conts w' = conts w"
  by (auto simp: on_sync_def on_async_def on_spin_def with_mut_atomic_def cv_lists split: prod.splits)

lemma vec_pop_cases:
  "vec_pop xs = (x, ys) \<Longrightarrow> (x = None \<and> xs = [] \<and> ys = []) \<or> (\<exists>a. x = Some a \<and> xs = ys @ [a])"
  by (cases x) (auto simp: vec_pop_def split: if_splits)

lemma wake_lists [simp]:
  "sync_list (set_flag f w) = sync_list w" "async_list (set_flag f w) = async_list w"
  "spin_list (set_flag f w) = spin_list w" "next_flag (set_flag f w) = next_flag w"
  "wake_flags (set_flag f w) = (wake_flags w)(f := True)" "token (set_flag f w) = token w"
  "conts (set_flag f w) = conts w"
  "sync_list (unpark h w) = sync_list w" "async_list (unpark h w) = async_list w"
  "spin_list (unpark h w) = spin_list w" "next_flag (unpark h w) = next_flag w"
  "wake_flags (unpark h w) = wake_flags w" "token (unpark h w) = (token w)(h := True)"
  "conts (unpark h w) = conts w"
  "sync_list (send_to E r w) = sync_list w" "async_list (send_to E r w) = async_list w"
  "spin_list (send_to E r w) = spin_list w" "next_flag (send_to E r w) = next_flag w"
  "wake_flags (send_to E r w) = wake_flags w" "token (send_to E r w) = token w"
  "conts (send_to E r w) = send E r (conts w)"
  by (simp_all add: set_flag_def unpark_def send_to_def cv_lists)

text \<open>Nothing a notifier takes off a list is dropped before it has been woken.\<close>

lemma notify_track:
  assumes st: "notify_step E p w = (c, w')" and E: "cont_ok E"
    and h: "listed w h \<or> woken E w h \<or> h \<in> set (npc_hand p)"
  shows "listed w' h \<or> woken E w' h \<or> h \<in> set (nctl_hand c)"
proof (cases p)
  case (OneStore f)
  with st h show ?thesis by (cases h) (auto simp: notify_step_def)
next
  case (AllStore fs)
  with st h show ?thesis by (cases fs; cases h) (auto simp: notify_step_def)
next
  case (OneUnpark u)
  with st h show ?thesis by (cases h) (auto simp: notify_step_def)
next
  case (AllUnpark us)
  with st h show ?thesis by (cases us; cases h) (auto simp: notify_step_def)
next
  case (OneSend a)
  with st h show ?thesis by (cases h) (auto simp: notify_step_def cont_ok_send [OF E])
next
  case (AllSend xs)
  with st h show ?thesis by (cases xs; cases h) (auto simp: notify_step_def cont_ok_send [OF E])
next
  case OneSpin
  with st h show ?thesis
    by (cases h) (auto simp: notify_step_def split: prod.splits option.splits dest!: on_list_lists(3) vec_pop_cases)
next
  case OneSync
  with st h show ?thesis
    by (cases h) (auto simp: notify_step_def split: prod.splits option.splits dest!: on_list_lists(1) vec_pop_cases)
next
  case OneAsync
  with st h show ?thesis
    by (cases h) (auto simp: notify_step_def split: prod.splits option.splits dest!: on_list_lists(2) vec_pop_cases)
next
  case AllSpin
  with st h show ?thesis
    by (cases h) (auto simp: notify_step_def mem_take_def split: prod.splits dest!: on_list_lists(3))
next
  case AllSync
  with st h show ?thesis
    by (cases h) (auto simp: notify_step_def mem_take_def split: prod.splits dest!: on_list_lists(1))
next
  case AllAsync
  with st h show ?thesis
    by (cases h) (auto simp: notify_step_def mem_take_def split: prod.splits dest!: on_list_lists(2))
qed

text \<open>The wake flags move from the list to the notifier's hand, and from there they are set.\<close>

lemma notify_places:
  assumes st: "notify_step E p w = (c, w')"
    and fp: "flag_places (spin_list w) H (wake_flags w) (next_flag w)" and t: "H t = npc_flags p"
  shows "flag_places (spin_list w') (H(t := nctl_flags c)) (wake_flags w') (next_flag w')"
proof -
  have idem: "npc_flags p = [] \<Longrightarrow> H(t := []) = H" using t by auto
  show ?thesis
  proof (cases p)
    case (OneStore f)
    then show ?thesis using st flag_places_store [OF fp, of t f "[]"] t by (auto simp: notify_step_def)
  next
    case (AllStore fs)
    then show ?thesis using st fp flag_places_store [OF fp, of t] t
      by (cases fs) (auto simp: notify_step_def fun_upd_idem)
  next
    case OneSpin
    obtain x w1 where w1: "on_spin vec_pop w = (x, w1)" by force
    note e = on_list_lists(3) [OF w1]
    from vec_pop_cases [OF conjunct1 [OF e]] st OneSpin w1 e fp idem t flag_places_pop [of _ _ H "wake_flags w" "next_flag w" t]
    show ?thesis by (auto simp: notify_step_def split: option.splits)
  next
    case AllSpin
    then show ?thesis using st flag_places_take [OF fp, of t] t
      by (auto simp: notify_step_def mem_take_def split: prod.splits dest!: on_list_lists(3))
  next
    case (AllUnpark us)
    then show ?thesis using st fp idem by (cases us) (auto simp: notify_step_def)
  next
    case (AllSend xs)
    then show ?thesis using st fp idem by (cases xs) (auto simp: notify_step_def)
  qed (use st fp idem in \<open>auto simp: notify_step_def split: prod.splits option.splits dest!: on_list_lists\<close>)
qed

lemma notify_spin:
  assumes st: "notify_step E p w = (c, w')"
  shows "set (spin_list w') \<subseteq> set (spin_list w) \<and> set (nctl_flags c) \<subseteq> set (spin_list w) \<union> set (npc_flags p) \<and>
    (\<forall>f. wake_flags w' f \<longrightarrow> wake_flags w f \<or> f \<in> set (npc_flags p)) \<and>
    (\<forall>f. wake_flags w f \<longrightarrow> wake_flags w' f) \<and> next_flag w' = next_flag w"
proof (cases p)
  case (AllStore fs)
  then show ?thesis using st by (cases fs) (auto simp: notify_step_def split: if_splits)
next
  case OneSpin
  obtain x w1 where w1: "on_spin vec_pop w = (x, w1)" by force
  note e = on_list_lists(3) [OF w1]
  from vec_pop_cases [OF conjunct1 [OF e]] st OneSpin w1 e
  show ?thesis by (auto simp: notify_step_def split: option.splits)
next
  case AllSpin
  then show ?thesis using st
    by (auto simp: notify_step_def mem_take_def split: prod.splits dest!: on_list_lists(3))
next
  case (AllUnpark us)
  then show ?thesis using st by (cases us) (auto simp: notify_step_def)
next
  case (AllSend xs)
  then show ?thesis using st by (cases xs) (auto simp: notify_step_def)
qed (use st in \<open>auto simp: notify_step_def split: prod.splits option.splits dest!: on_list_lists\<close>)

lemma after_notify_hands:
  "call_hand (after_notify c) = nctl_hand c" "flag_hand (after_notify c) = nctl_flags c"
  "call_pc (after_notify c) = None"
  by (cases c; simp)+

lemma cvinv_notify:
  assumes inv: "cvinv E w" and call: "ccalls w t = Notifying p" and st: "notify_step E p w = (c, w')"
    and cc: "ccalls w' = ccalls w" and ci: "cinv E (set_call t (after_notify c) w')"
  shows "cvinv E (set_call t (after_notify c) w')"
proof -
  have inv': "cinv E w" "track E w" "places w" "owners w" "verdicts w" using inv by (auto simp: cvinv_def)
  have E: "cont_ok E" using inv'(1) by (simp add: cinv_def minv_def)
  note ah = after_notify_hands
  have hn: "hands (set_call t (after_notify c) w') = (hands w)(t := nctl_flags c)"
    by (auto simp: hands_def cc ah)
  have ht: "hands w t = npc_flags p" using call by (simp add: hands_def)
  have "cared_for E (set_call t (after_notify c) w') h" if "cared_for E w h" for h
  proof -
    have ih: "in_hand_of (set_call t (after_notify c) w') u = (if u = t then set (nctl_hand c) else in_hand_of w u)" for u
      by (simp add: in_hand_of_def cc ah)
    have it: "in_hand_of w t = set (npc_hand p)" using call by (simp add: in_hand_of_def)
    from that consider "listed w h \<or> woken E w h \<or> h \<in> set (npc_hand p)" | u where "u \<noteq> t" "h \<in> in_hand_of w u"
      unfolding cared_for_def using it by metis
    then show ?thesis
    proof cases
      case 1
      from notify_track [OF st E 1] show ?thesis unfolding cared_for_def using ih by (metis lists_set_call(4,5))
    next
      case 2
      then show ?thesis unfolding cared_for_def using ih by metis
    qed
  qed
  then have "track E (set_call t (after_notify c) w')"
    using inv'(2) by (intro track_agent [OF inv'(1,2) cc]) (auto simp: ah)
  moreover have "places (set_call t (after_notify c) w')"
    using notify_places [OF st, of "hands w" t] ht inv'(3) by (simp add: places_def hn)
  moreover have sk: "spin_keeps w (set_call t (after_notify c) w')"
  proof -
    note s = notify_spin [OF st]
    have "nowhere (set_call t (after_notify c) w') f" if "nowhere w f" for f
    proof -
      have "f \<notin> set (npc_flags p)" using that ht unfolding nowhere_def by metis
      with that s show ?thesis by (auto simp: nowhere_def hn)
    qed
    with s show ?thesis by (auto simp: spin_keeps_def)
  qed
  moreover have "owners (set_call t (after_notify c) w') \<and> verdicts (set_call t (after_notify c) w')"
  proof (rule owners_verdicts_agent [OF inv'(4,5) sk])
    show "call_pc (after_notify c) = Some p' \<Longrightarrow>
      (pc_flag p' = None \<or> (\<exists>p. call_pc (ccalls w t) = Some p \<and> pc_flag p' = pc_flag p) \<or>
       pc_flag p' = Some (next_flag w) \<and> next_flag (set_call t (after_notify c) w') = Suc (next_flag w)) \<and>
      spin_verdict (set_call t (after_notify c) w') p'" for p'
      by (simp only: ah option.distinct)
  qed (simp add: cc)
  ultimately show ?thesis using ci by (simp add: cvinv_def)
qed

section \<open>The invariant\<close>

lemma wait_calls:
  "wait_call c (after_wait op c)"
  "wait_call c (after_loop op f ((if op_deadline op = None then untimed_after else timed_after) c))"
  by (cases c; simp add: wait_call_def) (cases c rule: timed_after.cases; simp add: wait_call_def)

lemma wait_moveI:
  assumes inv: "cvinv E w" and pc: "call_pc (ccalls w t) = Some p" and st: "wait_step E g t op p w = (c, w')"
    and wc: "wait_call c d"
  shows "wait_move E t p c d w w'"
proof -
  have ci: "cinv E w" using inv by (simp add: cvinv_def)
  have ph: "in_phase (pc_phase p) (agents w t)" using call_pc_ok [OF ci pc] by blast
  have "list_senders w \<inter> snd ` set (timers w) = {}"
    using list_senders_timers [OF ci] list_senders_sub(1) [of w] by blast
  note sf = wait_step_facts [OF st ph this]
  from ci have "minv E w" "timers_ok E (senders w \<union> cv_senders w) w" by (simp_all add: cinv_def)
  with sf have "os_keeps E w w'" using msteps_platform by (metis step_facts_def moves_def)
  with inv pc wc sf show ?thesis by (simp add: wait_move_def)
qed

lemma cvinv_step: "cstep E g w w' \<Longrightarrow> cvinv E w \<Longrightarrow> cvinv E w'"
proof -
  assume step: "cstep E g w w'" and inv: "cvinv E w"
  then have ci: "cinv E w'" by (auto simp: cvinv_def intro: cinv_step)
  from step inv ci show ?thesis
  proof (induction rule: cstep.induct)
    case (client w w')
    from client.prems(1) client.hyps client.prems(2) show ?case by (rule cvinv_client)
  next
    case (begin_wait w t op)
    have "waits_on t (wait_entry op) = None \<and> pc_flag (wait_entry op) = None" by (cases op) auto
    with begin_wait show ?case by (intro cvinv_begin) auto
  next
    case (begin_loop w t op f)
    then show ?case by (intro cvinv_begin) auto
  next
    case (begin_notify w t p)
    then show ?case by (intro cvinv_begin) auto
  next
    case (wait w t op p)
    obtain c w' where st: "wait_step E g t op p w = (c, w')" by force
    have "call_pc (ccalls w t) = Some p" using wait.hyps by simp
    from cvinv_wait_move [OF wait_moveI [OF wait.prems(1) this st wait_calls(1)] st] wait.prems(2)
    show ?case by (simp add: run_wait_def st)
  next
    case (loop w t op f p)
    show ?case
    proof (cases p)
      case (LWait q)
      obtain c w' where st: "wait_step E g t op q w = (c, w')" by force
      have "call_pc (ccalls w t) = Some q" using loop.hyps LWait by simp
      from cvinv_wait_move [OF wait_moveI [OF loop.prems(1) this st wait_calls(2) [of _ op f]] st] loop.prems(2)
      show ?thesis by (simp add: run_loop_def LWait loop_step_LWait st)
    next
      case LTest
      define c where "c = fst (loop_step E g t op f LTest w)"
      define v where "v = snd (f (inner (mtx w)))"
      have st: "loop_step E g t op f LTest w = (c, w\<lparr>mtx := guard_deref_mut v (mtx w)\<rparr>)"
        by (auto simp: c_def v_def loop_step_LTest test_condition_def guard_deref_def split: prod.splits)
      have "c = Next (LWait (wait_entry op)) \<or> c = Next (LWait Unwinding) \<or> (\<exists>ro. c = Return ro)"
        by (auto simp: c_def loop_step_LTest test_condition_def split: prod.splits option.splits bool.splits)
      then have "call_hand (after_loop op f c) = []" "flag_hand (after_loop op f c) = []"
        "\<And>p. call_pc (after_loop op f c) = Some p \<Longrightarrow> waits_on t p = None \<and> pc_flag p = None"
        by (cases op; auto)+
      note hs = this
      have r: "run_loop E g t op f p w = set_call t (after_loop op f c) (w\<lparr>mtx := guard_deref_mut v (mtx w)\<rparr>)"
        by (simp add: run_loop_def LTest st)
      show ?thesis unfolding r
      proof (rule cvinv_begin [OF loop.prems(1)])
        show "cinv E (set_call t (after_loop op f c) (w\<lparr>mtx := guard_deref_mut v (mtx w)\<rparr>))"
          using loop.prems(2) by (simp add: r)
      qed (use loop.hyps hs in \<open>auto simp: quiet_def\<close>)
    qed
  next
    case (notify w t p)
    obtain c w' where st: "notify_step E p w = (c, w')" by force
    have ci: "cinv E w" using notify.prems by (simp add: cvinv_def)
    have "list_senders w \<union> npc_senders p \<subseteq> cv_senders w"
      using list_senders_sub [of w] list_senders_sub(2) [of w t] notify.hyps by simp
    then have "(list_senders w \<union> npc_senders p) \<inter> snd ` set (timers w) = {}"
      using list_senders_timers [OF ci] by blast
    from notify_step_facts(4) [OF st this] st notify show ?case
      by (simp add: run_notify_def cvinv_notify)
  next
    case (resume w t op fo ro)
    then show ?case by (intro cvinv_begin) auto
  next
    case (abandon w t)
    have "call_hand (ccalls w t) = []" "flag_hand (ccalls w t) = []"
      using abandon.hyps by (cases "(ccalls w t, agents w t)" rule: call_awaits.cases; simp)+
    with abandon.prems show ?case unfolding abandon_call_def
      by (intro cvinv_begin) (auto simp: quiet_def set_agent_def)
  qed
qed

lemma cvinv_init: "cinit E v w \<Longrightarrow> cvinv E w"
proof -
  assume i: "cinit E v w"
  then have "cinv E w" by (rule cinv_init)
  with i show ?thesis
    by (auto simp: cvinv_def cinit_def condvar_new_def spin_new_def track_def places_def owners_def
        verdicts_def expects_def owns_flag_def flag_places_def cv_lists hands_def)
qed

interpretation condvar_lists: machine_invariant "cinit E v" "cstep E g" "cvinv E" for E v g
  by unfold_locales (auto intro: cvinv_init cvinv_step)

end
