(* ===== verification/CondvarProps.thy ===== *)
theory CondvarProps
  imports CondvarLists MutexProps
begin

text \<open>
  The properties of the condition variable, over every reachable state of
  \<^verbatim>\<open>CondvarMachine\<close> and for single calls, and an executable scheduler for the concrete
  runs of the witnesses.
\<close>

section \<open>Concrete runs\<close>

datatype 'a cevent =
    CCall tid lock_method | CRun tid | CAccess tid 'a | CRelease tid | CTick nat | CFire
  | CWait tid wait_op | CLoop tid wait_op "('a, bool) closure" | CNotifyOne tid | CNotifyAll tid
  | CStep tid | CResume tid | CAbandon tid | CUnpark tid

fun client_event :: "'a cevent \<Rightarrow> (tid option \<times> 'a mevent) option" where
  "client_event (CCall t c) = Some (Some t, MCall t c)"
| "client_event (CRun t) = Some (Some t, MRun t)"
| "client_event (CAccess t v) = Some (Some t, MAccess t v)"
| "client_event (CRelease t) = Some (Some t, MRelease t)"
| "client_event (CTick n) = Some (None, MTick n)"
| "client_event CFire = Some (None, MFire)"
| "client_event e = None"

fun cexec :: "'k env \<Rightarrow> target \<Rightarrow> 'a cevent \<Rightarrow> ('k, 'a, 'z) cworld_scheme \<Rightarrow> ('k, 'a, 'z) cworld_scheme" where
  "cexec E g (CWait t op) w =
     (if ccalls w t = NoCall \<and> agents w t = Holding then set_call t (Waiting op (wait_entry op)) w else w)"
| "cexec E g (CLoop t op f) w =
     (if ccalls w t = NoCall \<and> agents w t = Holding then set_call t (Looping op f LTest) w else w)"
| "cexec E g (CNotifyOne t) w =
     (if ccalls w t = NoCall \<and> (at_rest (agents w t) \<or> agents w t = Holding) then set_call t (Notifying OneSpin) w else w)"
| "cexec E g (CNotifyAll t) w =
     (if ccalls w t = NoCall \<and> (at_rest (agents w t) \<or> agents w t = Holding) then set_call t (Notifying AllSpin) w else w)"
| "cexec E g (CStep t) w =
     (case ccalls w t of
        Waiting op p \<Rightarrow> run_wait E g t op p w
      | Looping op f p \<Rightarrow> run_loop E g t op f p w
      | Notifying p \<Rightarrow> run_notify E t p w
      | _ \<Rightarrow> w)"
| "cexec E g (CResume t) w = (case ccalls w t of Done op fo ro \<Rightarrow> set_call t NoCall w | _ \<Rightarrow> w)"
| "cexec E g (CAbandon t) w = (if call_awaits (ccalls w t) (agents w t) then abandon_call t w else w)"
| "cexec E g (CUnpark t) w = unpark t w"
| "cexec E g e w =
     (case client_event e of
        Some (Some t, m) \<Rightarrow> (if ccalls w t = NoCall then mexec E m w else w)
      | Some (None, m) \<Rightarrow> mexec E m w
      | None \<Rightarrow> w)"

lemma mexec_more: "mworld.more (mexec E e w) = mworld.more w"
proof (cases e)
  case (MRun t)
  then show ?thesis
    by (cases "agents w t") (auto simp: run_lock_def run_drop_def set_agent_def
        dest: lock_step_more guard_drop_more split: prod.splits)
next
  case (MAbandon t)
  then show ?thesis by (cases "agents w t") (simp_all add: set_agent_def)
qed (auto simp: set_agent_def fire_timer_def send_to_def split: list.splits)

fun event_agent :: "'a mevent \<Rightarrow> tid option" where
  "event_agent (MCall t c) = Some t"
| "event_agent (MRun t) = Some t"
| "event_agent (MAccess t v) = Some t"
| "event_agent (MRelease t) = Some t"
| "event_agent (MAbandon t) = Some t"
| "event_agent e = None"

lemma drop_token: "guard_drop_step E p w = (c, w') \<Longrightarrow> token w u \<Longrightarrow> token w' u"
  by (cases p) (auto simp: Let_def unpark_def send_to_def split: prod.splits drain_res.splits)

lemma mexec_others:
  assumes "event_agent e \<noteq> Some u"
  shows "agents (mexec E e w) u = agents w u \<and> (token w u \<longrightarrow> token (mexec E e w) u)"
proof (cases e)
  case (MRun t)
  then have "u \<noteq> t" using assms by auto
  then show ?thesis
    using MRun by (cases "agents w t") (auto simp: run_lock_def run_drop_def
        dest: lock_step_word guard_drop_word lock_step_token drop_token split: prod.splits)
next
  case (MAbandon t)
  then show ?thesis using assms by (cases "agents w t") auto
qed (use assms in \<open>auto simp: fire_timer_def send_to_def split: list.splits\<close>)

lemma mexec_inner:
  "inner (mtx (mexec E e w)) \<noteq> inner (mtx w) \<Longrightarrow> \<exists>t. event_agent e = Some t \<and> agents w t = Holding"
proof (cases e)
  case (MRun t)
  then show "inner (mtx (mexec E e w)) \<noteq> inner (mtx w) \<Longrightarrow> ?thesis"
    by (cases "agents w t") (auto simp: run_lock_def run_drop_def word_ok_def
        dest!: lock_step_word guard_drop_word split: prod.splits)
next
  case (MAbandon t)
  then show "inner (mtx (mexec E e w)) \<noteq> inner (mtx w) \<Longrightarrow> ?thesis" by (cases "agents w t") (auto split: if_splits)
qed (auto simp: fire_timer_def send_to_def split: list.splits if_splits)

lemma client_sound:
  assumes "\<And>t. event_agent e = Some t \<Longrightarrow> ccalls w t = NoCall"
  shows "mexec E e w = w \<or> cstep E g w (mexec E e w)"
proof -
  have "cv_same w (mexec E e w)" by (rule cv_same_more) (rule mexec_more)
  moreover have "agents (mexec E e w) u = agents w u \<and> (token w u \<longrightarrow> token (mexec E e w) u)"
    if "ccalls w u \<noteq> NoCall" for u
    using that assms by (intro mexec_others) auto
  ultimately have "client_frame w (mexec E e w)"
    using mexec_inner [of E e w] assms by (auto simp: client_frame_def cv_same_def)
  with mexec_sound [of E e w] show ?thesis by (auto intro: cstep.client)
qed

lemma cexec_sound: "cexec E g e w = w \<or> cstep E g w (cexec E g e w)"
proof (cases e)
  case (CStep t)
  then show ?thesis by (cases "ccalls w t") (auto intro: cstep.intros(5-))
next
  case (CResume t)
  then show ?thesis by (cases "ccalls w t") (auto intro: cstep.resume)
next
  case (CUnpark t)
  have "client_frame w (unpark t w)" by (simp add: client_frame_def unpark_def)
  with CUnpark cstep.client [OF mstep.other_unpark] show ?thesis by auto
qed (auto intro: cstep.begin_wait cstep.begin_loop cstep.begin_notify cstep.abandon
    simp del: mexec.simps intro!: client_sound)

definition crun :: "'k env \<Rightarrow> target \<Rightarrow> 'a cevent list \<Rightarrow> ('k, 'a, 'z) cworld_scheme \<Rightarrow> ('k, 'a, 'z) cworld_scheme" where
  "crun E g es w = fold (cexec E g) es w"

lemma crun_simps [simp]: "crun E g [] w = w" "crun E g (e # es) w = crun E g es (cexec E g e w)"
  by (simp_all add: crun_def)

lemma crun_append: "crun E g (es @ es') w = crun E g es' (crun E g es w)"
  by (simp add: crun_def)

lemma crun_steps: "(cstep E g)\<^sup>*\<^sup>* w (crun E g es w)"
proof (induction es arbitrary: w)
  case (Cons e es)
  have "(cstep E g)\<^sup>*\<^sup>* w (cexec E g e w)" using cexec_sound [of E g e w] by auto
  with Cons [of "cexec E g e w"] show ?case by simp
qed simp

definition cworld0 :: "'a \<Rightarrow> (nat \<times> nat list, 'a) cworld" where
  "cworld0 v = \<lparr>now = 0, token = (\<lambda>_. False), conts = (0, []), timers = [],
     mtx = mutex_new v, agents = (\<lambda>_. Idle), cv = condvar_new, wake_flags = (\<lambda>_. False),
     next_flag = 0, waiter_ids = 0, ccalls = (\<lambda>_. NoCall)\<rparr>"

lemma cworld0_init: "cinit (demo_env p) v (cworld0 v)"
  by (simp add: cinit_def minit_def cworld0_def demo_env_ok)

lemma cworld0_reach:
  "reach (cinit (demo_env p) v) (cstep (demo_env p) g) (crun (demo_env p) g es (cworld0 v))"
  by (rule reach_rtranclp [OF reach_init crun_steps]) (rule cworld0_init)

text \<open>The definitions a concrete run unfolds.\<close>

lemmas crun_defs = run_simps cworld0_def condvar_new_def set_call_def run_wait_def run_loop_def
  run_notify_def notify_step_def on_sync_def on_async_def on_spin_def with_mut_atomic_def
  push_handle_def remove_handle_def vec_pop_def vec_remove_def release_step_def drop_guard_def
  relock_step_def lock_again_def push_new_flag_def new_flag_def fetch_waiter_id_def new_cont_def
  set_flag_def lock_sync_def sync_strategy_def test_condition_def guard_deref_def Let_def apfst_def map_prod_def

section \<open>The mutex inside\<close>

text \<open>The condition variable runs on the mutex: every reachable state of the two together
  is a reachable state of the mutex's own machine, so every property of the mutex holds while
  agents wait and notify.\<close>

lemma condvar_refines_mutex:
  "reach (cinit E v) (cstep E g) w \<Longrightarrow> reach (minit E v) (mstep E) w"
  by (rule condvar_sim.sim_reach)

section \<open>What a wait returns\<close>

text \<open>C29: what a wait returns. A method without a deadline returns only the guard, one with a
  deadline says whether it timed out and says so only when its deadline is over; the guard is
  real: the agent owns the mutex, and nobody else does.\<close>

theorem wait_result_typed:
  assumes r: "reach (cinit E v) (cstep E g) w" and d: "ccalls w t = Done op fo ro"
  shows "(ro = None \<longleftrightarrow> op_deadline op = None) \<and>
    (\<forall>x. ro = Some x \<longrightarrow> timed_out x \<longrightarrow> (\<exists>l. op_deadline op = Some l \<and> l \<le> now w)) \<and>
    agents w t = Holding \<and> (\<forall>u. owns (agents w u) \<longrightarrow> u = t)"
proof -
  from condvar_inv.reach_inv [OF r] have m: "minv E w" and "call_ok E w (ccalls w t) (agents w t)"
    by (auto simp: cinv_def)
  with d have ok: "result_ok w op ro" "agents w t = Holding" by auto
  from m have "exclusive owns (data_lock (mtx w)) (agents w)" by (simp add: minv_def mutex_excl_def)
  from exclusive_unique [OF this, of t] ok show ?thesis
    by (auto simp: result_ok_def overdue_def)
qed

theorem wait_result_typed_witness:
  "\<exists>w :: (nat \<times> nat list, nat) cworld. reach (cinit (demo_env True) 7) (cstep (demo_env True) Native) w \<and>
     ccalls w 1 = Done (WaitSpinTimeout 5) None (Some (WaitTimeoutResult True)) \<and> 5 \<le> now w \<and>
     (\<forall>u. owns (agents w u) \<longrightarrow> u = 1)"
proof -
  define es where "es = [CCall 1 LockSpin, CRun 1, CWait 1 (WaitSpinTimeout 5) :: nat cevent] @
    replicate 12 (CStep 1) @ [CTick 5] @ replicate 6 (CStep 1)"
  define w where "w = crun (demo_env True) Native es (cworld0 (7 :: nat))"
  note r = cworld0_reach [of True 7 Native es, folded w_def]
  have a: "ccalls w 1 = Done (WaitSpinTimeout 5) None (Some (WaitTimeoutResult True))"
    unfolding w_def es_def by (simp add: crun_defs eval_nat_numeral)
  from wait_result_typed [OF r a] have "5 \<le> now w \<and> (\<forall>u. owns (agents w u) \<longrightarrow> u = 1)" by simp
  with a r show ?thesis by blast
qed

text \<open>C30: the loops. When a \<^verbatim>\<open>wait_*_while\<close> method has returned without a timeout, the
  last call of its condition said no and left the data as they are now, however the other
  agents ran in between.\<close>

theorem wait_while_condition:
  assumes r: "reach (cinit E v) (cstep E g) w" and d: "ccalls w t = Done op (Some f) ro"
    and n: "\<forall>x. ro = Some x \<longrightarrow> \<not> timed_out x"
  shows "\<exists>x. f x = (Some False, inner (mtx w))"
proof -
  from condvar_inv.reach_inv [OF r] have "call_ok E w (ccalls w t) (agents w t)" by (simp add: cinv_def)
  with d n show ?thesis by (auto simp: condition_false_def)
qed

text \<open>Agent 1 waits while the data are not 8; agent 2 writes 8 and notifies.\<close>

theorem wait_while_condition_witness:
  "\<exists>w :: (nat \<times> nat list, nat) cworld. reach (cinit (demo_env True) 7) (cstep (demo_env True) Native) w \<and>
     (\<exists>f. ccalls w 1 = Done WaitSpin (Some f) None) \<and> inner (mtx w) = 8"
proof -
  define f :: "(nat, bool) closure" where "f = (\<lambda>v. (Some (v \<noteq> 8), v))"
  define es where "es = [CCall 1 LockSpin, CRun 1, CLoop 1 WaitSpin f] @ replicate 13 (CStep 1) @
    [CCall 2 LockSpin, CRun 2, CAccess 2 8, CRelease 2] @ replicate 9 (CRun 2) @
    [CNotifyOne 2, CStep 2, CStep 2] @ replicate 6 (CStep 1)"
  define w where "w = crun (demo_env True) Native es (cworld0 (7 :: nat))"
  note r = cworld0_reach [of True 7 Native es, folded w_def]
  have a: "ccalls w 1 = Done WaitSpin (Some f) None"
    unfolding w_def es_def by (simp add: crun_defs eval_nat_numeral f_def)
  from wait_while_condition [OF r a] obtain x where "f x = (Some False, inner (mtx w))" by auto
  then have "inner (mtx w) = 8" by (auto simp: f_def)
  with a r show ?thesis by blast
qed

section \<open>No notification is lost\<close>

text \<open>C31: no notification is lost. From the moment a waiter has registered, before it releases
  the mutex, until it has seen that it was woken: if its handle is no longer on the wait list,
  and no notifier that has taken it off is about to wake it, then it has been woken, whichever
  other waits have timed out or have been dropped.\<close>

theorem condvar_no_lost_notification:
  assumes r: "reach (cinit E v) (cstep E g) w" and ex: "expects w t h"
    and "\<not> listed w h" "\<And>u. h \<notin> in_hand_of w u"
  shows "woken E w h"
  using condvar_lists.reach_inv [OF r] assms(2-) by (auto simp: cvinv_def track_def cared_for_def)

theorem condvar_no_lost_notification_witness:
  "\<exists>w :: (nat \<times> nat list, nat) cworld. reach (cinit (demo_env True) 7) (cstep (demo_env True) Native) w \<and>
     ccalls w 1 = Waiting WaitBlock BPark \<and> sync_list w = [] \<and> token w 1"
proof -
  define es where "es = [CCall 1 LockSpin, CRun 1, CWait 1 WaitBlock :: nat cevent] @ replicate 11 (CStep 1) @
    [CNotifyAll 2] @ replicate 8 (CStep 2)"
  define w where "w = crun (demo_env True) Native es (cworld0 (7 :: nat))"
  note r = cworld0_reach [of True 7 Native es, folded w_def]
  have a: "ccalls w 1 = Waiting WaitBlock BPark" "ccalls w 2 = NoCall" "sync_list w = []"
    unfolding w_def es_def by (simp_all add: crun_defs mem_take_def cv_lists eval_nat_numeral)
  have o: "ccalls w u = NoCall" if "u \<noteq> 1" "u \<noteq> 2" for u
    using that unfolding w_def es_def by (simp add: crun_defs mem_take_def eval_nat_numeral)
  have "expects w 1 (HThread 1)" using a by (simp add: expects_def)
  moreover have "HThread 1 \<notin> in_hand_of w u" for u
    using a o [of u] by (cases "u = 1"; cases "u = 2") (auto simp: in_hand_of_def)
  ultimately have "woken (demo_env True) w (HThread 1)"
    using a(3) by (intro condvar_no_lost_notification [OF r]) auto
  with a r show ?thesis by auto
qed

lemma hands_in_hand: "f \<in> set (hands w u) \<longleftrightarrow> HFlag f \<in> in_hand_of w u"
proof (cases "ccalls w u")
  case (Notifying p)
  then show ?thesis by (cases p) (auto simp: hands_def in_hand_of_def)
qed (auto simp: hands_def in_hand_of_def)

text \<open>C32: a spin wait with a deadline is exact. When it is about to return a timeout its flag
  is not set, not on the list and in no notifier's hand, so no notification was spent on it;
  when it is about to return without one, a notifier has set its flag.\<close>

theorem spin_timeout_exact:
  assumes r: "reach (cinit E v) (cstep E g) w" and c: "call_pc (ccalls w t) = Some (SRelock f (Some x))"
  shows "if timed_out x
    then \<not> wake_flags w f \<and> f \<notin> set (spin_list w) \<and> (\<forall>u. HFlag f \<notin> in_hand_of w u)
    else wake_flags w f"
proof -
  from condvar_lists.reach_inv [OF r] c have "spin_verdict w (SRelock f (Some x))"
    unfolding cvinv_def verdicts_def by blast
  then show ?thesis using hands_in_hand [of f w] by (auto simp: nowhere_def)
qed

theorem spin_timeout_exact_witness:
  "\<exists>w :: (nat \<times> nat list, nat) cworld. reach (cinit (demo_env True) 7) (cstep (demo_env True) Native) w \<and>
     ccalls w 1 = Waiting (WaitSpinTimeout 5) (SRelock 0 (Some (WaitTimeoutResult False))) \<and>
     5 \<le> now w \<and> wake_flags w 0"
proof -
  define es where "es = [CCall 1 LockSpin, CRun 1, CWait 1 (WaitSpinTimeout 5) :: nat cevent] @
    replicate 12 (CStep 1) @ [CNotifyOne 2, CStep 2, CTick 5, CStep 1, CStep 1, CStep 2, CStep 1]"
  define w where "w = crun (demo_env True) Native es (cworld0 (7 :: nat))"
  note r = cworld0_reach [of True 7 Native es, folded w_def]
  have a: "ccalls w 1 = Waiting (WaitSpinTimeout 5) (SRelock 0 (Some (WaitTimeoutResult False)))" "5 \<le> now w"
    unfolding w_def es_def by (simp_all add: crun_defs eval_nat_numeral)
  then have "call_pc (ccalls w 1) = Some (SRelock 0 (Some (WaitTimeoutResult False)))" by simp
  from spin_timeout_exact [OF r this] a r show ?thesis by auto
qed

section \<open>The notifications\<close>

text \<open>The state with other contents of the wait lists.\<close>

definition with_lists :: "flag list \<Rightarrow> tid list \<Rightarrow> async_waiter list \<Rightarrow> ('k, 'a, 'z) cworld_scheme \<Rightarrow>
    ('k, 'a, 'z) cworld_scheme" where
  "with_lists fs hs xs w = w\<lparr>cv := \<lparr>
     cv_waiting_sync_threads = (cv_waiting_sync_threads (cv w))\<lparr>sl_data := hs\<rparr>,
     cv_waiting_async_threads = (cv_waiting_async_threads (cv w))\<lparr>sl_data := xs\<rparr>,
     cv_waiting_spin_threads = (cv_waiting_spin_threads (cv w))\<lparr>sl_data := fs\<rparr>\<rparr>\<rparr>"

lemma with_lists_same: "with_lists (spin_list w) (sync_list w) (async_list w) w = w"
  by (simp add: with_lists_def cv_lists)

lemma on_list_with_lists:
  "on_spin f w = (x, w') \<longleftrightarrow> (\<exists>fs. f (spin_list w) = (x, fs) \<and> w' = with_lists fs (sync_list w) (async_list w) w)"
  "on_sync h w = (y, w') \<longleftrightarrow> (\<exists>hs. h (sync_list w) = (y, hs) \<and> w' = with_lists (spin_list w) hs (async_list w) w)"
  "on_async a w = (z, w') \<longleftrightarrow> (\<exists>xs. a (async_list w) = (z, xs) \<and> w' = with_lists (spin_list w) (sync_list w) xs w)"
  by (auto simp: on_spin_def on_sync_def on_async_def with_mut_atomic_def with_lists_def cv_lists split: prod.splits)

lemma with_lists_sel [simp]:
  "spin_list (with_lists fs hs xs w) = fs" "sync_list (with_lists fs hs xs w) = hs"
  "async_list (with_lists fs hs xs w) = xs" "with_lists fs' hs' xs' (with_lists fs hs xs w) = with_lists fs' hs' xs' w"
  by (simp_all add: with_lists_def cv_lists)

text \<open>One step of a notifier on the three lists.\<close>

lemma notify_one_steps:
  "notify_step E OneSpin w = (if spin_list w \<noteq> []
     then (Next (OneStore (last (spin_list w))), with_lists (butlast (spin_list w)) (sync_list w) (async_list w) w)
     else (Next OneSync, w))"
  "notify_step E OneSync w = (if sync_list w \<noteq> []
     then (Next (OneUnpark (last (sync_list w))), with_lists (spin_list w) (butlast (sync_list w)) (async_list w) w)
     else (Next OneAsync, w))"
  "notify_step E OneAsync w = (if async_list w \<noteq> []
     then (Next (OneSend (last (async_list w))), with_lists (spin_list w) (sync_list w) (butlast (async_list w)) w)
     else (Return (), w))"
  using with_lists_same [of w]
  by (auto simp: notify_step_def on_list_with_lists vec_pop_def split: prod.splits option.splits if_splits)

lemma notify_wake_steps:
  "notify_step E (OneStore f) w = (Return (), set_flag f w)"
  "notify_step E (OneUnpark h) w = (Return (), unpark h w)"
  "notify_step E (OneSend x) w = (Return (), send_to E (waiter_sender x) w)"
  by (simp_all add: notify_step_def)

lemma notify_all_steps:
  "notify_step E AllSpin w = (Next (AllStore (spin_list w)), with_lists [] (sync_list w) (async_list w) w)"
  "notify_step E AllSync w = (Next (AllUnpark (sync_list w)), with_lists (spin_list w) [] (async_list w) w)"
  "notify_step E AllAsync w = (Next (AllSend (async_list w)), with_lists (spin_list w) (sync_list w) [] w)"
  by (auto simp: notify_step_def on_list_with_lists mem_take_def split: prod.splits)

lemma notify_one_run:
  "run_alone (notify_step E) 4 OneSpin w =
     (Return (),
      if spin_list w \<noteq> []
        then set_flag (last (spin_list w)) (with_lists (butlast (spin_list w)) (sync_list w) (async_list w) w)
      else if sync_list w \<noteq> []
        then unpark (last (sync_list w)) (with_lists [] (butlast (sync_list w)) (async_list w) w)
      else if async_list w \<noteq> []
        then send_to E (waiter_sender (last (async_list w))) (with_lists [] [] (butlast (async_list w)) w)
      else w)"
  by (simp add: eval_nat_numeral notify_one_steps notify_wake_steps)

lemma run_all_lists:
  "run_alone (notify_step E) (Suc n) AllSpin w =
     run_alone (notify_step E) n (AllStore (spin_list w)) (with_lists [] (sync_list w) (async_list w) w)"
  "run_alone (notify_step E) (Suc n) AllSync w =
     run_alone (notify_step E) n (AllUnpark (sync_list w)) (with_lists (spin_list w) [] (async_list w) w)"
  "run_alone (notify_step E) (Suc n) AllAsync w =
     run_alone (notify_step E) n (AllSend (async_list w)) (with_lists (spin_list w) (sync_list w) [] w)"
  by (simp_all add: notify_all_steps)

lemma lists_platform:
  "spin_list (w\<lparr>wake_flags := k\<rparr>) = spin_list w" "sync_list (w\<lparr>wake_flags := k\<rparr>) = sync_list w"
  "async_list (w\<lparr>wake_flags := k\<rparr>) = async_list w" "async_list (w\<lparr>token := tk\<rparr>) = async_list w"
  by (simp_all add: cv_lists)

lemma run_store:
  "run_alone (notify_step E) (Suc (length fs + n)) (AllStore fs) w =
   run_alone (notify_step E) n AllSync (fold set_flag fs w)"
  by (induction fs arbitrary: w) (simp_all add: notify_step_def)

lemma run_unpark:
  "run_alone (notify_step E) (Suc (length hs + n)) (AllUnpark hs) w =
   run_alone (notify_step E) n AllAsync (fold unpark hs w)"
  by (induction hs arbitrary: w) (simp_all add: notify_step_def)

lemma run_send:
  "run_alone (notify_step E) (Suc (length xs + n)) (AllSend xs) w =
   (Return (), fold (\<lambda>x. send_to E (waiter_sender x)) xs w)"
  by (induction xs arbitrary: w) (simp_all add: notify_step_def)

lemma fold_store: "fold set_flag fs w = w\<lparr>wake_flags := (\<lambda>f. f \<in> set fs \<or> wake_flags w f)\<rparr>"
proof (induction fs arbitrary: w)
  case (Cons f fs)
  have "(\<lambda>x. x \<in> set fs \<or> ((wake_flags w)(f := True)) x) = (\<lambda>x. x \<in> set (f # fs) \<or> wake_flags w x)" by auto
  with Cons show ?case by (simp add: set_flag_def)
qed simp

lemma fold_unpark: "fold unpark hs w = w\<lparr>token := (\<lambda>t. t \<in> set hs \<or> token w t)\<rparr>"
proof (induction hs arbitrary: w)
  case (Cons h hs)
  have "(\<lambda>x. x \<in> set hs \<or> ((token w)(h := True)) x) = (\<lambda>x. x \<in> set (h # hs) \<or> token w x)" by auto
  with Cons show ?case by (simp add: unpark_def)
qed simp

lemma fold_send_to:
  "fold (\<lambda>x. send_to E (waiter_sender x)) xs w =
   w\<lparr>conts := fold (\<lambda>x. send E (waiter_sender x)) xs (conts w)\<rparr>"
  by (induction xs arbitrary: w) (simp_all add: send_to_def)

lemma notify_all_run:
  "run_alone (notify_step E)
     (6 + length (spin_list w) + length (sync_list w) + length (async_list w)) AllSpin w =
   (Return (),
    (with_lists [] [] [] w)\<lparr>
      wake_flags := (\<lambda>f. f \<in> set (spin_list w) \<or> wake_flags w f),
      token := (\<lambda>t. t \<in> set (sync_list w) \<or> token w t),
      conts := fold (\<lambda>x. send E (waiter_sender x)) (async_list w) (conts w)\<rparr>)"
proof -
  have n: "6 + length (spin_list w) + length (sync_list w) + length (async_list w) =
      Suc (Suc (length (spin_list w) + Suc (Suc (length (sync_list w) + Suc (Suc (length (async_list w) + 0))))))"
    by simp
  show ?thesis unfolding n
    by (simp only: run_all_lists run_store run_unpark run_send fold_store fold_unpark fold_send_to
        with_lists_sel lists_platform) (simp add: with_lists_def cv_lists)
qed

text \<open>C33: the notifications, each run on its own. \<^verbatim>\<open>notify_one\<close> wakes exactly one
  waiter, the one that registered last: of the spinning threads if there are any, else of the
  parked ones, else of the tasks; with no waiter it changes nothing; it takes at most four steps.
  \<^verbatim>\<open>notify_all\<close> empties the three lists and wakes everyone that was on them, each once and
  in the order of registration; it takes six steps and one for each waiter.\<close>

theorem notifications_alone:
  "run_alone (notify_step E) 4 OneSpin w =
     (Return (),
      if spin_list w \<noteq> []
        then set_flag (last (spin_list w)) (with_lists (butlast (spin_list w)) (sync_list w) (async_list w) w)
      else if sync_list w \<noteq> []
        then unpark (last (sync_list w)) (with_lists [] (butlast (sync_list w)) (async_list w) w)
      else if async_list w \<noteq> []
        then send_to E (waiter_sender (last (async_list w))) (with_lists [] [] (butlast (async_list w)) w)
      else w) \<and>
   run_alone (notify_step E)
     (6 + length (spin_list w) + length (sync_list w) + length (async_list w)) AllSpin w =
     (Return (),
      (with_lists [] [] [] w)\<lparr>
        wake_flags := (\<lambda>f. f \<in> set (spin_list w) \<or> wake_flags w f),
        token := (\<lambda>t. t \<in> set (sync_list w) \<or> token w t),
        conts := fold (\<lambda>x. send E (waiter_sender x)) (async_list w) (conts w)\<rparr>)"
  by (rule conjI [OF notify_one_run notify_all_run])

text \<open>A wait with a deadline. Task 3 waits, then task 1 with a deadline; one notification
  takes task 1 off the list and sends to it, after its race has polled the notification and
  before it polls the timeout.\<close>

lemma async_timeout_swallows:
  "\<exists>w w' :: (nat \<times> nat list, nat) cworld.
     reach (cinit (demo_env True) 7) (cstep (demo_env True) Native) w \<and>
     ccalls w 1 = Waiting (WaitAsyncTimeout 5) (ATimeout 1 1 2) \<and>
     is_ready (demo_env True) (conts w) 1 \<and> 1 \<notin> set (map waiter_sender (async_list w)) \<and>
     (cstep (demo_env True) Native)\<^sup>*\<^sup>* w w' \<and>
     ccalls w' 1 = Done (WaitAsyncTimeout 5) None (Some (WaitTimeoutResult True)) \<and>
     ccalls w' 2 = NoCall \<and>
     ccalls w' 3 = Waiting WaitAsync (AAwait 0) \<and> \<not> is_ready (demo_env True) (conts w') 0"
proof -
  define es where "es = [CCall 3 LockSpin, CRun 3, CWait 3 WaitAsync :: nat cevent] @ replicate 11 (CStep 3) @
    [CCall 1 LockSpin, CRun 1, CWait 1 (WaitAsyncTimeout 5)] @ replicate 15 (CStep 1) @
    [CNotifyOne 2] @ replicate 4 (CStep 2)"
  define es' where "es' = [CTick 5, CFire] @ replicate 6 (CStep 1 :: nat cevent)"
  define w where "w = crun (demo_env True) Native es (cworld0 (7 :: nat))"
  define w' where "w' = crun (demo_env True) Native es' w"
  note r = cworld0_reach [of True 7 Native es, folded w_def]
  have s: "(cstep (demo_env True) Native)\<^sup>*\<^sup>* w w'" unfolding w'_def by (rule crun_steps)
  have a: "ccalls w 1 = Waiting (WaitAsyncTimeout 5) (ATimeout 1 1 2)" "is_ready (demo_env True) (conts w) 1"
    "1 \<notin> set (map waiter_sender (async_list w))"
    unfolding w_def es_def by (simp_all add: crun_defs cv_lists eval_nat_numeral)
  have b: "ccalls w' 1 = Done (WaitAsyncTimeout 5) None (Some (WaitTimeoutResult True))" "ccalls w' 2 = NoCall"
    "ccalls w' 3 = Waiting WaitAsync (AAwait 0)" "\<not> is_ready (demo_env True) (conts w') 0"
    unfolding w'_def w_def es_def es'_def by (simp_all add: crun_defs eval_nat_numeral)
  from r s a b show ?thesis by blast
qed

text \<open>A future that is dropped. Task 3 waits, then task 1, whose owner drops its future; the
  entry of task 1 stays on the list and takes the notification.\<close>

lemma dropped_wait_swallows:
  "\<exists>w w' :: (nat \<times> nat list, nat) cworld.
     reach (cinit (demo_env True) 7) (cstep (demo_env True) Native) w \<and>
     ccalls w 1 = Waiting WaitAsync (AAwait 1) \<and> map waiter_sender (async_list w) = [0, 1] \<and>
     (cstep (demo_env True) Native)\<^sup>*\<^sup>* (abandon_call 1 w) w' \<and>
     map waiter_sender (async_list (abandon_call 1 w)) = [0, 1] \<and>
     ccalls w' 1 = NoCall \<and> ccalls w' 2 = NoCall \<and> is_ready (demo_env True) (conts w') 1 \<and>
     ccalls w' 3 = Waiting WaitAsync (AAwait 0) \<and> \<not> is_ready (demo_env True) (conts w') 0"
proof -
  define es where "es = [CCall 3 LockSpin, CRun 3, CWait 3 WaitAsync :: nat cevent] @ replicate 11 (CStep 3) @
    [CCall 1 LockSpin, CRun 1, CWait 1 WaitAsync] @ replicate 11 (CStep 1)"
  define es' where "es' = [CNotifyOne 2 :: nat cevent] @ replicate 4 (CStep 2)"
  define w where "w = crun (demo_env True) Native es (cworld0 (7 :: nat))"
  define w' where "w' = crun (demo_env True) Native es' (abandon_call 1 w)"
  note r = cworld0_reach [of True 7 Native es, folded w_def]
  have s: "(cstep (demo_env True) Native)\<^sup>*\<^sup>* (abandon_call 1 w) w'" unfolding w'_def by (rule crun_steps)
  have a: "ccalls w 1 = Waiting WaitAsync (AAwait 1)" "map waiter_sender (async_list w) = [0, 1]"
    unfolding w_def es_def by (simp_all add: crun_defs cv_lists eval_nat_numeral)
  then have l: "map waiter_sender (async_list (abandon_call 1 w)) = [0, 1]" by (simp add: abandon_call_def set_agent_def cv_lists)
  have b: "ccalls w' 1 = NoCall" "ccalls w' 2 = NoCall" "is_ready (demo_env True) (conts w') 1"
    "ccalls w' 3 = Waiting WaitAsync (AAwait 0)" "\<not> is_ready (demo_env True) (conts w') 0"
    unfolding w'_def w_def es_def es'_def by (simp_all add: crun_defs abandon_call_def eval_nat_numeral)
  show ?thesis by (intro exI [of _ w] exI [of _ w'] conjI r s a l b)
qed

text \<open>A thread that a stray parking token made return from \<^verbatim>\<open>wait_block\<close>. Its handle stays
  on the list and takes the notification.\<close>

lemma spurious_wait_swallows:
  "\<exists>w w' :: (nat \<times> nat list, nat) cworld.
     reach (cinit (demo_env True) 7) (cstep (demo_env True) Native) w \<and>
     ccalls w 1 = Done WaitBlock None None \<and> sync_list w = [1] \<and>
     (cstep (demo_env True) Native)\<^sup>*\<^sup>* w w' \<and>
     ccalls w' 2 = NoCall \<and> sync_list w' = [] \<and>
     ccalls w' 3 = Waiting WaitAsync (AAwait 0) \<and> \<not> is_ready (demo_env True) (conts w') 0"
proof -
  define es where "es = [CCall 3 LockSpin, CRun 3, CWait 3 WaitAsync :: nat cevent] @ replicate 11 (CStep 3) @
    [CCall 1 LockSpin, CRun 1, CWait 1 WaitBlock] @ replicate 11 (CStep 1) @ [CUnpark 1] @ replicate 6 (CStep 1)"
  define es' where "es' = [CNotifyOne 2 :: nat cevent] @ replicate 4 (CStep 2)"
  define w where "w = crun (demo_env True) Native es (cworld0 (7 :: nat))"
  define w' where "w' = crun (demo_env True) Native es' w"
  note r = cworld0_reach [of True 7 Native es, folded w_def]
  have s: "(cstep (demo_env True) Native)\<^sup>*\<^sup>* w w'" unfolding w'_def by (rule crun_steps)
  have a: "ccalls w 1 = Done WaitBlock None None" "sync_list w = [1]"
    unfolding w_def es_def by (simp_all add: crun_defs cv_lists eval_nat_numeral)
  have b: "ccalls w' 2 = NoCall" "sync_list w' = []"
    "ccalls w' 3 = Waiting WaitAsync (AAwait 0)" "\<not> is_ready (demo_env True) (conts w') 0"
    unfolding w'_def w_def es_def es'_def by (simp_all add: crun_defs cv_lists eval_nat_numeral)
  show ?thesis by (intro exI [of _ w] exI [of _ w'] conjI r s a b)
qed

text \<open>C34: a notification can be swallowed by an agent that does not wait any more. A wait with a
  deadline that has been taken off the list can still report a timeout; a wait whose future has
  been dropped stays on the list; and so does a thread that a stray parking token made return
  from \<^verbatim>\<open>wait_block\<close>. In each run the one \<^verbatim>\<open>notify_one\<close> is spent on agent 1, and task 3
  still waits.\<close>

theorem notifications_swallowed:
  "(\<exists>w w' :: (nat \<times> nat list, nat) cworld.
     reach (cinit (demo_env True) 7) (cstep (demo_env True) Native) w \<and>
     ccalls w 1 = Waiting (WaitAsyncTimeout 5) (ATimeout 1 1 2) \<and>
     is_ready (demo_env True) (conts w) 1 \<and> 1 \<notin> set (map waiter_sender (async_list w)) \<and>
     (cstep (demo_env True) Native)\<^sup>*\<^sup>* w w' \<and>
     ccalls w' 1 = Done (WaitAsyncTimeout 5) None (Some (WaitTimeoutResult True)) \<and>
     ccalls w' 2 = NoCall \<and>
     ccalls w' 3 = Waiting WaitAsync (AAwait 0) \<and> \<not> is_ready (demo_env True) (conts w') 0) \<and>
   (\<exists>w w' :: (nat \<times> nat list, nat) cworld.
     reach (cinit (demo_env True) 7) (cstep (demo_env True) Native) w \<and>
     ccalls w 1 = Waiting WaitAsync (AAwait 1) \<and> map waiter_sender (async_list w) = [0, 1] \<and>
     (cstep (demo_env True) Native)\<^sup>*\<^sup>* (abandon_call 1 w) w' \<and>
     map waiter_sender (async_list (abandon_call 1 w)) = [0, 1] \<and>
     ccalls w' 1 = NoCall \<and> ccalls w' 2 = NoCall \<and> is_ready (demo_env True) (conts w') 1 \<and>
     ccalls w' 3 = Waiting WaitAsync (AAwait 0) \<and> \<not> is_ready (demo_env True) (conts w') 0) \<and>
   (\<exists>w w' :: (nat \<times> nat list, nat) cworld.
     reach (cinit (demo_env True) 7) (cstep (demo_env True) Native) w \<and>
     ccalls w 1 = Done WaitBlock None None \<and> sync_list w = [1] \<and>
     (cstep (demo_env True) Native)\<^sup>*\<^sup>* w w' \<and>
     ccalls w' 2 = NoCall \<and> sync_list w' = [] \<and>
     ccalls w' 3 = Waiting WaitAsync (AAwait 0) \<and> \<not> is_ready (demo_env True) (conts w') 0)"
  by (intro conjI async_timeout_swallows dropped_wait_swallows spurious_wait_swallows)

end
