(* ===== verification/Mpsc.thy ===== *)
theory Mpsc
  imports CondvarLists
begin

text \<open>
  \<^verbatim>\<open>src/mpsc.rs\<close>: the channel's data, its error types, every send and receive method,
  and the drops of the two halves, as programs of atomic steps on top of the mutex and the
  condition variable. The queue is the data of the mutex.
\<close>

section \<open>Errors\<close>

datatype try_recv_error = TryEmpty | TryDisconnected

fun try_recv_error_display :: "try_recv_error \<Rightarrow> string" where
  "try_recv_error_display TryEmpty = ''receiving on an empty channel''"
| "try_recv_error_display TryDisconnected = ''receiving on a closed channel''"

datatype recv_timeout_error = Timeout | TimeoutDisconnected

fun recv_timeout_error_display :: "recv_timeout_error \<Rightarrow> string" where
  "recv_timeout_error_display Timeout = ''timed out waiting on channel''"
| "recv_timeout_error_display TimeoutDisconnected = ''channel is empty and disconnected''"

datatype recv_error = RecvDisconnected

text \<open>\<^verbatim>\<open>RecvError\<close> derives \<^verbatim>\<open>Ord\<close>.\<close>

instantiation recv_error :: linorder
begin

definition less_eq_recv_error :: "recv_error \<Rightarrow> recv_error \<Rightarrow> bool" where
  "less_eq_recv_error a b \<longleftrightarrow> True"

definition less_recv_error :: "recv_error \<Rightarrow> recv_error \<Rightarrow> bool" where
  "less_recv_error a b \<longleftrightarrow> False"

instance
  by standard (auto simp: less_eq_recv_error_def less_recv_error_def intro: recv_error.induct recv_error.exhaust)

end

definition recv_error_display :: "recv_error \<Rightarrow> string" where
  "recv_error_display e = ''receiving on a closed channel''"

datatype 'm send_error = SendError 'm

definition send_error_display :: "'m send_error \<Rightarrow> string" where
  "send_error_display e = ''sending on a closed channel''"

text \<open>The error of a receive method, by whether the method has a deadline.\<close>

datatype recv_fail = FailRecv recv_error | FailTimeout recv_timeout_error

section \<open>Data\<close>

text \<open>The program counters of the methods; \<open>'r\<close> is the result that a return path has decided
  while the guard is still to be dropped.\<close>

datatype send_pc =
    SdCheck | SdStart | SdLocking | SdRecheck | SdPush | SdFail | SdDrop | SdNotify | SdNotifying

datatype 'r recv_pc =
    RvStart | RvLocking | RvPop | RvCount | RvWaiting | RvDrop 'r

datatype 'r try_pc = TrStart | TrLocking | TrPop | TrCount | TrDrop 'r

datatype drop_half_pc = DhFirst | DhNotify | DhNotifying

datatype send_method = SendSpin | SendBlock | SendSync | SendAsync

datatype recv_method =
    RecvSpin | RecvSpinTimeout instant | RecvBlock | RecvBlockTimeout instant
  | RecvSync | RecvSyncTimeout instant | RecvAsync | RecvAsyncTimeout instant

type_synonym 'm send_result = "'m send_error + unit"
type_synonym 'm recv_result = "recv_fail + 'm"
type_synonym 'm try_result = "try_recv_error + 'm"

text \<open>What an agent is doing with the channel. \<open>Sent\<close>, \<open>Received\<close> and \<open>Tried\<close> are the
  results of a call that has just returned.\<close>

datatype 'm pcall =
    PIdle
  | Sending send_method 'm send_pc
  | Receiving recv_method "'m recv_result recv_pc"
  | Trying "'m try_result try_pc"
  | DroppingTx drop_half_pc
  | DroppingRx drop_half_pc
  | Sent send_method 'm "'m send_result"
  | Received recv_method "'m recv_result"
  | Tried "'m try_result"
  | PFailed

text \<open>The receiver: a value that can be moved but not shared, so at most one agent uses it.\<close>

datatype rx = RxFree | RxUsed tid | RxGone

text \<open>
  The state: \<^verbatim>\<open>Shared\<close>, that is, the mutex with the queue, the condition variable,
  \<open>sender_count\<close> (a \<^verbatim>\<open>usize\<close> of the target's width) and \<open>receiver_active\<close>; what the
  program owns of the channel, that is, the number of its \<^verbatim>\<open>Sender\<close> values, the agents
  that are inside a call on one of them, and the receiver; the calls; and two histories that no
  step reads, the messages that have been pushed and those that have been popped, in order.
\<close>

record ('k, 'm) pworld = "('k, 'm list) cworld" +
  sender_count :: nat
  receiver_active :: bool
  handles :: nat
  tx_users :: "tid set"
  rx_state :: rx
  pcalls :: "tid \<Rightarrow> 'm pcall"
  sent :: "'m list"
  received :: "'m list"

text \<open>The width of \<^verbatim>\<open>usize\<close>, and its wrapping \<^verbatim>\<open>fetch_add(1)\<close> and
  \<^verbatim>\<open>fetch_sub(1)\<close>: the new value.\<close>

definition usize_bits :: "target \<Rightarrow> nat" where
  "usize_bits g = (case g of Native \<Rightarrow> 64 | Wasm32 e \<Rightarrow> 32)"

definition usize_inc :: "target \<Rightarrow> nat \<Rightarrow> nat" where
  "usize_inc g c = (c + 1) mod 2 ^ usize_bits g"

definition usize_dec :: "target \<Rightarrow> nat \<Rightarrow> nat" where
  "usize_dec g c = (c + 2 ^ usize_bits g - 1) mod 2 ^ usize_bits g"

text \<open>\<^verbatim>\<open>channel()\<close>: the shared state and the two halves.\<close>

definition channel :: "('k, 'm, 'z) pworld_scheme \<Rightarrow> ('k, 'm, 'z) pworld_scheme" where
  "channel w = w\<lparr>mtx := mutex_new [], cv := condvar_new, sender_count := 1, receiver_active := True,
     handles := 1, tx_users := {}, rx_state := RxFree\<rparr>"

section \<open>Calls of the mutex and of the condition variable\<close>

text \<open>A call of a locking method, and one step of it: the guard, \<^verbatim>\<open>None\<close>, an error, or a
  panic.\<close>

definition lock_call :: "tid \<Rightarrow> lock_method \<Rightarrow> ('k, 'a, 'z) mworld_scheme \<Rightarrow> ('k, 'a, 'z) mworld_scheme" where
  "lock_call t lm w = set_agent t (Locking (entry lm)) w"

definition lock_progress :: "'k env \<Rightarrow> tid \<Rightarrow> ('k, 'a, 'z) mworld_scheme \<Rightarrow> ('k, 'a, 'z) mworld_scheme" where
  "lock_progress E t w = (case agents w t of Locking p \<Rightarrow> run_lock E t p w | _ \<Rightarrow> w)"

text \<open>A call of \<^verbatim>\<open>wait_*\<close> or of a notification, one step of it at a time.\<close>

definition wait_progress :: "'k env \<Rightarrow> target \<Rightarrow> tid \<Rightarrow> wait_op \<Rightarrow> ('k, 'a, 'z) cworld_scheme \<Rightarrow>
    ('k, 'a, 'z) cworld_scheme" where
  "wait_progress E g t op w =
     (case ccalls w t of
        NoCall \<Rightarrow> set_call t (Waiting op (wait_entry op)) w
      | Waiting op' p \<Rightarrow> run_wait E g t op' p w
      | _ \<Rightarrow> w)"

definition notify_progress :: "'k env \<Rightarrow> tid \<Rightarrow> ('k, 'a, 'z) cworld_scheme \<Rightarrow> ('k, 'a, 'z) cworld_scheme" where
  "notify_progress E t w = (case ccalls w t of Notifying p \<Rightarrow> run_notify E t p w | _ \<Rightarrow> w)"

section \<open>Sending\<close>

text \<open>\<^verbatim>\<open>queue.push_back(t)\<close> through the guard.\<close>

definition push_back :: "'m \<Rightarrow> ('k, 'm, 'z) pworld_scheme \<Rightarrow> ('k, 'm, 'z) pworld_scheme" where
  "push_back m w = w\<lparr>mtx := guard_deref_mut (guard_deref (mtx w) @ [m]) (mtx w), sent := sent w @ [m]\<rparr>"

text \<open>
  The four send methods have one body and differ in the locking method: look at
  \<open>receiver_active\<close>, lock, look again, push, drop the guard, \<^verbatim>\<open>notify_one\<close>. The second
  error return drops the guard.
\<close>

fun send_body_step :: "'k env \<Rightarrow> tid \<Rightarrow> lock_method \<Rightarrow> 'm \<Rightarrow> send_pc \<Rightarrow>
    ('k, 'm, 'z) pworld_scheme \<Rightarrow>
    (send_pc, 'm send_result) ctl \<times> ('k, 'm, 'z) pworld_scheme" where
  "send_body_step E t lm m SdCheck w =
     (if receiver_active w then Next SdStart else Return (Inl (SendError m)), w)"
| "send_body_step E t lm m SdStart w = (Next SdLocking, lock_call t lm w)"
| "send_body_step E t lm m SdLocking w =
     (let w' = lock_progress E t w in
      (case agents w' t of
         Holding \<Rightarrow> Next SdRecheck
       | Locking p \<Rightarrow> Next SdLocking
       | _ \<Rightarrow> Panic, w'))"
| "send_body_step E t lm m SdRecheck w = (if receiver_active w then Next SdPush else Next SdFail, w)"
| "send_body_step E t lm m SdFail w = drop_guard E t SdFail (Return (Inl (SendError m))) w"
| "send_body_step E t lm m SdPush w = (Next SdDrop, push_back m w)"
| "send_body_step E t lm m SdDrop w = drop_guard E t SdDrop (Next SdNotify) w"
| "send_body_step E t lm m SdNotify w = (Next SdNotifying, set_call t (Notifying OneSpin) w)"
| "send_body_step E t lm m SdNotifying w =
     (let w' = notify_progress E t w in
      (case ccalls w' t of NoCall \<Rightarrow> Return (Inr ()) | Failed \<Rightarrow> Panic | _ \<Rightarrow> Next SdNotifying, w'))"

definition send_spin_step :: "'k env \<Rightarrow> target \<Rightarrow> tid \<Rightarrow> 'm \<Rightarrow> send_pc \<Rightarrow>
    ('k, 'm, 'z) pworld_scheme \<Rightarrow>
    (send_pc, 'm send_result) ctl \<times> ('k, 'm, 'z) pworld_scheme" where
  "send_spin_step E g t = send_body_step E t LockSpin"

definition send_block_step :: "'k env \<Rightarrow> target \<Rightarrow> tid \<Rightarrow> 'm \<Rightarrow> send_pc \<Rightarrow>
    ('k, 'm, 'z) pworld_scheme \<Rightarrow>
    (send_pc, 'm send_result) ctl \<times> ('k, 'm, 'z) pworld_scheme" where
  "send_block_step E g t = send_body_step E t LockBlock"

definition send_sync_step :: "'k env \<Rightarrow> target \<Rightarrow> tid \<Rightarrow> 'm \<Rightarrow> send_pc \<Rightarrow>
    ('k, 'm, 'z) pworld_scheme \<Rightarrow>
    (send_pc, 'm send_result) ctl \<times> ('k, 'm, 'z) pworld_scheme" where
  "send_sync_step E g t = send_body_step E t (lock_sync g)"

definition send_async_step :: "'k env \<Rightarrow> target \<Rightarrow> tid \<Rightarrow> 'm \<Rightarrow> send_pc \<Rightarrow>
    ('k, 'm, 'z) pworld_scheme \<Rightarrow>
    (send_pc, 'm send_result) ctl \<times> ('k, 'm, 'z) pworld_scheme" where
  "send_async_step E g t = send_body_step E t LockAsync"

fun send_step :: "'k env \<Rightarrow> target \<Rightarrow> tid \<Rightarrow> send_method \<Rightarrow> 'm \<Rightarrow> send_pc \<Rightarrow>
    ('k, 'm, 'z) pworld_scheme \<Rightarrow>
    (send_pc, 'm send_result) ctl \<times> ('k, 'm, 'z) pworld_scheme" where
  "send_step E g t SendSpin = send_spin_step E g t"
| "send_step E g t SendBlock = send_block_step E g t"
| "send_step E g t SendSync = send_sync_step E g t"
| "send_step E g t SendAsync = send_async_step E g t"

section \<open>Receiving\<close>

text \<open>\<^verbatim>\<open>queue.pop_front()\<close> through the guard.\<close>

definition pop_queue :: "('k, 'm, 'z) pworld_scheme \<Rightarrow> 'm option \<times> ('k, 'm, 'z) pworld_scheme" where
  "pop_queue w =
     (case pop_front (guard_deref (mtx w)) of (x, q) \<Rightarrow>
       (x, w\<lparr>mtx := guard_deref_mut q (mtx w),
             received := (case x of Some m \<Rightarrow> received w @ [m] | None \<Rightarrow> received w)\<rparr>))"

text \<open>\<^verbatim>\<open>try_recv\<close>: a queue that is locked counts as empty.\<close>

fun try_recv_step :: "'k env \<Rightarrow> tid \<Rightarrow> 'm try_result try_pc \<Rightarrow> ('k, 'm, 'z) pworld_scheme \<Rightarrow>
    ('m try_result try_pc, 'm try_result) ctl \<times> ('k, 'm, 'z) pworld_scheme" where
  "try_recv_step E t TrStart w = (Next TrLocking, lock_call t TryLock w)"
| "try_recv_step E t TrLocking w =
     (let w' = lock_progress E t w in
      (case agents w' t of
         Holding \<Rightarrow> Next TrPop
       | Locking p \<Rightarrow> Next TrLocking
       | Refused \<Rightarrow> Return (Inl TryEmpty)
       | _ \<Rightarrow> Panic, w'))"
| "try_recv_step E t TrPop w =
     (case pop_queue w of (x, w') \<Rightarrow>
       (case x of Some m \<Rightarrow> Next (TrDrop (Inr m)) | None \<Rightarrow> Next TrCount, w'))"
| "try_recv_step E t TrCount w =
     (Next (TrDrop (if sender_count w = 0 then Inl TryDisconnected else Inl TryEmpty)), w)"
| "try_recv_step E t (TrDrop r) w = drop_guard E t (TrDrop r) (Return r) w"

text \<open>
  The receive methods: lock, then pop, look at \<open>sender_count\<close>, and wait on the condition
  variable, until there is a message or no sender. A method with a deadline also gives up when
  the lock or the wait has timed out. Every return drops the guard.
\<close>

fun recv_body_step :: "'k env \<Rightarrow> target \<Rightarrow> tid \<Rightarrow> lock_method \<Rightarrow> wait_op \<Rightarrow> 'm recv_result recv_pc \<Rightarrow>
    ('k, 'm, 'z) pworld_scheme \<Rightarrow>
    ('m recv_result recv_pc, 'm recv_result) ctl \<times> ('k, 'm, 'z) pworld_scheme" where
  "recv_body_step E g t lm op RvStart w = (Next RvLocking, lock_call t lm w)"
| "recv_body_step E g t lm op RvLocking w =
     (let w' = lock_progress E t w in
      (case agents w' t of
         Holding \<Rightarrow> Next RvPop
       | Locking p \<Rightarrow> Next RvLocking
       | _ \<Rightarrow> Panic, w'))"
| "recv_body_step E g t lm op RvPop w =
     (case pop_queue w of (x, w') \<Rightarrow>
       (case x of Some m \<Rightarrow> Next (RvDrop (Inr m)) | None \<Rightarrow> Next RvCount, w'))"
| "recv_body_step E g t lm op RvCount w =
     (Next (if sender_count w = 0 then RvDrop (Inl (FailRecv RecvDisconnected)) else RvWaiting), w)"
| "recv_body_step E g t lm op RvWaiting w =
     (let w' = wait_progress E g t op w in
      (case ccalls w' t of
         Done _ _ _ \<Rightarrow> (Next RvPop, set_call t NoCall w')
       | Failed \<Rightarrow> (Panic, w')
       | _ \<Rightarrow> (Next RvWaiting, w')))"
| "recv_body_step E g t lm op (RvDrop r) w = drop_guard E t (RvDrop r) (Return r) w"

fun recv_timeout_body_step :: "'k env \<Rightarrow> target \<Rightarrow> tid \<Rightarrow> lock_method \<Rightarrow> wait_op \<Rightarrow> 'm recv_result recv_pc \<Rightarrow>
    ('k, 'm, 'z) pworld_scheme \<Rightarrow>
    ('m recv_result recv_pc, 'm recv_result) ctl \<times> ('k, 'm, 'z) pworld_scheme" where
  "recv_timeout_body_step E g t lm op RvStart w = (Next RvLocking, lock_call t lm w)"
| "recv_timeout_body_step E g t lm op RvLocking w =
     (let w' = lock_progress E t w in
      (case agents w' t of
         Holding \<Rightarrow> Next RvPop
       | Locking p \<Rightarrow> Next RvLocking
       | TimedOut d \<Rightarrow> Return (Inl (FailTimeout Timeout))
       | _ \<Rightarrow> Panic, w'))"
| "recv_timeout_body_step E g t lm op RvPop w =
     (case pop_queue w of (x, w') \<Rightarrow>
       (case x of Some m \<Rightarrow> Next (RvDrop (Inr m)) | None \<Rightarrow> Next RvCount, w'))"
| "recv_timeout_body_step E g t lm op RvCount w =
     (Next (if sender_count w = 0 then RvDrop (Inl (FailTimeout TimeoutDisconnected)) else RvWaiting), w)"
| "recv_timeout_body_step E g t lm op RvWaiting w =
     (let w' = wait_progress E g t op w in
      (case ccalls w' t of
         Done _ _ ro \<Rightarrow>
           (Next (if (case ro of Some r \<Rightarrow> timed_out r | None \<Rightarrow> False)
                  then RvDrop (Inl (FailTimeout Timeout)) else RvPop),
            set_call t NoCall w')
       | Failed \<Rightarrow> (Panic, w')
       | _ \<Rightarrow> (Next RvWaiting, w')))"
| "recv_timeout_body_step E g t lm op (RvDrop r) w = drop_guard E t (RvDrop r) (Return r) w"

text \<open>The public methods.\<close>

definition recv_spin_step :: "'k env \<Rightarrow> target \<Rightarrow> tid \<Rightarrow> 'm recv_result recv_pc \<Rightarrow>
    ('k, 'm, 'z) pworld_scheme \<Rightarrow>
    ('m recv_result recv_pc, 'm recv_result) ctl \<times> ('k, 'm, 'z) pworld_scheme" where
  "recv_spin_step E g t = recv_body_step E g t LockSpin WaitSpin"

definition recv_spin_timeout_step :: "'k env \<Rightarrow> target \<Rightarrow> tid \<Rightarrow> instant \<Rightarrow> 'm recv_result recv_pc \<Rightarrow>
    ('k, 'm, 'z) pworld_scheme \<Rightarrow>
    ('m recv_result recv_pc, 'm recv_result) ctl \<times> ('k, 'm, 'z) pworld_scheme" where
  "recv_spin_timeout_step E g t d = recv_timeout_body_step E g t (LockSpinTimeout d) (WaitSpinTimeout d)"

definition recv_block_step :: "'k env \<Rightarrow> target \<Rightarrow> tid \<Rightarrow> 'm recv_result recv_pc \<Rightarrow>
    ('k, 'm, 'z) pworld_scheme \<Rightarrow>
    ('m recv_result recv_pc, 'm recv_result) ctl \<times> ('k, 'm, 'z) pworld_scheme" where
  "recv_block_step E g t = recv_body_step E g t LockBlock WaitBlock"

definition recv_block_timeout_step :: "'k env \<Rightarrow> target \<Rightarrow> tid \<Rightarrow> instant \<Rightarrow> 'm recv_result recv_pc \<Rightarrow>
    ('k, 'm, 'z) pworld_scheme \<Rightarrow>
    ('m recv_result recv_pc, 'm recv_result) ctl \<times> ('k, 'm, 'z) pworld_scheme" where
  "recv_block_timeout_step E g t d = recv_timeout_body_step E g t (LockBlockTimeout d) (WaitBlockTimeout d)"

definition recv_sync_step :: "'k env \<Rightarrow> target \<Rightarrow> tid \<Rightarrow> 'm recv_result recv_pc \<Rightarrow>
    ('k, 'm, 'z) pworld_scheme \<Rightarrow>
    ('m recv_result recv_pc, 'm recv_result) ctl \<times> ('k, 'm, 'z) pworld_scheme" where
  "recv_sync_step E g t = recv_body_step E g t (lock_sync g) (wait_sync g)"

definition recv_sync_timeout_step :: "'k env \<Rightarrow> target \<Rightarrow> tid \<Rightarrow> instant \<Rightarrow> 'm recv_result recv_pc \<Rightarrow>
    ('k, 'm, 'z) pworld_scheme \<Rightarrow>
    ('m recv_result recv_pc, 'm recv_result) ctl \<times> ('k, 'm, 'z) pworld_scheme" where
  "recv_sync_timeout_step E g t d = recv_timeout_body_step E g t (lock_sync_timeout g d) (wait_sync_timeout g d)"

definition recv_async_step :: "'k env \<Rightarrow> target \<Rightarrow> tid \<Rightarrow> 'm recv_result recv_pc \<Rightarrow>
    ('k, 'm, 'z) pworld_scheme \<Rightarrow>
    ('m recv_result recv_pc, 'm recv_result) ctl \<times> ('k, 'm, 'z) pworld_scheme" where
  "recv_async_step E g t = recv_body_step E g t LockAsync WaitAsync"

definition recv_async_timeout_step :: "'k env \<Rightarrow> target \<Rightarrow> tid \<Rightarrow> instant \<Rightarrow> 'm recv_result recv_pc \<Rightarrow>
    ('k, 'm, 'z) pworld_scheme \<Rightarrow>
    ('m recv_result recv_pc, 'm recv_result) ctl \<times> ('k, 'm, 'z) pworld_scheme" where
  "recv_async_timeout_step E g t d = recv_timeout_body_step E g t (LockAsyncTimeout d) (WaitAsyncTimeout d)"

fun recv_step :: "'k env \<Rightarrow> target \<Rightarrow> tid \<Rightarrow> recv_method \<Rightarrow> 'm recv_result recv_pc \<Rightarrow>
    ('k, 'm, 'z) pworld_scheme \<Rightarrow>
    ('m recv_result recv_pc, 'm recv_result) ctl \<times> ('k, 'm, 'z) pworld_scheme" where
  "recv_step E g t RecvSpin = recv_spin_step E g t"
| "recv_step E g t (RecvSpinTimeout d) = recv_spin_timeout_step E g t d"
| "recv_step E g t RecvBlock = recv_block_step E g t"
| "recv_step E g t (RecvBlockTimeout d) = recv_block_timeout_step E g t d"
| "recv_step E g t RecvSync = recv_sync_step E g t"
| "recv_step E g t (RecvSyncTimeout d) = recv_sync_timeout_step E g t d"
| "recv_step E g t RecvAsync = recv_async_step E g t"
| "recv_step E g t (RecvAsyncTimeout d) = recv_async_timeout_step E g t d"

text \<open>\<^verbatim>\<open>IntoIter\<close>: \<^verbatim>\<open>next\<close> is \<^verbatim>\<open>recv_sync().ok()\<close>.\<close>

definition into_iter_next_step :: "'k env \<Rightarrow> target \<Rightarrow> tid \<Rightarrow> 'm recv_result recv_pc \<Rightarrow>
    ('k, 'm, 'z) pworld_scheme \<Rightarrow>
    ('m recv_result recv_pc, 'm option) ctl \<times> ('k, 'm, 'z) pworld_scheme" where
  "into_iter_next_step E g t p w =
     (case recv_sync_step E g t p w of (c, w') \<Rightarrow>
       (case c of
          Next p' \<Rightarrow> Next p'
        | Return r \<Rightarrow> Return (case r of Inr m \<Rightarrow> Some m | Inl e \<Rightarrow> None)
        | Panic \<Rightarrow> Panic, w'))"

section \<open>The two halves\<close>

text \<open>\<^verbatim>\<open>Clone for Sender\<close>.\<close>

definition sender_clone :: "target \<Rightarrow> ('k, 'm, 'z) pworld_scheme \<Rightarrow> ('k, 'm, 'z) pworld_scheme" where
  "sender_clone g w = w\<lparr>sender_count := usize_inc g (sender_count w), handles := handles w + 1\<rparr>"

text \<open>\<^verbatim>\<open>Drop for Sender\<close>: the last one notifies the receiver.\<close>

fun sender_drop_step :: "'k env \<Rightarrow> target \<Rightarrow> tid \<Rightarrow> drop_half_pc \<Rightarrow> ('k, 'm, 'z) pworld_scheme \<Rightarrow>
    (drop_half_pc, unit) ctl \<times> ('k, 'm, 'z) pworld_scheme" where
  "sender_drop_step E g t DhFirst w =
     (if sender_count w = 1 then Next DhNotify else Return (),
      w\<lparr>sender_count := usize_dec g (sender_count w), handles := handles w - 1\<rparr>)"
| "sender_drop_step E g t DhNotify w = (Next DhNotifying, set_call t (Notifying AllSpin) w)"
| "sender_drop_step E g t DhNotifying w =
     (let w' = notify_progress E t w in
      (case ccalls w' t of NoCall \<Rightarrow> Return () | Failed \<Rightarrow> Panic | _ \<Rightarrow> Next DhNotifying, w'))"

text \<open>\<^verbatim>\<open>Drop for Receiver\<close>.\<close>

fun receiver_drop_step :: "'k env \<Rightarrow> tid \<Rightarrow> drop_half_pc \<Rightarrow> ('k, 'm, 'z) pworld_scheme \<Rightarrow>
    (drop_half_pc, unit) ctl \<times> ('k, 'm, 'z) pworld_scheme" where
  "receiver_drop_step E t DhFirst w = (Next DhNotify, w\<lparr>receiver_active := False\<rparr>)"
| "receiver_drop_step E t DhNotify w = (Next DhNotifying, set_call t (Notifying AllSpin) w)"
| "receiver_drop_step E t DhNotifying w =
     (let w' = notify_progress E t w in
      (case ccalls w' t of NoCall \<Rightarrow> Return () | Failed \<Rightarrow> Panic | _ \<Rightarrow> Next DhNotifying, w'))"

end
