(* ===== verification/MpscMachine.thy ===== *)
theory MpscMachine
  imports Mpsc CondvarProps
begin

text \<open>
  Any number of agents using one channel at the same time. The receiver is used by one agent at
  a time, a sender can be shared and cloned. Every step is a step, or a few, of the condition
  variable's machine; the invariant relates the queue to the two histories, the counter to the
  senders there are, and every answer to the state it reports.
\<close>

section \<open>The machine\<close>

definition set_pcall :: "tid \<Rightarrow> 'm pcall \<Rightarrow> ('k, 'm, 'z) pworld_scheme \<Rightarrow> ('k, 'm, 'z) pworld_scheme" where
  "set_pcall t c w = w\<lparr>pcalls := (pcalls w)(t := c)\<rparr>"

fun uses_tx :: "'m pcall \<Rightarrow> bool" where
  "uses_tx (Sending sm m p) = True"
| "uses_tx _ = False"

fun uses_rx :: "'m pcall \<Rightarrow> bool" where
  "uses_rx (Receiving rm p) = True"
| "uses_rx (Trying p) = True"
| "uses_rx _ = False"

fun resting :: "'m pcall \<Rightarrow> bool" where
  "resting PIdle = True"
| "resting (Sent sm m r) = True"
| "resting (Received rm r) = True"
| "resting (Tried r) = True"
| "resting _ = False"

text \<open>The end of a step: the new state of the call, and when the call is over the borrow of
  the half that it used.\<close>

definition end_tx :: "tid \<Rightarrow> 'm pcall \<Rightarrow> ('k, 'm, 'z) pworld_scheme \<Rightarrow> ('k, 'm, 'z) pworld_scheme" where
  "end_tx t c w = (set_pcall t c w)\<lparr>tx_users := (if uses_tx c then tx_users w else tx_users w - {t})\<rparr>"

definition end_rx :: "tid \<Rightarrow> 'm pcall \<Rightarrow> ('k, 'm, 'z) pworld_scheme \<Rightarrow> ('k, 'm, 'z) pworld_scheme" where
  "end_rx t c w = (set_pcall t c w)\<lparr>rx_state := (if uses_rx c then rx_state w else RxFree)\<rparr>"

fun after_send :: "send_method \<Rightarrow> 'm \<Rightarrow> (send_pc, 'm send_result) ctl \<Rightarrow> 'm pcall" where
  "after_send sm m (Next p) = Sending sm m p"
| "after_send sm m (Return r) = Sent sm m r"
| "after_send sm m Panic = PFailed"

fun after_recv :: "recv_method \<Rightarrow> ('m recv_result recv_pc, 'm recv_result) ctl \<Rightarrow> 'm pcall" where
  "after_recv rm (Next p) = Receiving rm p"
| "after_recv rm (Return r) = Received rm r"
| "after_recv rm Panic = PFailed"

fun after_try :: "('m try_result try_pc, 'm try_result) ctl \<Rightarrow> 'm pcall" where
  "after_try (Next p) = Trying p"
| "after_try (Return r) = Tried r"
| "after_try Panic = PFailed"

fun after_half :: "(drop_half_pc \<Rightarrow> 'm pcall) \<Rightarrow> (drop_half_pc, unit) ctl \<Rightarrow> 'm pcall" where
  "after_half f (Next p) = f p"
| "after_half f (Return _) = PIdle"
| "after_half f Panic = PFailed"

definition run_send :: "'k env \<Rightarrow> target \<Rightarrow> tid \<Rightarrow> send_method \<Rightarrow> 'm \<Rightarrow> send_pc \<Rightarrow>
    ('k, 'm, 'z) pworld_scheme \<Rightarrow> ('k, 'm, 'z) pworld_scheme" where
  "run_send E g t sm m p w = (case send_step E g t sm m p w of (c, w') \<Rightarrow> end_tx t (after_send sm m c) w')"

definition run_recv :: "'k env \<Rightarrow> target \<Rightarrow> tid \<Rightarrow> recv_method \<Rightarrow> 'm recv_result recv_pc \<Rightarrow>
    ('k, 'm, 'z) pworld_scheme \<Rightarrow> ('k, 'm, 'z) pworld_scheme" where
  "run_recv E g t rm p w = (case recv_step E g t rm p w of (c, w') \<Rightarrow> end_rx t (after_recv rm c) w')"

definition run_try :: "'k env \<Rightarrow> tid \<Rightarrow> 'm try_result try_pc \<Rightarrow>
    ('k, 'm, 'z) pworld_scheme \<Rightarrow> ('k, 'm, 'z) pworld_scheme" where
  "run_try E t p w = (case try_recv_step E t p w of (c, w') \<Rightarrow> end_rx t (after_try c) w')"

definition run_drop_tx :: "'k env \<Rightarrow> target \<Rightarrow> tid \<Rightarrow> drop_half_pc \<Rightarrow>
    ('k, 'm, 'z) pworld_scheme \<Rightarrow> ('k, 'm, 'z) pworld_scheme" where
  "run_drop_tx E g t p w =
     (case sender_drop_step E g t p w of (c, w') \<Rightarrow> set_pcall t (after_half DroppingTx c) w')"

definition run_drop_rx :: "'k env \<Rightarrow> tid \<Rightarrow> drop_half_pc \<Rightarrow>
    ('k, 'm, 'z) pworld_scheme \<Rightarrow> ('k, 'm, 'z) pworld_scheme" where
  "run_drop_rx E t p w =
     (case receiver_drop_step E t p w of (c, w') \<Rightarrow> set_pcall t (after_half DroppingRx c) w')"

text \<open>
  The futures of \<^verbatim>\<open>send_async\<close>, \<^verbatim>\<open>recv_async\<close> and \<^verbatim>\<open>recv_async_timeout\<close> may be
  dropped where they are suspended, in \<^verbatim>\<open>lock_async\<close> or in the wait. The borrow of the half
  ends; the message of a send that has not pushed it is dropped with the future.
\<close>

fun pcall_awaits :: "'m pcall \<Rightarrow> mpc \<Rightarrow> 'a ccall \<Rightarrow> bool" where
  "pcall_awaits (Sending sm m p) a c = (p = SdLocking \<and> agent_awaits a)"
| "pcall_awaits (Receiving rm p) a c = (p = RvLocking \<and> agent_awaits a \<or> p = RvWaiting \<and> call_awaits c a)"
| "pcall_awaits d a c = False"

definition abandon_pcall :: "tid \<Rightarrow> ('k, 'm, 'z) pworld_scheme \<Rightarrow> ('k, 'm, 'z) pworld_scheme" where
  "abandon_pcall t w =
     (if uses_tx (pcalls w t) then end_tx t PIdle (abandon_call t w) else end_rx t PIdle (abandon_call t w))"

text \<open>
  What the rest of the program does: any step of the mutex's machine that is not a step of an
  agent, such as the clock, the timeout threads, stray tokens and continuations of other code.
\<close>

definition env_frame :: "('k, 'm, 'z) pworld_scheme \<Rightarrow> ('k, 'm, 'z) pworld_scheme \<Rightarrow> bool" where
  "env_frame w w' \<longleftrightarrow> mworld.more w' = mworld.more w \<and> mtx w' = mtx w \<and> agents w' = agents w \<and>
     (\<forall>t. \<not> resting (pcalls w t) \<longrightarrow> token w t \<longrightarrow> token w' t)"

text \<open>
  A send borrows a sender, so there is one, and a sender that is borrowed is not dropped. A
  clone ends the program when the count of the \<^verbatim>\<open>Arc\<close> would pass \<^verbatim>\<open>isize::MAX\<close>;
  every sender owns one unit of that count.
\<close>

inductive pstep :: "'k env \<Rightarrow> target \<Rightarrow> ('k, 'm, 'z) pworld_scheme \<Rightarrow> ('k, 'm, 'z) pworld_scheme \<Rightarrow> bool"
  for E :: "'k env" and g :: target where
  env: "mstep E w w' \<Longrightarrow> env_frame w w' \<Longrightarrow> pstep E g w w'"
| begin_send: "resting (pcalls w t) \<Longrightarrow> 0 < handles w \<Longrightarrow>
     pstep E g w ((set_pcall t (Sending sm m SdCheck) w)\<lparr>tx_users := insert t (tx_users w)\<rparr>)"
| send: "pcalls w t = Sending sm m p \<Longrightarrow> pstep E g w (run_send E g t sm m p w)"
| begin_recv: "resting (pcalls w t) \<Longrightarrow> rx_state w = RxFree \<Longrightarrow>
     pstep E g w ((set_pcall t (Receiving rm RvStart) w)\<lparr>rx_state := RxUsed t\<rparr>)"
| recv: "pcalls w t = Receiving rm p \<Longrightarrow> pstep E g w (run_recv E g t rm p w)"
| begin_try: "resting (pcalls w t) \<Longrightarrow> rx_state w = RxFree \<Longrightarrow>
     pstep E g w ((set_pcall t (Trying TrStart) w)\<lparr>rx_state := RxUsed t\<rparr>)"
| trying: "pcalls w t = Trying p \<Longrightarrow> pstep E g w (run_try E t p w)"
| abandon: "pcall_awaits (pcalls w t) (agents w t) (ccalls w t) \<Longrightarrow> pstep E g w (abandon_pcall t w)"
| clone: "0 < handles w \<Longrightarrow> handles w < 2 ^ (usize_bits g - 1) \<Longrightarrow> pstep E g w (sender_clone g w)"
| drop_tx: "resting (pcalls w t) \<Longrightarrow> 0 < handles w \<Longrightarrow> tx_users w = {} \<or> 1 < handles w \<Longrightarrow>
     pstep E g w (run_drop_tx E g t DhFirst w)"
| dropping_tx: "pcalls w t = DroppingTx p \<Longrightarrow> pstep E g w (run_drop_tx E g t p w)"
| drop_rx: "resting (pcalls w t) \<Longrightarrow> rx_state w = RxFree \<Longrightarrow>
     pstep E g w (run_drop_rx E t DhFirst (w\<lparr>rx_state := RxGone\<rparr>))"
| dropping_rx: "pcalls w t = DroppingRx p \<Longrightarrow> pstep E g w (run_drop_rx E t p w)"

text \<open>The state right after \<^verbatim>\<open>channel()\<close>.\<close>

definition pinit :: "'k env \<Rightarrow> ('k, 'm, 'z) pworld_scheme \<Rightarrow> bool" where
  "pinit E w \<longleftrightarrow> channel w = w \<and> cinit E [] w \<and> (\<forall>t. pcalls w t = PIdle) \<and> sent w = [] \<and> received w = []"

section \<open>Where the steps of the mutex and of the condition variable leave the channel\<close>

lemma more_more: "mworld.more w' = mworld.more w \<Longrightarrow> cworld.more w' = cworld.more w"
  for w w' :: "('k, 'a, 'z) cworld_scheme"
  by (cases w; cases w') simp

lemma release_more: "mworld.more (release_step E t w) = mworld.more w"
  by (auto simp: release_step_def run_drop_def set_agent_def dest: guard_drop_more split: mpc.splits prod.splits)

lemma lock_more: "mworld.more (run_lock E t p w) = mworld.more w"
  by (auto simp: run_lock_def set_agent_def dest: lock_step_more split: prod.splits)

lemma relock_more: "mworld.more (relock_step E t lm w) = mworld.more w"
  by (auto simp: relock_step_def lock_more split: mpc.splits) (simp add: set_agent_def)

lemma drop_guard_more:
  fixes w w' :: "('k, 'a, 'z) cworld_scheme"
  shows "drop_guard E t stay next w = (c, w') \<Longrightarrow> cworld.more w' = cworld.more w"
  by (rule more_more) (auto simp: drop_guard_def Let_def release_more)

lemma lock_again_more:
  fixes w w' :: "('k, 'a, 'z) cworld_scheme"
  shows "lock_again E t lm stay res w = (c, w') \<Longrightarrow> cworld.more w' = cworld.more w"
  by (rule more_more) (auto simp: lock_again_def Let_def relock_more)

lemma on_list_more [simp]:
  "cworld.more (snd (on_sync f w)) = cworld.more w" "cworld.more (snd (on_async fa w)) = cworld.more w"
  "cworld.more (snd (on_spin fs w)) = cworld.more w"
  by (simp_all add: on_sync_def on_async_def on_spin_def split: prod.splits)

lemma on_list_more_eq:
  "on_sync f w = (x, w') \<Longrightarrow> cworld.more w' = cworld.more w"
  "on_async fa w = (y, w') \<Longrightarrow> cworld.more w' = cworld.more w"
  "on_spin fs w = (z, w') \<Longrightarrow> cworld.more w' = cworld.more w"
  by (metis on_list_more(1) snd_conv, metis on_list_more(2) snd_conv, metis on_list_more(3) snd_conv)

lemma os_more:
  fixes w w' :: "('k, 'a, 'z) cworld_scheme"
  shows "park E t w = (c, w') \<Longrightarrow> cworld.more w' = cworld.more w"
    "park_until E t u w = (c, w') \<Longrightarrow> cworld.more w' = cworld.more w"
    "new_cont E w = (r, w') \<Longrightarrow> cworld.more w' = cworld.more w"
    "fetch_waiter_id w = (i, w') \<Longrightarrow> cworld.more w' = cworld.more w"
    "push_new_flag w = (f, w') \<Longrightarrow> cworld.more w' = cworld.more w"
  by (auto simp: park_def park_until_def new_cont_def fetch_waiter_id_def push_new_flag_def new_flag_def
      split: if_splits prod.splits)

lemmas step_more = drop_guard_more lock_again_more on_list_more_eq os_more

lemma finish_more: "finish_step E t p w = (c, w') \<Longrightarrow> cworld.more w' = cworld.more w"
  by (cases p) (auto dest: step_more)

lemma spin_end_more: "spin_end E g t p w = (c, w') \<Longrightarrow> cworld.more w' = cworld.more w"
  by (cases p) (auto dest: step_more finish_more)

lemma wait_more: "wait_step E g t op p w = (c, w') \<Longrightarrow> cworld.more w' = cworld.more w"
proof (cases op)
  case WaitBlock
  then show "wait_step E g t op p w = (c, w') \<Longrightarrow> ?thesis"
    by (cases p) (auto dest: step_more finish_more split: prod.splits ctl.splits)
next
  case (WaitBlockTimeout d)
  then show "wait_step E g t op p w = (c, w') \<Longrightarrow> ?thesis"
    by (cases p) (auto dest: step_more finish_more split: prod.splits ctl.splits option.splits if_splits)
next
  case WaitSpin
  then show "wait_step E g t op p w = (c, w') \<Longrightarrow> ?thesis"
    by (cases p) (auto dest: step_more spin_end_more split: prod.splits)
next
  case (WaitSpinTimeout d)
  then show "wait_step E g t op p w = (c, w') \<Longrightarrow> ?thesis"
    by (cases p) (auto dest: step_more spin_end_more split: prod.splits option.splits)
next
  case WaitAsync
  then show "wait_step E g t op p w = (c, w') \<Longrightarrow> ?thesis"
    by (cases p) (auto dest!: step_more finish_more split: prod.splits)
next
  case (WaitAsyncTimeout d)
  then show "wait_step E g t op p w = (c, w') \<Longrightarrow> ?thesis"
    by (cases p) (auto simp: send_to_def dest!: step_more finish_more split: prod.splits if_splits option.splits)
qed

lemma notify_more: "notify_step E p w = (c, w') \<Longrightarrow> cworld.more w' = cworld.more w"
proof (cases p)
  case (AllStore fs)
  then show "notify_step E p w = (c, w') \<Longrightarrow> ?thesis" by (cases fs) (auto simp: notify_step_def set_flag_def)
next
  case (AllUnpark hs)
  then show "notify_step E p w = (c, w') \<Longrightarrow> ?thesis" by (cases hs) (auto simp: notify_step_def unpark_def)
next
  case (AllSend xs)
  then show "notify_step E p w = (c, w') \<Longrightarrow> ?thesis" by (cases xs) (auto simp: notify_step_def send_to_def)
qed (auto simp: notify_step_def set_flag_def unpark_def send_to_def dest: step_more
    split: prod.splits option.splits)

section \<open>One step of an agent\<close>

text \<open>What a step of agent \<open>t\<close> does to the condition variable's machine, when it does not write
  the queue.\<close>

definition works :: "'k env \<Rightarrow> target \<Rightarrow> tid \<Rightarrow> ('k, 'm, 'z) pworld_scheme \<Rightarrow> ('k, 'm, 'z) pworld_scheme \<Rightarrow> bool" where
  "works E g t w w' \<longleftrightarrow> (cstep E g)\<^sup>*\<^sup>* w w' \<and> (\<forall>u. u \<noteq> t \<longrightarrow> agents w' u = agents w u \<and> ccalls w' u = ccalls w u) \<and>
     inner (mtx w') = inner (mtx w)"

lemma works_refl [simp]: "works E g t w w"
  by (simp add: works_def)

lemma works_trans: "works E g t w w1 \<Longrightarrow> works E g t w1 w2 \<Longrightarrow> works E g t w w2"
  by (auto simp: works_def)

text \<open>A step of the mutex's machine by an agent that is in no call of the condition variable.\<close>

lemma works_client:
  fixes w w' :: "('k, 'm, 'z) pworld_scheme"
  assumes "mstep E w w'" "mworld.more w' = mworld.more w" "ccalls w t = NoCall"
    and "agents w' = (agents w)(t := agents w' t)" "inner (mtx w') = inner (mtx w)"
    and "\<And>u. u \<noteq> t \<Longrightarrow> token w u \<Longrightarrow> token w' u"
  shows "works E g t w w' \<and> cworld.more w' = cworld.more w \<and> ccalls w' = ccalls w"
proof -
  have cs: "cv_same w w'" using assms(2) by (rule cv_same_more)
  then have "client_frame w w'"
    using assms(3-6) unfolding client_frame_def cv_same_def by (metis fun_upd_apply)
  with assms(1) have "cstep E g w w'" by (rule cstep.client)
  then show ?thesis using assms(2,4,5) cs more_more [OF assms(2)] unfolding works_def cv_same_def
    by (metis fun_upd_apply r_into_rtranclp)
qed

lemma works_lock_call:
  fixes w :: "('k, 'm, 'z) pworld_scheme"
  assumes "at_rest (agents w t)" "ccalls w t = NoCall"
  shows "works E g t w (lock_call t lm w)" "cworld.more (lock_call t lm w) = cworld.more w"
    "agents (lock_call t lm w) t = Locking (entry lm)" "ccalls (lock_call t lm w) = ccalls w"
proof -
  have "mworld.more (lock_call t lm w) = mworld.more w" by (simp add: lock_call_def set_agent_def)
  from works_client [OF _ this assms(2)] assms(1)
  show "works E g t w (lock_call t lm w)" "cworld.more (lock_call t lm w) = cworld.more w"
    "agents (lock_call t lm w) t = Locking (entry lm)" "ccalls (lock_call t lm w) = ccalls w"
    by (simp_all add: lock_call_def mstep.call)
qed

lemma works_lock_progress:
  fixes w :: "('k, 'm, 'z) pworld_scheme"
  assumes "agents w t = Locking p" "ccalls w t = NoCall"
  shows "works E g t w (lock_progress E t w)" "cworld.more (lock_progress E t w) = cworld.more w"
    "ccalls (lock_progress E t w) = ccalls w"
proof -
  have eq: "lock_progress E t w = relock_step E t LockSpin w"
    using assms(1) by (simp add: lock_progress_def relock_step_def)
  have ph: "in_phase Taking (agents w t)" using assms(1) by simp
  note f = relock_step_facts [OF ph eq]
  have "mstep E w (lock_progress E t w)"
    using mstep.lock [of w t p E] assms(1) by (simp add: lock_progress_def)
  from works_client [OF this f(5) assms(2) f(2) f(4)] f(6)
  show "works E g t w (lock_progress E t w)" "cworld.more (lock_progress E t w) = cworld.more w"
    "ccalls (lock_progress E t w) = ccalls w" by metis+
qed

lemma works_drop_guard:
  fixes w w' :: "('k, 'm, 'z) pworld_scheme"
  assumes "drop_guard E t stay next w = (c, w')" "in_phase Letting (agents w t)" "ccalls w t = NoCall"
  shows "works E g t w w'" "cworld.more w' = cworld.more w" "ccalls w' = ccalls w"
    "c = next \<and> agents w' t = Idle \<or> c = Next stay \<and> in_phase Letting (agents w' t)"
proof -
  have w': "w' = release_step E t w" using assms(1) by (auto simp: drop_guard_def Let_def)
  note f = release_step_facts [OF assms(2) w']
  from works_client [OF f(1) f(5) assms(3) f(2) f(4)] f(8)
  show "works E g t w w'" "cworld.more w' = cworld.more w" "ccalls w' = ccalls w" by metis+
  show "c = next \<and> agents w' t = Idle \<or> c = Next stay \<and> in_phase Letting (agents w' t)"
    using drop_guard_moves(3) [OF assms(1,2)] by (auto split: if_splits)
qed

lemma set_call_more [simp]: "cworld.more (set_call t c w) = cworld.more w"
  by (simp add: set_call_def)

lemma works_set_call: "cstep E g w (set_call t c w) \<Longrightarrow> works E g t w (set_call t c w)"
  by (simp add: works_def r_into_rtranclp)

lemma cinv_call: "cinv E w \<Longrightarrow> call_ok E w (ccalls w t) (agents w t)"
  by (simp add: cinv_def)

lemma cinv_list_senders: "cinv E w \<Longrightarrow> list_senders w \<inter> snd ` set (timers w) = {}"
  using list_senders_timers [of E w] list_senders_sub(1) [of w] by blast

lemma works_run_wait:
  fixes w :: "('k, 'm, 'z) pworld_scheme"
  assumes i: "cinv E w" and c: "ccalls w t = Waiting op p"
  shows "works E g t w (run_wait E g t op p w)" "cworld.more (run_wait E g t op p w) = cworld.more w"
    "\<exists>c. ccalls (run_wait E g t op p w) t = after_wait op c"
proof -
  obtain d w' where st: "wait_step E g t op p w = (d, w')" by force
  from cinv_call [OF i, of t] c have ph: "in_phase (pc_phase p) (agents w t)" by simp
  from wait_step_facts [OF st ph cinv_list_senders [OF i]]
  have "CondvarMachine.moves E t w w'" "inner (mtx w') = inner (mtx w)" by (simp_all add: step_facts_def)
  with cstep.wait [of w t op p E g] c st wait_more [OF st]
  show "works E g t w (run_wait E g t op p w)" "cworld.more (run_wait E g t op p w) = cworld.more w"
    "\<exists>c. ccalls (run_wait E g t op p w) t = after_wait op c"
    by (auto simp: run_wait_def works_def CondvarMachine.moves_def)
qed

lemma works_run_notify:
  fixes w :: "('k, 'm, 'z) pworld_scheme"
  assumes i: "cinv E w" and c: "ccalls w t = Notifying p"
  shows "works E g t w (run_notify E t p w)" "cworld.more (run_notify E t p w) = cworld.more w"
    "agents (run_notify E t p w) = agents w"
    "ccalls (run_notify E t p w) t = NoCall \<or> (\<exists>q. ccalls (run_notify E t p w) t = Notifying q)"
proof -
  obtain d w' where st: "notify_step E p w = (d, w')" by force
  have "list_senders w \<union> npc_senders p \<subseteq> cv_senders w"
    using list_senders_sub [of w] list_senders_sub(2) [of w t] c by simp
  then have tm: "(list_senders w \<union> npc_senders p) \<inter> snd ` set (timers w) = {}"
    using list_senders_timers [OF i] by blast
  note f = notify_step_facts [OF st tm]
  show "works E g t w (run_notify E t p w)" "cworld.more (run_notify E t p w) = cworld.more w"
    "agents (run_notify E t p w) = agents w"
    "ccalls (run_notify E t p w) t = NoCall \<or> (\<exists>q. ccalls (run_notify E t p w) t = Notifying q)"
    using cstep.notify [of w t p E g] c st f notify_more [OF st]
    by (cases d; auto simp: run_notify_def works_def)+
qed

section \<open>Where a call stands\<close>

text \<open>The deadlines of a receive and of a program counter of the mutex.\<close>

fun recv_deadline :: "recv_method \<Rightarrow> instant option" where
  "recv_deadline (RecvSpinTimeout d) = Some d"
| "recv_deadline (RecvBlockTimeout d) = Some d"
| "recv_deadline (RecvSyncTimeout d) = Some d"
| "recv_deadline (RecvAsyncTimeout d) = Some d"
| "recv_deadline rm = None"

fun pc_deadline :: "lock_pc \<Rightarrow> instant option" where
  "pc_deadline (SpinTSwap d) = Some d"
| "pc_deadline (SpinTNow d) = Some d"
| "pc_deadline (BlockTNow d) = Some d"
| "pc_deadline (BlockTLast d) = Some d"
| "pc_deadline (BlockTReg d p) = Some d"
| "pc_deadline (BlockTRem d) = Some d"
| "pc_deadline (BlockTCall d n) = Some d"
| "pc_deadline (BlockTPark d u) = Some d"
| "pc_deadline (AsyncTNow d) = Some d"
| "pc_deadline (AsyncTLast d) = Some d"
| "pc_deadline (AsyncTReg d p) = Some d"
| "pc_deadline (AsyncTSpawn d r) = Some d"
| "pc_deadline (AsyncTNotify d r q) = Some d"
| "pc_deadline (AsyncTTimeout d r q) = Some d"
| "pc_deadline p = None"

definition keeps_deadline :: "lock_pc \<Rightarrow> (lock_pc, lock_res) ctl \<Rightarrow> bool" where
  "keeps_deadline p c \<longleftrightarrow> (\<forall>q. c = Next q \<longrightarrow> pc_deadline q = pc_deadline p) \<and>
     (\<forall>d. c = Return (NoneAt d) \<longrightarrow> pc_deadline p = Some d)"

lemma lock_step_deadline:
  assumes "lock_step E t p w = (c, w')" shows "keeps_deadline p c"
proof (cases p)
  case (BlockReg r)
  with assms show ?thesis by (auto simp: keeps_deadline_def split: prod.splits reg_res.splits)
next
  case (BlockTReg d r)
  with assms show ?thesis by (auto simp: keeps_deadline_def split: prod.splits reg_res.splits)
next
  case (AsyncReg r)
  with assms show ?thesis by (auto simp: keeps_deadline_def split: prod.splits reg_res.splits)
next
  case (AsyncTReg d r)
  with assms show ?thesis by (auto simp: keeps_deadline_def split: prod.splits reg_res.splits)
next
  case BlockPark
  with assms show ?thesis by (auto simp: keeps_deadline_def split: prod.splits ctl.splits)
next
  case (BlockTPark d u)
  with assms show ?thesis by (auto simp: keeps_deadline_def split: prod.splits ctl.splits)
qed (use assms in \<open>auto simp: keeps_deadline_def try_lock_eq lock_swap_def split: prod.splits if_splits\<close>)

lemma lock_progress_deadline:
  assumes "agents w t = Locking p"
  shows "agents (lock_progress E t w) t = Locking q \<Longrightarrow> pc_deadline q = pc_deadline p"
    "agents (lock_progress E t w) t = TimedOut d \<Longrightarrow> pc_deadline p = Some d"
proof -
  obtain c w' where st: "lock_step E t p w = (c, w')" by force
  have eq: "agents (lock_progress E t w) t = after_lock c"
    by (simp add: lock_progress_def run_lock_def assms st)
  show "agents (lock_progress E t w) t = Locking q \<Longrightarrow> pc_deadline q = pc_deadline p"
    "agents (lock_progress E t w) t = TimedOut d \<Longrightarrow> pc_deadline p = Some d"
    using lock_step_deadline [OF st] eq
    by (cases c rule: after_lock.cases; simp add: keeps_deadline_def)+
qed

text \<open>What the mutex and the condition variable know of the agent at each point of a call.\<close>

abbreviation out_of_calls :: "mpc \<Rightarrow> 'a ccall \<Rightarrow> bool" where
  "out_of_calls a c \<equiv> at_rest a \<and> c = NoCall"

fun send_shape :: "send_pc \<Rightarrow> mpc \<Rightarrow> 'a ccall \<Rightarrow> bool" where
  "send_shape SdLocking a c = ((\<exists>q. a = Locking q) \<and> c = NoCall)"
| "send_shape SdRecheck a c = (a = Holding \<and> c = NoCall)"
| "send_shape SdPush a c = (a = Holding \<and> c = NoCall)"
| "send_shape SdFail a c = (in_phase Letting a \<and> c = NoCall)"
| "send_shape SdDrop a c = (in_phase Letting a \<and> c = NoCall)"
| "send_shape SdNotifying a c = (at_rest a \<and> (\<exists>q. c = Notifying q))"
| "send_shape p a c = out_of_calls a c"

fun recv_shape :: "instant option \<Rightarrow> 'r recv_pc \<Rightarrow> mpc \<Rightarrow> 'a ccall \<Rightarrow> bool" where
  "recv_shape dl RvStart a c = out_of_calls a c"
| "recv_shape dl RvLocking a c = ((\<exists>q. a = Locking q \<and> pc_deadline q = dl) \<and> c = NoCall)"
| "recv_shape dl RvPop a c = (a = Holding \<and> c = NoCall)"
| "recv_shape dl RvCount a c = (a = Holding \<and> c = NoCall)"
| "recv_shape dl RvWaiting a c =
     (a = Holding \<and> c = NoCall \<or> (\<exists>op q. c = Waiting op q \<and> op_deadline op = dl))"
| "recv_shape dl (RvDrop r) a c = (in_phase Letting a \<and> c = NoCall)"

fun try_shape :: "'r try_pc \<Rightarrow> mpc \<Rightarrow> 'a ccall \<Rightarrow> bool" where
  "try_shape TrStart a c = out_of_calls a c"
| "try_shape TrLocking a c = ((\<exists>q. a = Locking q) \<and> c = NoCall)"
| "try_shape TrPop a c = (a = Holding \<and> c = NoCall)"
| "try_shape TrCount a c = (a = Holding \<and> c = NoCall)"
| "try_shape (TrDrop r) a c = (in_phase Letting a \<and> c = NoCall)"

fun half_shape :: "drop_half_pc \<Rightarrow> mpc \<Rightarrow> 'a ccall \<Rightarrow> bool" where
  "half_shape DhNotifying a c = (at_rest a \<and> (\<exists>q. c = Notifying q))"
| "half_shape DhNotify a c = out_of_calls a c"
| "half_shape DhFirst a c = False"

fun pshape :: "'m pcall \<Rightarrow> mpc \<Rightarrow> 'a ccall \<Rightarrow> bool" where
  "pshape (Sending sm m p) a c = send_shape p a c"
| "pshape (Receiving rm p) a c = recv_shape (recv_deadline rm) p a c"
| "pshape (Trying p) a c = try_shape p a c"
| "pshape (DroppingTx p) a c = half_shape p a c"
| "pshape (DroppingRx p) a c = half_shape p a c"
| "pshape PFailed a c = (c = NoCall \<or> c = Failed)"
| "pshape d a c = out_of_calls a c"

lemma resting_shape: "resting d \<Longrightarrow> pshape d a c = out_of_calls a c"
  by (cases d) simp_all

text \<open>What is known of the messages at each point of a call, and of its answer afterwards.\<close>

definition drained :: "('k, 'm, 'z) pworld_scheme \<Rightarrow> bool" where
  "drained w \<longleftrightarrow> handles w = 0 \<and> inner (mtx w) = []"

fun recv_fact :: "('k, 'm, 'z) pworld_scheme \<Rightarrow> instant option \<Rightarrow> 'm recv_result \<Rightarrow> bool" where
  "recv_fact w dl (Inr m) = (m \<in> set (received w))"
| "recv_fact w dl (Inl (FailRecv e)) = (dl = None \<and> drained w)"
| "recv_fact w dl (Inl (FailTimeout TimeoutDisconnected)) = (dl \<noteq> None \<and> drained w)"
| "recv_fact w dl (Inl (FailTimeout Timeout)) = (\<exists>d. dl = Some d \<and> d \<le> now w)"

fun try_fact :: "('k, 'm, 'z) pworld_scheme \<Rightarrow> 'm try_result \<Rightarrow> bool" where
  "try_fact w (Inr m) = (m \<in> set (received w))"
| "try_fact w (Inl TryDisconnected) = drained w"
| "try_fact w (Inl TryEmpty) = True"

fun send_fact :: "('k, 'm, 'z) pworld_scheme \<Rightarrow> 'm \<Rightarrow> 'm send_result \<Rightarrow> bool" where
  "send_fact w m (Inr u) = (m \<in> set (sent w))"
| "send_fact w m (Inl (SendError m')) = (m' = m \<and> \<not> receiver_active w)"

fun pfact :: "('k, 'm, 'z) pworld_scheme \<Rightarrow> 'm pcall \<Rightarrow> bool" where
  "pfact w (Sending sm m p) =
     ((p = SdDrop \<or> p = SdNotify \<or> p = SdNotifying \<longrightarrow> m \<in> set (sent w)) \<and>
      (p = SdFail \<longrightarrow> \<not> receiver_active w))"
| "pfact w (Receiving rm RvCount) = (inner (mtx w) = [])"
| "pfact w (Receiving rm (RvDrop r)) = recv_fact w (recv_deadline rm) r"
| "pfact w (Trying TrCount) = (inner (mtx w) = [])"
| "pfact w (Trying (TrDrop r)) = try_fact w r"
| "pfact w (Sent sm m r) = send_fact w m r"
| "pfact w (Received rm r) = recv_fact w (recv_deadline rm) r"
| "pfact w (Tried r) = try_fact w r"
| "pfact w d = True"

fun counting :: "'m pcall \<Rightarrow> bool" where
  "counting (Receiving rm RvCount) = True"
| "counting (Trying TrCount) = True"
| "counting d = False"

lemma counting_holding: "counting d \<Longrightarrow> pshape d a c \<Longrightarrow> a = Holding"
  by (cases d rule: counting.cases) auto

definition pmono :: "('k, 'm, 'z) pworld_scheme \<Rightarrow> ('k, 'm, 'z) pworld_scheme \<Rightarrow> bool" where
  "pmono w w' \<longleftrightarrow> set (sent w) \<subseteq> set (sent w') \<and> set (received w) \<subseteq> set (received w') \<and>
     (receiver_active w' \<longrightarrow> receiver_active w) \<and> (drained w \<longrightarrow> drained w') \<and> now w \<le> now w'"

lemma recv_fact_mono: "recv_fact w dl r \<Longrightarrow> pmono w w' \<Longrightarrow> recv_fact w' dl r"
  by (cases "(w, dl, r)" rule: recv_fact.cases) (auto simp: pmono_def intro: order_trans)

lemma try_fact_mono: "try_fact w r \<Longrightarrow> pmono w w' \<Longrightarrow> try_fact w' r"
  by (cases "(w, r)" rule: try_fact.cases) (auto simp: pmono_def)

lemma send_fact_mono: "send_fact w m r \<Longrightarrow> pmono w w' \<Longrightarrow> send_fact w' m r"
  by (cases "(w, m, r)" rule: send_fact.cases) (auto simp: pmono_def)

lemma pfact_mono:
  assumes "pfact w d" "pmono w w'" "counting d \<longrightarrow> inner (mtx w') = inner (mtx w)"
  shows "pfact w' d"
proof (cases "(w, d)" rule: pfact.cases)
  case (1 w sm m p)
  with assms show ?thesis by (auto simp: pmono_def)
qed (use assms recv_fact_mono [of w] try_fact_mono [of w] send_fact_mono [of w] in auto)

text \<open>The histories, the counter, and who uses which half.\<close>

definition pglobal :: "target \<Rightarrow> ('k, 'm, 'z) pworld_scheme \<Rightarrow> bool" where
  "pglobal g w \<longleftrightarrow> sent w = received w @ inner (mtx w) \<and>
     sender_count w = handles w \<and> handles w < 2 ^ usize_bits g \<and>
     (tx_users w \<noteq> {} \<longrightarrow> 0 < handles w) \<and> (receiver_active w \<longleftrightarrow> rx_state w \<noteq> RxGone)"

definition puses :: "('k, 'm, 'z) pworld_scheme \<Rightarrow> bool" where
  "puses w \<longleftrightarrow> (\<forall>t. (t \<in> tx_users w \<longleftrightarrow> uses_tx (pcalls w t)) \<and> (rx_state w = RxUsed t \<longleftrightarrow> uses_rx (pcalls w t)))"

definition pinv :: "'k env \<Rightarrow> target \<Rightarrow> ('k, 'm, 'z) pworld_scheme \<Rightarrow> bool" where
  "pinv E g w \<longleftrightarrow> cinv E w \<and> pglobal g w \<and> puses w \<and>
     (\<forall>t. pshape (pcalls w t) (agents w t) (ccalls w t) \<and> pfact w (pcalls w t))"

lemma pinvD:
  "pinv E g w \<Longrightarrow> cinv E w \<and> pglobal g w \<and> puses w \<and>
     pshape (pcalls w t) (agents w t) (ccalls w t) \<and> pfact w (pcalls w t)"
  by (simp add: pinv_def)

section \<open>Preservation\<close>

text \<open>What a step of agent \<open>t\<close> that ends in \<open>d\<close> does to the rest.\<close>

definition outcome :: "'k env \<Rightarrow> target \<Rightarrow> tid \<Rightarrow> ('k, 'm, 'z) pworld_scheme \<Rightarrow> ('k, 'm, 'z) pworld_scheme \<Rightarrow>
    'm pcall \<Rightarrow> bool" where
  "outcome E g t w w' d \<longleftrightarrow> (cstep E g)\<^sup>*\<^sup>* w w' \<and>
     (\<forall>u. u \<noteq> t \<longrightarrow> agents w' u = agents w u \<and> ccalls w' u = ccalls w u) \<and>
     (inner (mtx w') = inner (mtx w) \<or> agents w t = Holding) \<and> pshape d (agents w' t) (ccalls w' t)"

lemma works_outcome: "works E g t w w' \<Longrightarrow> pshape d (agents w' t) (ccalls w' t) \<Longrightarrow> outcome E g t w w' d"
  by (simp add: works_def outcome_def)

lemma cstep_fields:
  fixes w w' :: "('k, 'm, 'z) pworld_scheme"
  assumes "cworld.truncate w' = cworld.truncate w"
  shows "cstep E g w w'" "agents w' = agents w" "ccalls w' = ccalls w" "mtx w' = mtx w"
proof -
  have "mworld.truncate w' = mworld.truncate w" "client_frame w w'"
    using assms by (simp_all add: cworld.truncate_def mworld.truncate_def client_frame_def)
  then show "cstep E g w w'" by (intro cstep.client mstep.other_state)
  show "agents w' = agents w" "ccalls w' = ccalls w" "mtx w' = mtx w"
    using assms by (simp_all add: cworld.truncate_def)
qed

lemma cinv_csteps: "(cstep E g)\<^sup>*\<^sup>* w w' \<Longrightarrow> cinv E w \<Longrightarrow> cinv E w'"
  by (induction rule: rtranclp_induct) (auto intro: cinv_step)

lemma csteps_now:
  assumes "(cstep E g)\<^sup>*\<^sup>* w w'" "cinv E w" shows "now w \<le> now w'"
  using assms(1)
proof (induction rule: rtranclp_induct)
  case (step w1 w2)
  have c: "cinv E w1" using cinv_csteps [OF step.hyps(1) assms(2)] .
  have "os_keeps E w1 w2"
    using msteps_platform [OF cstep_msteps [OF step.hyps(2) c]] c by (auto simp: cinv_def)
  with step.IH show ?case by (simp add: os_keeps_def)
qed simp

lemma pinv_agent:
  assumes inv: "pinv E g w" and out: "outcome E g t w w' d" and fields: "cworld.truncate w'' = cworld.truncate w'"
    and pc: "pcalls w'' = (pcalls w)(t := d)"
    and mono: "now w \<le> now w'' \<Longrightarrow> pmono w w''" and gl: "pglobal g w''" and us: "puses w''" and f: "pfact w'' d"
  shows "pinv E g w'' \<and> (cstep E g)\<^sup>*\<^sup>* w w''"
proof -
  note cf = cstep_fields(1) [OF fields, of E g] cstep_fields(2-) [OF fields]
  have steps: "(cstep E g)\<^sup>*\<^sup>* w w''" using out cf(1) by (auto simp: outcome_def)
  have c: "cinv E w" and sh: "\<And>u. pshape (pcalls w u) (agents w u) (ccalls w u)" and pf: "\<And>u. pfact w (pcalls w u)"
    using inv by (auto simp: pinv_def)
  note mono = mono [OF csteps_now [OF steps c]]
  have "pfact w'' (pcalls w u)" if "u \<noteq> t" for u
  proof (rule pfact_mono [OF pf mono], rule impI)
    assume "counting (pcalls w u)"
    with sh have "agents w u = Holding" by (blast intro: counting_holding)
    moreover have "minv E w" using c by (simp add: cinv_def)
    ultimately have "agents w t \<noteq> Holding" using minv_holding_unique that by metis
    then show "inner (mtx w'') = inner (mtx w)" using out cf(4) by (simp add: outcome_def)
  qed
  moreover have "pshape (pcalls w u) (agents w'' u) (ccalls w'' u)" if "u \<noteq> t" for u
    using out cf sh [of u] that by (simp add: outcome_def)
  ultimately show ?thesis
    using steps cinv_csteps [OF steps c] out cf gl us f pc by (simp add: pinv_def outcome_def)
qed

text \<open>The writes of the queue.\<close>

lemma write_csteps:
  fixes w w' :: "('k, 'm, 'z) pworld_scheme"
  assumes "agents w t = Holding" "ccalls w t = NoCall"
    and "cworld.truncate w' = cworld.truncate (w\<lparr>mtx := guard_deref_mut q (mtx w)\<rparr>)"
  shows "(cstep E g)\<^sup>*\<^sup>* w w'" "agents w' = agents w" "ccalls w' = ccalls w" "inner (mtx w') = q"
proof -
  have "client_frame w (w\<lparr>mtx := guard_deref_mut q (mtx w)\<rparr>)"
    using assms(1,2) by (auto simp: client_frame_def)
  then have "cstep E g w (w\<lparr>mtx := guard_deref_mut q (mtx w)\<rparr>)"
    by (rule cstep.client [OF mstep.access, OF assms(1)])
  then have "(cstep E g)\<^sup>*\<^sup>* w (w\<lparr>mtx := guard_deref_mut q (mtx w)\<rparr>)" by (rule r_into_rtranclp)
  then show "(cstep E g)\<^sup>*\<^sup>* w w'" by (rule rtranclp.rtrancl_into_rtrancl) (rule cstep_fields(1) [OF assms(3)])
  show "agents w' = agents w" "ccalls w' = ccalls w" "inner (mtx w') = q"
    using cstep_fields(2-) [OF assms(3)] by (simp_all add: guard_deref_mut_def)
qed

lemma push_back_truncate:
  "cworld.truncate (push_back m w) = cworld.truncate (w\<lparr>mtx := guard_deref_mut (inner (mtx w) @ [m]) (mtx w)\<rparr>)"
  by (simp add: push_back_def cworld.truncate_def guard_deref_def)

lemma pop_queue_eq:
  "pop_queue w = (case inner (mtx w) of
      [] \<Rightarrow> (None, w\<lparr>mtx := guard_deref_mut [] (mtx w), received := received w\<rparr>)
    | m # q \<Rightarrow> (Some m, w\<lparr>mtx := guard_deref_mut q (mtx w), received := received w @ [m]\<rparr>))"
  by (auto simp: pop_queue_def guard_deref_def pop_front_def split: list.splits)

lemma pop_queue_facts:
  assumes "pop_queue w = (x, w')"
  shows "cworld.truncate w' = cworld.truncate (w\<lparr>mtx := guard_deref_mut (tl (inner (mtx w))) (mtx w)\<rparr>)"
    "x = (case inner (mtx w) of [] \<Rightarrow> None | m # q \<Rightarrow> Some m)"
    "received w' = received w @ (case x of None \<Rightarrow> [] | Some m \<Rightarrow> [m])"
    "sent w' = sent w" "sender_count w' = sender_count w" "handles w' = handles w"
    "receiver_active w' = receiver_active w" "tx_users w' = tx_users w" "rx_state w' = rx_state w"
    "pcalls w' = pcalls w"
  using assms by (auto simp: pop_queue_eq cworld.truncate_def split: list.splits)

text \<open>The fields of the channel itself.\<close>

lemma pworld_same:
  fixes w w' :: "('k, 'm, 'z) pworld_scheme"
  assumes "cworld.more w' = cworld.more w"
  shows "sent w' = sent w" "received w' = received w" "sender_count w' = sender_count w"
    "handles w' = handles w" "receiver_active w' = receiver_active w" "tx_users w' = tx_users w"
    "rx_state w' = rx_state w" "pcalls w' = pcalls w"
  using assms by (cases w; cases w'; simp)+

subsection \<open>Sending\<close>


text \<open>A step that leaves the channel's own fields and the queue alone.\<close>

definition calm :: "'k env \<Rightarrow> target \<Rightarrow> tid \<Rightarrow> ('k, 'm, 'z) pworld_scheme \<Rightarrow> ('k, 'm, 'z) pworld_scheme \<Rightarrow>
    'm pcall \<Rightarrow> bool" where
  "calm E g t w w' d \<longleftrightarrow> outcome E g t w w' d \<and> inner (mtx w') = inner (mtx w) \<and> cworld.more w' = cworld.more w"

lemma calmI: "works E g t w w' \<Longrightarrow> cworld.more w' = cworld.more w \<Longrightarrow> pshape d (agents w' t) (ccalls w' t) \<Longrightarrow>
   calm E g t w w' d"
  using works_outcome [of E g t w w' d] by (simp add: calm_def works_def)

lemma calm_lock_call:
  fixes w :: "('k, 'm, 'z) pworld_scheme"
  shows "out_of_calls (agents w t) (ccalls w t) \<Longrightarrow> pshape d (Locking (entry lm)) (NoCall :: 'm list ccall) \<Longrightarrow>
    calm E g t w (lock_call t lm w) d"
  using works_lock_call(1) [of w t E g lm] works_lock_call(2-) [of w t lm] by (auto intro: calmI)

lemma calm_lock_progress:
  fixes w :: "('k, 'm, 'z) pworld_scheme"
  shows "agents w t = Locking q \<Longrightarrow> ccalls w t = NoCall \<Longrightarrow>
   pshape d (agents (lock_progress E t w) t) (NoCall :: 'm list ccall) \<Longrightarrow>
   calm E g t w (lock_progress E t w) d"
  using works_lock_progress(1) [of w t q E g] works_lock_progress(2-) [of w t q E] by (auto intro: calmI)

lemma calm_drop_guard:
  fixes w :: "('k, 'm, 'z) pworld_scheme"
  assumes "drop_guard E t stay next w = (c, w')" "in_phase Letting (agents w t)" "ccalls w t = NoCall"
    and "\<And>a. in_phase Letting a \<Longrightarrow> pshape (f (Next stay)) a (NoCall :: 'm list ccall)"
      "pshape (f next) Idle (NoCall :: 'm list ccall)"
  shows "calm E g t w w' (f c)"
  using works_drop_guard(1) [OF assms(1-3), of g] works_drop_guard(2-) [OF assms(1-3)] assms(3-)
  by (auto intro!: calmI)

lemma calm_begin_notify:
  fixes w :: "('k, 'm, 'z) pworld_scheme"
  assumes "out_of_calls (agents w t) (ccalls w t)" "p = OneSpin \<or> p = AllSpin"
    and "pshape d (agents w t) (Notifying p :: 'm list ccall)"
  shows "calm E g t w (set_call t (Notifying p) w) d"
  using assms by (intro calmI works_set_call) (auto intro: cstep.begin_notify)

lemma calm_notify:
  fixes w :: "('k, 'm, 'z) pworld_scheme"
  assumes i: "cinv E w" and c: "ccalls w t = Notifying p"
    and d: "\<And>q. ccalls (notify_progress E t w) t = Notifying q \<Longrightarrow> pshape d (agents w t) (Notifying q :: 'm list ccall)"
      "ccalls (notify_progress E t w) t = NoCall \<Longrightarrow> pshape d (agents w t) (NoCall :: 'm list ccall)"
  shows "calm E g t w (notify_progress E t w) d"
    "ccalls (notify_progress E t w) t = NoCall \<or> (\<exists>q. ccalls (notify_progress E t w) t = Notifying q)"
proof -
  have eq: "notify_progress E t w = run_notify E t p w" using c by (simp add: notify_progress_def)
  note f = works_run_notify(1) [OF i c, of g] works_run_notify(2-) [OF i c]
  show "ccalls (notify_progress E t w) t = NoCall \<or> (\<exists>q. ccalls (notify_progress E t w) t = Notifying q)"
    using f(4) eq by simp
  show "calm E g t w (notify_progress E t w) d"
    using f d unfolding eq by (auto intro!: calmI)
qed

lemma calm_same: "pshape d (agents w t) (ccalls w t) \<Longrightarrow> calm E g t w w d"
  by (rule calmI) simp_all

lemma send_body_calm:
  assumes i: "cinv E w" and sh: "send_shape p (agents w t) (ccalls w t)"
    and st: "send_body_step E t lm m p w = (c, w')" and p: "p \<noteq> SdPush"
  shows "calm E g t w w' (after_send sm m c)"
proof (cases p)
  case SdLocking
  then obtain q where q: "agents w t = Locking q" "ccalls w t = NoCall" using sh by auto
  have "pshape (after_send sm m c) (agents (lock_progress E t w) t) NoCall"
    using st SdLocking by (auto simp: Let_def split: mpc.splits)
  with calm_lock_progress [OF q this, of g] st SdLocking show ?thesis by (auto simp: Let_def)
next
  case SdNotifying
  then obtain q where q: "ccalls w t = Notifying q" "at_rest (agents w t)" using sh by auto
  have "calm E g t w (notify_progress E t w) (after_send sm m c)"
    by (rule calm_notify(1) [OF i q(1)]) (use st SdNotifying q in \<open>auto simp: Let_def\<close>)
  with st SdNotifying show ?thesis by (auto simp: Let_def)
next
  case SdFail
  with st sh show ?thesis by (auto intro!: calm_drop_guard [where f = "after_send sm m"])
next
  case SdDrop
  with st sh show ?thesis by (auto intro!: calm_drop_guard [where f = "after_send sm m"])
qed (use st sh p in \<open>auto simp: calm_same intro!: calm_lock_call calm_begin_notify\<close>)

text \<open>What the answer is, from what is known at the program counter.\<close>

lemma send_body_fact:
  assumes "send_body_step E t lm m p w = (c, w')" "p \<noteq> SdPush" "pfact w (Sending sm m p)"
  shows "pfact w (after_send sm m c)"
  using assms
  by (cases p) (auto simp: drop_guard_def Let_def split: if_splits mpc.splits ccall.splits)

lemma send_step_body: "send_step E g t sm = send_body_step E t
    (case sm of SendSpin \<Rightarrow> LockSpin | SendBlock \<Rightarrow> LockBlock | SendSync \<Rightarrow> lock_sync g | SendAsync \<Rightarrow> LockAsync)"
  by (cases sm) (simp_all add: send_spin_step_def send_block_step_def send_sync_step_def send_async_step_def fun_eq_iff)

text \<open>A calm step with its end.\<close>

lemma pinv_calm:
  assumes inv: "pinv E g w" and ca: "calm E g t w w' d" and fields: "cworld.truncate w'' = cworld.truncate w'"
    and pc: "pcalls w'' = (pcalls w)(t := d)" and us: "puses w''" and f: "now w \<le> now w' \<Longrightarrow> pfact w' d"
    and same: "sent w'' = sent w" "received w'' = received w" "sender_count w'' = sender_count w"
      "handles w'' = handles w" "receiver_active w'' = receiver_active w"
      "rx_state w'' = RxGone \<longleftrightarrow> rx_state w = RxGone" "tx_users w'' \<noteq> {} \<longrightarrow> 0 < handles w"
  shows "pinv E g w'' \<and> (cstep E g)\<^sup>*\<^sup>* w w''"
proof (rule pinv_agent [OF inv _ fields pc _ _ us])
  have q: "inner (mtx w'') = inner (mtx w)"
    using ca cstep_fields(4) [OF fields] by (simp add: calm_def)
  show "outcome E g t w w' d" using ca by (simp add: calm_def)
  show "pmono w w''" if "now w \<le> now w''" using same q that by (simp add: pmono_def drained_def)
  show "pglobal g w''" using inv same q by (simp add: pinv_def pglobal_def)
  have le: "now w \<le> now w'"
    using csteps_now [of E g w w'] ca inv by (simp add: calm_def outcome_def pinv_def)
  have "now w'' = now w'" using fields by (simp add: cworld.truncate_def)
  moreover have m: "cworld.more w' = cworld.more w" and "inner (mtx w') = inner (mtx w)"
    using ca by (simp_all add: calm_def)
  ultimately have "pmono w' w''" using same q by (simp add: pmono_def drained_def pworld_same [OF m])
  then show "pfact w'' d" by (rule pfact_mono [OF f [OF le]]) (simp add: q \<open>inner (mtx w') = inner (mtx w)\<close>)
qed

subsection \<open>Receiving\<close>

fun recv_lock :: "target \<Rightarrow> recv_method \<Rightarrow> lock_method" where
  "recv_lock g RecvSpin = LockSpin"
| "recv_lock g (RecvSpinTimeout d) = LockSpinTimeout d"
| "recv_lock g RecvBlock = LockBlock"
| "recv_lock g (RecvBlockTimeout d) = LockBlockTimeout d"
| "recv_lock g RecvSync = lock_sync g"
| "recv_lock g (RecvSyncTimeout d) = lock_sync_timeout g d"
| "recv_lock g RecvAsync = LockAsync"
| "recv_lock g (RecvAsyncTimeout d) = LockAsyncTimeout d"

fun recv_wait :: "target \<Rightarrow> recv_method \<Rightarrow> wait_op" where
  "recv_wait g RecvSpin = WaitSpin"
| "recv_wait g (RecvSpinTimeout d) = WaitSpinTimeout d"
| "recv_wait g RecvBlock = WaitBlock"
| "recv_wait g (RecvBlockTimeout d) = WaitBlockTimeout d"
| "recv_wait g RecvSync = wait_sync g"
| "recv_wait g (RecvSyncTimeout d) = wait_sync_timeout g d"
| "recv_wait g RecvAsync = WaitAsync"
| "recv_wait g (RecvAsyncTimeout d) = WaitAsyncTimeout d"

lemmas recv_method_defs = recv_spin_step_def recv_spin_timeout_step_def recv_block_step_def
  recv_block_timeout_step_def recv_sync_step_def recv_sync_timeout_step_def recv_async_step_def
  recv_async_timeout_step_def

lemma recv_step_body: "recv_step E g t rm =
   (if recv_deadline rm = None then recv_body_step else recv_timeout_body_step) E g t (recv_lock g rm) (recv_wait g rm)"
  by (cases rm) (simp_all add: recv_method_defs)

lemma recv_deadlines:
  "pc_deadline (entry (recv_lock g rm)) = recv_deadline rm" "op_deadline (recv_wait g rm) = recv_deadline rm"
  by (cases rm; simp add: lock_sync_def lock_sync_timeout_def wait_sync_def wait_sync_timeout_def
      split: strategy.splits)+

definition waited :: "'k env \<Rightarrow> target \<Rightarrow> tid \<Rightarrow> instant option \<Rightarrow> ('k, 'm, 'z) pworld_scheme \<Rightarrow>
    ('k, 'm, 'z) pworld_scheme \<Rightarrow> bool" where
  "waited E g t dl w w' \<longleftrightarrow>
     (\<exists>op q. ccalls w' t = Waiting op q \<and> op_deadline op = dl) \<or> ccalls w' t = Failed \<or>
     (\<exists>op ro. ccalls w' t = Done op None ro \<and> works E g t w (set_call t NoCall w') \<and> agents w' t = Holding \<and>
        (\<forall>r. ro = Some r \<longrightarrow> timed_out r \<longrightarrow> (\<exists>d. dl = Some d \<and> d \<le> now w')))"

lemma wait_progress_waited:
  fixes w :: "('k, 'm, 'z) pworld_scheme"
  assumes i: "cinv E w" and sh: "recv_shape dl RvWaiting (agents w t) (ccalls w t)" and op: "op_deadline op = dl"
    and w': "w' = wait_progress E g t op w"
  shows "works E g t w w'" "cworld.more w' = cworld.more w" "waited E g t dl w w'"
proof -
  from sh consider (new) "agents w t = Holding" "ccalls w t = NoCall"
    | (old) op' q where "ccalls w t = Waiting op' q" "op_deadline op' = dl" by auto
  then have "works E g t w w' \<and> cworld.more w' = cworld.more w \<and> waited E g t dl w w'"
  proof cases
    case new
    have "works E g t w (set_call t (Waiting op (wait_entry op)) w)"
      by (rule works_set_call) (rule cstep.begin_wait [OF new(2,1)])
    with new show ?thesis using w' op by (simp add: wait_progress_def waited_def)
  next
    case old
    have eq: "w' = run_wait E g t op' q w" using w' old by (simp add: wait_progress_def)
    note f = works_run_wait(1) [OF i old(1), of g] works_run_wait(2,3) [OF i old(1)]
    have "waited E g t dl w w'"
    proof -
      obtain c where c: "ccalls w' t = after_wait op' c" using f(3) eq by blast
      show ?thesis
      proof (cases c)
        case (Return ro)
        have d: "ccalls w' t = Done op' None ro" using c Return by simp
        have "cinv E w'" using f(1) i eq cinv_csteps by (metis works_def)
        from cinv_call [OF this, of t] d have ok: "agents w' t = Holding" "result_ok w' op' ro" by simp_all
        have "works E g t w' (set_call t NoCall w')" by (rule works_set_call) (rule cstep.resume [OF d])
        then have "works E g t w (set_call t NoCall w')" using f(1) eq works_trans by metis
        with d ok old(2) show ?thesis by (auto simp: waited_def result_ok_def overdue_def)
      qed (use c old(2) in \<open>simp_all add: waited_def\<close>)
    qed
    with f eq show ?thesis by simp
  qed
  then show "works E g t w w'" "cworld.more w' = cworld.more w" "waited E g t dl w w'" by blast+
qed

lemma recv_wait_calm:
  fixes w :: "('k, 'm, 'z) pworld_scheme"
  assumes i: "cinv E w" and sh: "recv_shape (recv_deadline rm) RvWaiting (agents w t) (ccalls w t)"
    and st: "recv_step E g t rm RvWaiting w = (c, w')"
  shows "calm E g t w w' (after_recv rm c)" "pfact w' (after_recv rm c)"
proof -
  define v where "v = wait_progress E g t (recv_wait g rm) w"
  note f = wait_progress_waited [OF i sh recv_deadlines(2) v_def]
  from f(3) consider (wait) op q where "ccalls v t = Waiting op q" "op_deadline op = recv_deadline rm"
    | (fail) "ccalls v t = Failed"
    | (fin) op ro where "ccalls v t = Done op None ro" "works E g t w (set_call t NoCall v)" "agents v t = Holding"
        "\<And>r. ro = Some r \<Longrightarrow> timed_out r \<Longrightarrow> \<exists>d. recv_deadline rm = Some d \<and> d \<le> now v"
    unfolding waited_def by blast
  then have "calm E g t w w' (after_recv rm c) \<and> pfact w' (after_recv rm c)"
  proof cases
    case wait
    then have "c = Next RvWaiting \<and> w' = v" using st by (auto simp: recv_step_body v_def Let_def split: if_splits)
    with wait f show ?thesis by (auto intro!: calmI)
  next
    case fail
    then have "c = Panic \<and> w' = v" using st by (auto simp: recv_step_body v_def Let_def split: if_splits)
    with fail f show ?thesis by (auto intro!: calmI)
  next
    case fin
    then have w': "w' = set_call t NoCall v"
      and c: "c = Next RvPop \<or> (\<exists>d. c = Next (RvDrop (Inl (FailTimeout Timeout))) \<and> recv_deadline rm = Some d \<and> d \<le> now v)"
      using st by (auto simp: recv_step_body v_def Let_def split: if_splits option.splits)
    then have "pshape (after_recv rm c) Holding (NoCall :: 'm list ccall)" by auto
    with w' fin f(2) have "calm E g t w w' (after_recv rm c)" by (intro calmI) auto
    with c w' show ?thesis by auto
  qed
  then show "calm E g t w w' (after_recv rm c)" "pfact w' (after_recv rm c)" by blast+
qed

lemma minv_timed_out: "cinv E w \<Longrightarrow> agents w t = TimedOut d \<Longrightarrow> d \<le> now w"
  unfolding cinv_def minv_def by (metis agent_ok.simps(2))

lemma cinv_works: "works E g t w w' \<Longrightarrow> cinv E w \<Longrightarrow> cinv E w'"
  by (auto simp: works_def intro: cinv_csteps)

lemma recv_locking_calm:
  fixes w :: "('k, 'm, 'z) pworld_scheme"
  assumes i: "cinv E w" and sh: "recv_shape (recv_deadline rm) RvLocking (agents w t) (ccalls w t)"
    and st: "recv_step E g t rm RvLocking w = (c, w')"
  shows "calm E g t w w' (after_recv rm c)" "pfact w' (after_recv rm c)"
proof -
  from sh obtain q where q: "agents w t = Locking q" "pc_deadline q = recv_deadline rm" and n: "ccalls w t = NoCall"
    by auto
  have w': "w' = lock_progress E t w"
    using st by (auto simp: recv_step_body Let_def split: if_splits)
  note f = works_lock_progress(1) [OF q(1) n, of E g] works_lock_progress(2-) [OF q(1) n, of E]
  note dl = lock_progress_deadline [OF q(1), of E]
  have now: "agents w' t = TimedOut d \<Longrightarrow> d \<le> now w'" for d
    using minv_timed_out [OF cinv_works [OF f(1) i]] w' by simp
  have c: "(\<exists>q'. agents w' t = Locking q' \<and> c = Next RvLocking) \<or> (agents w' t = Holding \<and> c = Next RvPop) \<or>
     (\<exists>d. agents w' t = TimedOut d \<and> c = Return (Inl (FailTimeout Timeout))) \<or> c = Panic"
    using st w' by (auto simp: recv_step_body Let_def split: if_splits mpc.splits)
  then have "pshape (after_recv rm c) (agents w' t) (ccalls w' t)"
    using dl q(2) f(3) n unfolding w' by auto
  with f w' show "calm E g t w w' (after_recv rm c)" by (auto intro: calmI)
  show "pfact w' (after_recv rm c)"
    using c dl(2) q(2) now unfolding w' by (elim disjE exE conjE) simp_all
qed

lemma recv_drop_calm:
  fixes w :: "('k, 'm, 'z) pworld_scheme"
  assumes sh: "recv_shape (recv_deadline rm) (RvDrop r) (agents w t) (ccalls w t)"
    and st: "recv_step E g t rm (RvDrop r) w = (c, w')" and f: "recv_fact w (recv_deadline rm) r"
  shows "calm E g t w w' (after_recv rm c)" "pfact w (after_recv rm c)"
proof -
  have d: "drop_guard E t (RvDrop r) (Return r) w = (c, w')"
    using st by (auto simp: recv_step_body split: if_splits)
  show "calm E g t w w' (after_recv rm c)"
    using sh by (intro calm_drop_guard [OF d, where f = "after_recv rm"]) auto
  show "pfact w (after_recv rm c)" using d f by (auto simp: drop_guard_def Let_def split: if_splits)
qed

lemma pinv_countE:
  assumes "pinv E g w"
  shows "sender_count w = 0 \<Longrightarrow> inner (mtx w) = [] \<Longrightarrow> drained w"
  using assms by (simp add: pinv_def pglobal_def drained_def)

lemma calm_now: "calm E g t w w' d \<Longrightarrow> cinv E w \<Longrightarrow> now w \<le> now w'"
  by (auto simp: calm_def outcome_def intro: csteps_now)

lemma calm_pfact:
  assumes "calm E g t w w' d" "cinv E w" "pfact w d" shows "pfact w' d"
proof (rule pfact_mono [OF assms(3)])
  have "cworld.more w' = cworld.more w" "inner (mtx w') = inner (mtx w)" using assms(1) by (simp_all add: calm_def)
  with calm_now [OF assms(1,2)] show "pmono w w'" by (simp add: pmono_def drained_def pworld_same [of w' w])
  show "counting d \<longrightarrow> inner (mtx w') = inner (mtx w)" using assms(1) by (simp add: calm_def)
qed

lemma recv_step_calm:
  assumes inv: "pinv E g w" and pc: "pcalls w t = Receiving rm p"
    and st: "recv_step E g t rm p w = (c, w')" and p: "p \<noteq> RvPop"
  shows "calm E g t w w' (after_recv rm c) \<and> pfact w' (after_recv rm c)"
proof -
  have i: "cinv E w" and sh: "recv_shape (recv_deadline rm) p (agents w t) (ccalls w t)"
    and f: "pfact w (Receiving rm p)" using pinvD [OF inv, of t] pc by simp_all
  show ?thesis
  proof (cases p)
    case RvStart
    then have "c = Next RvLocking" "w' = lock_call t (recv_lock g rm) w"
      using st by (auto simp: recv_step_body split: if_splits)
    moreover have "calm E g t w (lock_call t (recv_lock g rm) w) (Receiving rm RvLocking)"
      by (rule calm_lock_call) (use sh RvStart recv_deadlines in auto)
    ultimately show ?thesis by simp
  next
    case RvLocking
    with recv_locking_calm [OF i] sh st show ?thesis by simp
  next
    case RvCount
    then have w': "w' = w" and c: "c = (Next (if sender_count w = 0 then
        RvDrop (Inl (if recv_deadline rm = None then FailRecv RecvDisconnected else FailTimeout TimeoutDisconnected))
        else RvWaiting))"
      using st by (auto simp: recv_step_body split: if_splits)
    have "calm E g t w w (after_recv rm c)" by (rule calm_same) (use sh RvCount c in auto)
    moreover have "pfact w (after_recv rm c)" using f RvCount c pinv_countE [OF inv] by auto
    ultimately show ?thesis using w' by simp
  next
    case RvWaiting
    with recv_wait_calm [OF i] sh st show ?thesis by simp
  next
    case (RvDrop r)
    with recv_drop_calm [of rm r w t E g c w'] sh st f show ?thesis
      by (auto intro: calm_pfact [OF _ i])
  qed (use p in simp)
qed

lemma try_step_calm:
  assumes inv: "pinv E g w" and pc: "pcalls w t = Trying p"
    and st: "try_recv_step E t p w = (c, w')" and p: "p \<noteq> TrPop"
  shows "calm E g t w w' (after_try c) \<and> pfact w' (after_try c)"
proof -
  have i: "cinv E w" and sh: "try_shape p (agents w t) (ccalls w t)"
    and f: "pfact w (Trying p)" using pinvD [OF inv, of t] pc by simp_all
  show ?thesis
  proof (cases p)
    case TrStart
    with st sh show ?thesis by (auto intro!: calm_lock_call)
  next
    case TrLocking
    then obtain q where q: "agents w t = Locking q" "ccalls w t = NoCall" using sh by auto
    have "pshape (after_try c) (agents (lock_progress E t w) t) (NoCall :: 'b list ccall) \<and> pfact w' (after_try c)"
      using st TrLocking by (auto simp: Let_def split: mpc.splits)
    with calm_lock_progress [OF q, of "after_try c" E g] st TrLocking show ?thesis by (auto simp: Let_def)
  next
    case TrCount
    with st sh f pinv_countE [OF inv] show ?thesis by (auto intro!: calm_same)
  next
    case (TrDrop r)
    then have d: "drop_guard E t (TrDrop r) (Return r) w = (c, w')" using st by simp
    have "calm E g t w w' (after_try c)"
      using sh TrDrop by (intro calm_drop_guard [OF d, where f = after_try]) auto
    moreover have "pfact w (after_try c)" using d f TrDrop by (auto simp: drop_guard_def Let_def split: if_splits)
    ultimately show ?thesis by (auto intro: calm_pfact [OF _ i])
  qed (use p in simp)
qed

subsection \<open>The writes of the queue\<close>

lemma puses_end_tx:
  assumes "puses w" "uses_tx (pcalls w t)" "\<not> uses_rx d"
    and "pcalls w' = pcalls w" "tx_users w' = tx_users w" "rx_state w' = rx_state w"
  shows "puses (end_tx t d w')"
proof -
  have "\<not> uses_rx (pcalls w t)" using assms(2) by (cases "pcalls w t") auto
  with assms show ?thesis by (auto simp: puses_def end_tx_def set_pcall_def)
qed

lemma puses_end_rx:
  assumes "puses w" "uses_rx (pcalls w t)" "\<not> uses_tx d"
    and "pcalls w' = pcalls w" "tx_users w' = tx_users w" "rx_state w' = rx_state w"
  shows "puses (end_rx t d w')"
proof -
  have "\<not> uses_tx (pcalls w t)" using assms(2) by (cases "pcalls w t") auto
  moreover have "rx_state w = RxUsed t" using assms(1,2) by (auto simp: puses_def)
  ultimately show ?thesis using assms by (auto simp: puses_def end_rx_def set_pcall_def)
qed

lemma after_uses [simp]:
  "\<not> uses_rx (after_send sm m c)" "\<not> uses_tx (after_recv rm d)" "\<not> uses_tx (after_try e)"
  by - ((cases c; simp), (cases d; simp), (cases e; simp))

lemma end_sel [simp]:
  "pcalls (end_tx t d w) = (pcalls w)(t := d)" "pcalls (end_rx t d w) = (pcalls w)(t := d)"
  "cworld.truncate (end_tx t d w) = cworld.truncate w" "cworld.truncate (end_rx t d w) = cworld.truncate w"
  "sent (end_tx t d w) = sent w" "sent (end_rx t d w) = sent w"
  "received (end_tx t d w) = received w" "received (end_rx t d w) = received w"
  "handles (end_tx t d w) = handles w" "handles (end_rx t d w) = handles w"
  "sender_count (end_tx t d w) = sender_count w" "sender_count (end_rx t d w) = sender_count w"
  "receiver_active (end_tx t d w) = receiver_active w" "receiver_active (end_rx t d w) = receiver_active w"
  "rx_state (end_tx t d w) = rx_state w" "tx_users (end_rx t d w) = tx_users w"
  "tx_users (end_tx t d w) \<subseteq> tx_users w" "mtx (end_tx t d w) = mtx w" "mtx (end_rx t d w) = mtx w"
  "now (end_tx t d w) = now w" "now (end_rx t d w) = now w"
  by (auto simp: end_tx_def end_rx_def set_pcall_def cworld.truncate_def)

lemma pinv_push:
  assumes inv: "pinv E g w" and pc: "pcalls w t = Sending sm m SdPush"
  shows "pinv E g (end_tx t (Sending sm m SdDrop) (push_back m w)) \<and>
    (cstep E g)\<^sup>*\<^sup>* w (end_tx t (Sending sm m SdDrop) (push_back m w))" (is "pinv E g ?v \<and> _")
proof -
  have a: "agents w t = Holding" "ccalls w t = NoCall" using pinvD [OF inv, of t] pc by simp_all
  note w = write_csteps [OF a push_back_truncate [of m w]]
  have u: "t \<in> tx_users w" using inv pc by (auto simp: pinv_def puses_def)
  have flds: "sent (push_back m w) = sent w @ [m]" "received (push_back m w) = received w"
    "handles (push_back m w) = handles w" "sender_count (push_back m w) = sender_count w"
    "receiver_active (push_back m w) = receiver_active w" "tx_users (push_back m w) = tx_users w"
    "rx_state (push_back m w) = rx_state w" "pcalls (push_back m w) = pcalls w"
    by (simp_all add: push_back_def)
  show ?thesis
  proof (rule pinv_agent [OF inv])
    show "outcome E g t w (push_back m w) (Sending sm m SdDrop)"
      using w(1) [of E g] w(2,3) a by (simp add: outcome_def)
    have "0 < handles w" using inv u by (auto simp: pinv_def pglobal_def)
    then show "pmono w ?v" if "now w \<le> now ?v"
      using that flds by (auto simp: pmono_def drained_def)
    show "pglobal g ?v" using inv w(4) flds by (auto simp: pinv_def pglobal_def dest: end_sel(17) [THEN subsetD])
    show "puses ?v" using inv pc flds by (intro puses_end_tx [of w]) (auto simp: pinv_def)
  qed (simp_all add: flds)
qed

lemma pinv_pop:
  fixes w :: "('k, 'm, 'z) pworld_scheme"
  assumes inv: "pinv E g w" and a: "agents w t = Holding" "ccalls w t = NoCall" and q: "pop_queue w = (x, v)"
    and u: "uses_rx (pcalls w t)" "\<not> uses_tx d" and sh: "pshape d Holding (NoCall :: 'm list ccall)"
    and f: "pfact (end_rx t d v) d"
  shows "pinv E g (end_rx t d v) \<and> (cstep E g)\<^sup>*\<^sup>* w (end_rx t d v)"
proof (rule pinv_agent [OF inv])
  note p = pop_queue_facts [OF q]
  note w = write_csteps [OF a p(1)]
  show "outcome E g t w v d" using w(1) [of E g] w(2,3) a sh by (simp add: outcome_def)
  show "pmono w (end_rx t d v)" if "now w \<le> now (end_rx t d v)"
    using that p w(4) by (auto simp: pmono_def drained_def)
  show "pglobal g (end_rx t d v)"
  proof -
    have gl: "pglobal g w" and us: "puses w" using inv by (simp_all add: pinv_def)
    from us u(1) have rx: "rx_state w = RxUsed t" by (simp add: puses_def)
    have "sent w = (received w @ (case x of None \<Rightarrow> [] | Some m \<Rightarrow> [m])) @ tl (inner (mtx w))"
      using gl p(2) by (simp add: pglobal_def split: list.splits)
    moreover have "rx_state (end_rx t d v) \<noteq> RxGone" using rx p(9) by (simp add: end_rx_def)
    ultimately show ?thesis using gl rx p w(4) by (simp add: pglobal_def)
  qed
  show "puses (end_rx t d v)" using inv u p by (intro puses_end_rx [of w]) (auto simp: pinv_def)
  show "pfact (end_rx t d v) d" by (rule f)
qed (simp_all add: pop_queue_facts [OF q])

subsection \<open>Every step\<close>

lemma calm_fields:
  assumes "calm E g t w w' d"
  shows "sent w' = sent w" "received w' = received w" "sender_count w' = sender_count w"
    "handles w' = handles w" "receiver_active w' = receiver_active w" "tx_users w' = tx_users w"
    "rx_state w' = rx_state w" "pcalls w' = pcalls w"
  using assms pworld_same [of w' w] by (simp_all add: calm_def)

lemma pinv_tx_users: "pinv E g w \<Longrightarrow> tx_users w \<noteq> {} \<Longrightarrow> 0 < handles w"
  by (simp add: pinv_def pglobal_def)

lemma pinv_end_tx:
  assumes inv: "pinv E g w" and ca: "calm E g t w w' d" and u: "uses_tx (pcalls w t)" "\<not> uses_rx d"
    and f: "pfact w' d"
  shows "pinv E g (end_tx t d w') \<and> (cstep E g)\<^sup>*\<^sup>* w (end_tx t d w')"
proof (rule pinv_calm [OF inv ca])
  show "puses (end_tx t d w')"
    using inv u calm_fields [OF ca] by (intro puses_end_tx [of w]) (auto simp: pinv_def)
  have "tx_users w \<noteq> {}" using inv u by (auto simp: pinv_def puses_def)
  with inv show "tx_users (end_tx t d w') \<noteq> {} \<longrightarrow> 0 < handles w" by (simp add: pinv_tx_users)
qed (simp_all add: f calm_fields [OF ca])

lemma pinv_end_rx:
  assumes inv: "pinv E g w" and ca: "calm E g t w w' d" and u: "uses_rx (pcalls w t)" "\<not> uses_tx d"
    and f: "pfact w' d"
  shows "pinv E g (end_rx t d w') \<and> (cstep E g)\<^sup>*\<^sup>* w (end_rx t d w')"
proof (rule pinv_calm [OF inv ca])
  show "puses (end_rx t d w')"
    using inv u calm_fields [OF ca] by (intro puses_end_rx [of w]) (auto simp: pinv_def)
  have "rx_state w = RxUsed t" using inv u by (auto simp: pinv_def puses_def)
  then show "rx_state (end_rx t d w') = RxGone \<longleftrightarrow> rx_state w = RxGone"
    using calm_fields [OF ca] by (simp add: end_rx_def)
  show "tx_users (end_rx t d w') \<noteq> {} \<longrightarrow> 0 < handles w"
    using inv calm_fields [OF ca] by (simp add: pinv_tx_users)
qed (simp_all add: f calm_fields [OF ca])

lemma pinv_send:
  assumes inv: "pinv E g w" and pc: "pcalls w t = Sending sm m p"
  shows "pinv E g (run_send E g t sm m p w) \<and> (cstep E g)\<^sup>*\<^sup>* w (run_send E g t sm m p w)"
proof (cases "p = SdPush")
  case True
  with pinv_push [OF inv, of t sm m] pc show ?thesis by (simp add: run_send_def send_step_body)
next
  case False
  obtain c w' where st: "send_step E g t sm m p w = (c, w')" by force
  note inv' = pinvD [OF inv, of t]
  have ca: "calm E g t w w' (after_send sm m c)"
    using send_body_calm [of E w p t] inv' pc st False by (simp add: send_step_body)
  have "pfact w (after_send sm m c)"
    using send_body_fact [of E t _ m p w c w' sm] inv' pc st False by (auto simp: send_step_body)
  then have "pfact w' (after_send sm m c)" using calm_pfact [OF ca] inv' by blast
  from pinv_end_tx [OF inv ca _ _ this] pc st show ?thesis by (simp add: run_send_def)
qed

lemma pinv_recv:
  assumes inv: "pinv E g w" and pc: "pcalls w t = Receiving rm p"
  shows "pinv E g (run_recv E g t rm p w) \<and> (cstep E g)\<^sup>*\<^sup>* w (run_recv E g t rm p w)"
proof -
  obtain c w' where st: "recv_step E g t rm p w = (c, w')" by force
  have "pinv E g (end_rx t (after_recv rm c) w') \<and> (cstep E g)\<^sup>*\<^sup>* w (end_rx t (after_recv rm c) w')"
  proof (cases "p = RvPop")
    case True
    obtain x v where q: "pop_queue w = (x, v)" by force
    have c: "c = Next (case x of Some m \<Rightarrow> RvDrop (Inr m) | None \<Rightarrow> RvCount)" and w': "w' = v"
      using st q True by (auto simp: recv_step_body split: if_splits option.splits)
    have a: "agents w t = Holding" "ccalls w t = NoCall" using pinvD [OF inv, of t] pc True by simp_all
    note p = pop_queue_facts [OF q]
    note w = write_csteps [OF a p(1)]
    show ?thesis unfolding w'
      by (rule pinv_pop [OF inv a q]) (use pc c p w(4) in \<open>auto split: option.splits list.splits\<close>)
  next
    case False
    from recv_step_calm [OF inv pc st this] pinv_end_rx [OF inv, of t w' "after_recv rm c"] pc
    show ?thesis by simp
  qed
  then show ?thesis by (simp add: run_recv_def st)
qed

lemma pinv_try:
  assumes inv: "pinv E g w" and pc: "pcalls w t = Trying p"
  shows "pinv E g (run_try E t p w) \<and> (cstep E g)\<^sup>*\<^sup>* w (run_try E t p w)"
proof -
  obtain c w' where st: "try_recv_step E t p w = (c, w')" by force
  have "pinv E g (end_rx t (after_try c) w') \<and> (cstep E g)\<^sup>*\<^sup>* w (end_rx t (after_try c) w')"
  proof (cases "p = TrPop")
    case True
    obtain x v where q: "pop_queue w = (x, v)" by force
    have c: "c = Next (case x of Some m \<Rightarrow> TrDrop (Inr m) | None \<Rightarrow> TrCount)" and w': "w' = v"
      using st q True by (auto split: option.splits)
    have a: "agents w t = Holding" "ccalls w t = NoCall" using pinvD [OF inv, of t] pc True by simp_all
    note p = pop_queue_facts [OF q]
    note w = write_csteps [OF a p(1)]
    show ?thesis unfolding w'
      by (rule pinv_pop [OF inv a q]) (use pc c p w(4) in \<open>auto split: option.splits list.splits\<close>)
  next
    case False
    from try_step_calm [OF inv pc st this] pinv_end_rx [OF inv, of t w' "after_try c"] pc
    show ?thesis by simp
  qed
  then show ?thesis by (simp add: run_try_def st)
qed

text \<open>A step that changes the channel's own fields only.\<close>

lemma pinv_fields:
  assumes inv: "pinv E g w" and fields: "cworld.truncate w' = cworld.truncate w"
    and pc: "pcalls w' = (pcalls w)(t := d)" and sh: "pshape d (agents w t) (ccalls w t)"
    and same: "sent w' = sent w" "received w' = received w"
    and act: "receiver_active w' \<longrightarrow> receiver_active w" "handles w = 0 \<longrightarrow> handles w' = 0"
    and cnt: "sender_count w' = handles w'" "handles w' < 2 ^ usize_bits g"
      "tx_users w' \<noteq> {} \<longrightarrow> 0 < handles w'" "receiver_active w' \<longleftrightarrow> rx_state w' \<noteq> RxGone"
    and us: "puses w'" and f: "pfact w d"
  shows "pinv E g w' \<and> (cstep E g)\<^sup>*\<^sup>* w w'"
proof (rule pinv_agent [OF inv works_outcome [OF works_refl sh] fields pc _ _ us])
  have q: "inner (mtx w') = inner (mtx w)" using cstep_fields(4) [OF fields] by simp
  show m: "pmono w w'" if "now w \<le> now w'" using same act q that by (simp add: pmono_def drained_def)
  have "now w' = now w" using fields by (simp add: cworld.truncate_def)
  then show "pfact w' d" using m by (intro pfact_mono [OF f]) (simp_all add: q)
  show "pglobal g w'" using inv same cnt q by (simp add: pinv_def pglobal_def)
qed

lemma resting_uses: "resting d \<Longrightarrow> \<not> uses_tx d \<and> \<not> uses_rx d"
  by (cases d) simp_all

lemma pinv_resting:
  "pinv E g w \<Longrightarrow> resting (pcalls w t) \<Longrightarrow> out_of_calls (agents w t) (ccalls w t)"
  using pinvD [of E g w t] resting_shape by blast

lemma usize_dec_eq: "0 < h \<Longrightarrow> h < 2 ^ usize_bits g \<Longrightarrow> usize_dec g h = h - 1"
proof -
  assume "0 < h" "h < 2 ^ usize_bits g"
  then have "h + 2 ^ usize_bits g - 1 = (h - 1) + 2 ^ usize_bits g" "h - 1 < 2 ^ usize_bits g" by simp_all
  then show ?thesis unfolding usize_dec_def by (metis mod_add_self2 mod_less)
qed

lemma usize_half: "(2 :: nat) ^ (usize_bits g - 1) < 2 ^ usize_bits g"
  by (simp add: usize_bits_def split: target.split)

lemma usize_inc_eq: "h < 2 ^ (usize_bits g - 1) \<Longrightarrow> usize_inc g h = h + 1 \<and> h + 1 < 2 ^ usize_bits g"
proof -
  assume "h < 2 ^ (usize_bits g - 1)"
  then have "h + 1 \<le> 2 ^ (usize_bits g - 1)" by simp
  then have "h + 1 < 2 ^ usize_bits g" using usize_half by (rule le_less_trans)
  then show ?thesis by (simp add: usize_inc_def)
qed

lemma pinv_begin_send:
  assumes inv: "pinv E g w" and r: "resting (pcalls w t)" and h: "0 < handles w"
    and w': "w' = (set_pcall t (Sending sm m SdCheck) w)\<lparr>tx_users := insert t (tx_users w)\<rparr>"
  shows "pinv E g w' \<and> (cstep E g)\<^sup>*\<^sup>* w w'"
  by (rule pinv_fields [OF inv, of w' t "Sending sm m SdCheck"])
    (use pinv_resting [OF inv r] resting_uses [OF r] inv h in
      \<open>auto simp: w' set_pcall_def cworld.truncate_def pinv_def pglobal_def puses_def\<close>)

lemma pinv_begin_rx:
  assumes inv: "pinv E g w" and r: "resting (pcalls w t)" and x: "rx_state w = RxFree"
    and d: "d = Receiving rm RvStart \<or> d = Trying TrStart"
    and w': "w' = (set_pcall t d w)\<lparr>rx_state := RxUsed t\<rparr>"
  shows "pinv E g w' \<and> (cstep E g)\<^sup>*\<^sup>* w w'"
proof -
  have n: "\<not> uses_rx (pcalls w u)" for u using inv x by (metis pinv_def puses_def rx.distinct(1))
  show ?thesis
    by (rule pinv_fields [OF inv, of w' t d])
      (use pinv_resting [OF inv r] resting_uses [OF r] n inv x d in
        \<open>auto simp: w' set_pcall_def cworld.truncate_def pinv_def pglobal_def puses_def\<close>)
qed

lemma pinv_clone:
  assumes inv: "pinv E g w" and h: "0 < handles w" "handles w < 2 ^ (usize_bits g - 1)"
  shows "pinv E g (sender_clone g w) \<and> (cstep E g)\<^sup>*\<^sup>* w (sender_clone g w)"
  by (rule pinv_fields [OF inv, of "sender_clone g w" 0 "pcalls w 0"])
    (use pinvD [OF inv, of 0] h usize_inc_eq [OF h(2)] in
      \<open>auto simp: sender_clone_def cworld.truncate_def pglobal_def puses_def\<close>)

lemma pinv_drop_tx_first:
  assumes inv: "pinv E g w" and r: "resting (pcalls w t)" and h: "0 < handles w" "tx_users w = {} \<or> 1 < handles w"
  shows "pinv E g (run_drop_tx E g t DhFirst w) \<and> (cstep E g)\<^sup>*\<^sup>* w (run_drop_tx E g t DhFirst w)"
proof -
  define d :: "'b pcall" where "d = (if sender_count w = 1 then DroppingTx DhNotify else PIdle)"
  define v where "v = set_pcall t d
    (w\<lparr>sender_count := usize_dec g (sender_count w), handles := handles w - 1\<rparr>)"
  have gl: "sender_count w = handles w" "handles w < 2 ^ usize_bits g" using inv by (simp_all add: pinv_def pglobal_def)
  have "pinv E g v \<and> (cstep E g)\<^sup>*\<^sup>* w v"
    by (rule pinv_fields [OF inv, of v t d])
      (use pinv_resting [OF inv r] resting_uses [OF r] gl h inv usize_dec_eq [of "handles w" g] in
        \<open>auto simp: v_def d_def set_pcall_def cworld.truncate_def pinv_def pglobal_def puses_def\<close>)
  moreover have "run_drop_tx E g t DhFirst w = v" by (simp add: run_drop_tx_def v_def d_def)
  ultimately show ?thesis by simp
qed

lemma pinv_drop_rx_first:
  assumes inv: "pinv E g w" and r: "resting (pcalls w t)" and x: "rx_state w = RxFree"
  shows "pinv E g (run_drop_rx E t DhFirst (w\<lparr>rx_state := RxGone\<rparr>)) \<and>
    (cstep E g)\<^sup>*\<^sup>* w (run_drop_rx E t DhFirst (w\<lparr>rx_state := RxGone\<rparr>))"
proof -
  define v where "v = set_pcall t (DroppingRx DhNotify) (w\<lparr>rx_state := RxGone, receiver_active := False\<rparr>)"
  have n: "\<not> uses_rx (pcalls w u)" for u using inv x by (metis pinv_def puses_def rx.distinct(1))
  have "pinv E g v \<and> (cstep E g)\<^sup>*\<^sup>* w v"
    by (rule pinv_fields [OF inv, of v t "DroppingRx DhNotify"])
      (use pinv_resting [OF inv r] resting_uses [OF r] n inv in
        \<open>auto simp: v_def set_pcall_def cworld.truncate_def pinv_def pglobal_def puses_def\<close>)
  moreover have "run_drop_rx E t DhFirst (w\<lparr>rx_state := RxGone\<rparr>) = v" by (simp add: run_drop_rx_def v_def)
  ultimately show ?thesis by simp
qed

text \<open>The steps of a drop after its first.\<close>

lemma half_calm:
  assumes i: "cinv E w" and sh: "half_shape p (agents w t) (ccalls w t)"
    and st: "sender_drop_step E g t p w = (c, w') \<or> receiver_drop_step E t p w = (c, w')"
    and f: "f = DroppingTx \<or> f = DroppingRx"
  shows "calm E g t w w' (after_half f c) \<and> pfact w' (after_half f c)"
proof -
  have fact: "pfact w' (after_half f c)" using f by (cases c) auto
  show ?thesis
  proof (cases p)
    case DhNotify
    with st sh f fact show ?thesis by (auto intro!: calm_begin_notify)
  next
    case DhNotifying
    then obtain q where q: "ccalls w t = Notifying q" "at_rest (agents w t)" using sh by auto
    have "calm E g t w (notify_progress E t w) (after_half f c)"
      by (rule calm_notify(1) [OF i q(1)]) (use st DhNotifying q f in \<open>auto simp: Let_def\<close>)
    with st DhNotifying fact show ?thesis by (auto simp: Let_def)
  qed (use sh in simp)
qed

lemma pinv_half:
  assumes inv: "pinv E g w" and pc: "pcalls w t = f p" and f: "f = DroppingTx \<or> f = DroppingRx"
    and st: "sender_drop_step E g t p w = (c, w') \<or> receiver_drop_step E t p w = (c, w')"
  shows "pinv E g (set_pcall t (after_half f c) w') \<and> (cstep E g)\<^sup>*\<^sup>* w (set_pcall t (after_half f c) w')"
proof -
  have sh: "half_shape p (agents w t) (ccalls w t)" using pinvD [OF inv, of t] pc f by auto
  from half_calm [OF _ sh st f] inv
  have ca: "calm E g t w w' (after_half f c)" and pf: "pfact w' (after_half f c)" by (simp_all add: pinv_def)
  have u: "\<not> uses_tx (after_half f c)" "\<not> uses_rx (after_half f c)" "\<not> uses_tx (pcalls w t)" "\<not> uses_rx (pcalls w t)"
    using f pc by (cases c; auto)+
  show ?thesis
    by (rule pinv_calm [OF inv ca])
      (use calm_fields [OF ca] u inv pf in
        \<open>auto simp: set_pcall_def cworld.truncate_def puses_def pinv_def pglobal_def\<close>)
qed

lemma pinv_env:
  assumes inv: "pinv E g w" and st: "mstep E w w'" and fr: "env_frame w w'"
  shows "pinv E g w' \<and> (cstep E g)\<^sup>*\<^sup>* w w'"
proof -
  have m: "mworld.more w' = mworld.more w" and a: "agents w' = agents w" "mtx w' = mtx w"
    and tk: "\<And>t. \<not> resting (pcalls w t) \<Longrightarrow> token w t \<Longrightarrow> token w' t" using fr by (auto simp: env_frame_def)
  have cs: "cv_same w w'" using m by (rule cv_same_more)
  have "\<not> resting (pcalls w t)" if "ccalls w t \<noteq> NoCall" for t using pinv_resting [OF inv] that by blast
  then have "client_frame w w'" using cs a tk by (auto simp: client_frame_def cv_same_def)
  with st have "cstep E g w w'" by (rule cstep.client)
  then have "works E g 0 w w'" using a cs by (auto simp: works_def cv_same_def)
  moreover have "pshape (pcalls w 0) (agents w' 0) (ccalls w' 0)" using pinvD [OF inv, of 0] a cs by (simp add: cv_same_def)
  ultimately have ca: "calm E g 0 w w' (pcalls w 0)" using more_more [OF m] by (intro calmI)
  have i: "cinv E w" and f: "pfact w (pcalls w 0)" using pinvD [OF inv, of 0] by simp_all
  note fl = calm_fields [OF ca]
  show ?thesis
  proof (rule pinv_calm [OF inv ca refl])
    show "puses w'" using inv fl by (simp add: pinv_def puses_def)
    show "tx_users w' \<noteq> {} \<longrightarrow> 0 < handles w" using inv fl by (simp add: pinv_tx_users)
  qed (simp_all add: fl calm_pfact [OF ca i f])
qed

text \<open>A future that is dropped.\<close>

lemma works_abandon:
  fixes w :: "('k, 'm, 'z) pworld_scheme"
  assumes "pcall_awaits (pcalls w t) (agents w t) (ccalls w t)" "pshape (pcalls w t) (agents w t) (ccalls w t)"
  shows "works E g t w (abandon_call t w)" "cworld.more (abandon_call t w) = cworld.more w"
    "agents (abandon_call t w) t = Idle" "ccalls (abandon_call t w) t = NoCall" "now (abandon_call t w) = now w"
proof -
  have "cstep E g w (abandon_call t w)"
  proof (cases "call_awaits (ccalls w t) (agents w t)")
    case False
    then obtain q where q: "agents w t = Locking q" "lock_awaits q" "ccalls w t = NoCall"
      using assms by (cases "pcalls w t"; cases "agents w t") auto
    have "abandon_call t w = set_agent t Idle w"
      using q(3) by (simp add: abandon_call_def set_call_def set_agent_def fun_upd_idem)
    moreover have "client_frame w (set_agent t Idle w)"
      using q(3) by (auto simp: client_frame_def set_agent_def)
    ultimately show ?thesis using cstep.client [OF mstep.abandon [OF q(1,2)]] by simp
  qed (rule cstep.abandon)
  then show "works E g t w (abandon_call t w)"
    by (auto simp: works_def abandon_call_def set_agent_def)
qed (simp_all add: abandon_call_def set_call_def set_agent_def)

lemma pinv_abandon:
  assumes inv: "pinv E g w" and a: "pcall_awaits (pcalls w t) (agents w t) (ccalls w t)"
  shows "pinv E g (abandon_pcall t w) \<and> (cstep E g)\<^sup>*\<^sup>* w (abandon_pcall t w)"
proof -
  have sh: "pshape (pcalls w t) (agents w t) (ccalls w t)" using pinvD [OF inv] by blast
  have ca: "calm E g t w (abandon_call t w) PIdle"
    using works_abandon [OF a sh] by (intro calmI) simp_all
  note f = calm_fields [OF ca]
  have u: "uses_tx (pcalls w t) \<longleftrightarrow> \<not> uses_rx (pcalls w t)"
    using a by (cases "pcalls w t") auto
  have "puses w" "pglobal g w" using inv by (simp_all add: pinv_def)
  note same = this f
  have none: "handles w = 0 \<Longrightarrow> tx_users w = {}" using pinv_tx_users [OF inv] by auto
  show ?thesis
  proof (cases "uses_tx (pcalls w t)")
    case True
    then have e: "abandon_pcall t w = end_tx t PIdle (abandon_call t w)" by (simp add: abandon_pcall_def)
    have "puses (abandon_pcall t w)"
      unfolding e by (rule puses_end_tx [OF same(1) True]) (simp_all add: f)
    then show ?thesis unfolding e
      by (intro pinv_calm [OF inv ca])
        (use none in \<open>auto simp: end_tx_def set_pcall_def cworld.truncate_def f\<close>)
  next
    case False
    then have e: "abandon_pcall t w = end_rx t PIdle (abandon_call t w)" and x: "uses_rx (pcalls w t)"
      using u by (simp_all add: abandon_pcall_def)
    have "puses (abandon_pcall t w)"
      unfolding e by (rule puses_end_rx [OF same(1) x]) (simp_all add: f)
    moreover have "rx_state w \<noteq> RxGone" using same(1) x by (metis puses_def rx.distinct(5))
    ultimately show ?thesis unfolding e
      by (intro pinv_calm [OF inv ca])
        (use none in \<open>auto simp: end_rx_def set_pcall_def cworld.truncate_def f\<close>)
  qed
qed

lemma pstep_sim: "pstep E g w w' \<Longrightarrow> pinv E g w \<Longrightarrow> pinv E g w' \<and> (cstep E g)\<^sup>*\<^sup>* w w'"
proof (induction rule: pstep.induct)
  case (env w w')
  then show ?case by (intro pinv_env)
next
  case (begin_send w t sm m)
  then show ?case by (intro pinv_begin_send) auto
next
  case (send w t sm m p)
  then show ?case by (intro pinv_send)
next
  case (begin_recv w t rm)
  then show ?case by (intro pinv_begin_rx [OF _ _ _ disjI1]) auto
next
  case (recv w t rm p)
  then show ?case by (intro pinv_recv)
next
  case (begin_try w t)
  then show ?case by (intro pinv_begin_rx [OF _ _ _ disjI2]) auto
next
  case (trying w t p)
  then show ?case by (intro pinv_try)
next
  case (abandon w t)
  then show ?case by (intro pinv_abandon)
next
  case (clone w)
  then show ?case by (intro pinv_clone)
next
  case (drop_tx w t)
  then show ?case by (intro pinv_drop_tx_first)
next
  case (dropping_tx w t p)
  obtain c w' where "sender_drop_step E g t p w = (c, w')" by force
  with pinv_half [of E g w t DroppingTx p c w'] dropping_tx show ?case by (simp add: run_drop_tx_def)
next
  case (drop_rx w t)
  then show ?case by (intro pinv_drop_rx_first)
next
  case (dropping_rx w t p)
  obtain c w' where "receiver_drop_step E t p w = (c, w')" by force
  with pinv_half [of E g w t DroppingRx p c w'] dropping_rx show ?case by (simp add: run_drop_rx_def)
qed

lemma pinit_fields:
  assumes "pinit E w"
  shows "inner (mtx w) = []" "sender_count w = 1" "receiver_active w" "handles w = 1" "tx_users w = {}"
    "rx_state w = RxFree" "sent w = []" "received w = []" "pcalls w t = PIdle" "agents w t = Idle" "ccalls w t = NoCall"
proof -
  have ch: "channel w = w" using assms by (simp add: pinit_def)
  have "sender_count (channel w) = 1" "receiver_active (channel w)" "handles (channel w) = 1"
    "tx_users (channel w) = {}" "rx_state (channel w) = RxFree" "inner (mtx (channel w)) = []"
    by (simp_all add: channel_def mutex_new_def)
  with ch assms show "inner (mtx w) = []" "sender_count w = 1" "receiver_active w" "handles w = 1" "tx_users w = {}"
    "rx_state w = RxFree" "sent w = []" "received w = []" "pcalls w t = PIdle" "agents w t = Idle" "ccalls w t = NoCall"
    by (simp_all add: pinit_def cinit_def minit_def)
qed

lemma pinv_init: "pinit E w \<Longrightarrow> pinv E g w"
proof -
  assume i: "pinit E w"
  have "cinv E w" using i cinv_init by (auto simp: pinit_def)
  moreover have "(1 :: nat) < 2 ^ usize_bits g" by (simp add: usize_bits_def split: target.split)
  ultimately show ?thesis
    using pinit_fields [OF i] by (simp add: pinv_def pglobal_def puses_def)
qed

interpretation channel_inv: machine_invariant "pinit E" "pstep E g" "pinv E g" for E g
  by unfold_locales (auto intro: pinv_init dest: pstep_sim)

text \<open>The channel runs on the condition variable and its mutex: what holds of them in every
  reachable state holds while the channel is used.\<close>

interpretation channel_sim: machine_simulation "pinit E" "pstep E g" "pinv E g" "cinit E []" "cstep E g" "\<lambda>w. w"
  for E g
  by unfold_locales (auto simp: pinit_def dest: pstep_sim)

end
