(* ===== verification/MpscWake.thy ===== *)
theory MpscWake
  imports MpscMachine
begin

text \<open>
  A receiver that spins, as \<^verbatim>\<open>recv_spin\<close> does everywhere and \<^verbatim>\<open>recv_sync\<close> where
  the thread may not block, is not left spinning while a message is in the queue: as long as its
  wake flag is on the list some sender has pushed and not yet taken a flag off the list.
\<close>

section \<open>The invariant\<close>

text \<open>A sender between its push and the pop of its notification.\<close>

definition about_to_wake :: "('k, 'm, 'z) pworld_scheme \<Rightarrow> tid \<Rightarrow> bool" where
  "about_to_wake w u \<longleftrightarrow> (\<exists>sm m. pcalls w u = Sending sm m SdDrop \<or> pcalls w u = Sending sm m SdNotify \<or>
     pcalls w u = Sending sm m SdNotifying \<and> ccalls w u = Notifying OneSpin)"

text \<open>The receiver has seen the empty queue and not yet put its flag on the list.\<close>

definition before_push :: "('k, 'm, 'z) pworld_scheme \<Rightarrow> tid \<Rightarrow> bool" where
  "before_push w t \<longleftrightarrow> (\<exists>rm. pcalls w t = Receiving rm RvWaiting) \<and>
     (ccalls w t = NoCall \<or> (\<exists>op. ccalls w t = Waiting op SPush))"

definition winv :: "'k env \<Rightarrow> target \<Rightarrow> ('k, 'm, 'z) pworld_scheme \<Rightarrow> bool" where
  "winv E g w \<longleftrightarrow> pinv E g w \<and> cvinv E w \<and>
     (\<forall>f \<in> set (spin_list w). \<exists>t. expects w t (HFlag f)) \<and>
     (inner (mtx w) \<noteq> [] \<longrightarrow> spin_list w \<noteq> [] \<longrightarrow> (\<exists>u. about_to_wake w u)) \<and>
     (\<forall>t. before_push w t \<longrightarrow> inner (mtx w) = [])"

lemma winvD:
  assumes "winv E g w"
  shows "pinv E g w" "cvinv E w" "\<And>f. f \<in> set (spin_list w) \<Longrightarrow> \<exists>t. expects w t (HFlag f)"
    "inner (mtx w) \<noteq> [] \<Longrightarrow> spin_list w \<noteq> [] \<Longrightarrow> \<exists>u. about_to_wake w u"
    "\<And>t. before_push w t \<Longrightarrow> inner (mtx w) = []"
  using assms by (auto simp: winv_def)

text \<open>Only the agent that uses the receiver waits, so there is at most one flag on the list.\<close>

lemma expects_receiver:
  assumes "pinv E g w" "expects w t h" shows "rx_state w = RxUsed t" "\<exists>rm. pcalls w t = Receiving rm RvWaiting"
proof -
  from assms(2) obtain p where p: "call_pc (ccalls w t) = Some p" by (auto simp: expects_def)
  have sh: "pshape (pcalls w t) (agents w t) (ccalls w t)" using pinvD [OF assms(1)] by blast
  have n: "ccalls w t \<noteq> NoCall" "ccalls w t \<noteq> Failed" "\<nexists>q. ccalls w t = Notifying q" using p by auto
  show "\<exists>rm. pcalls w t = Receiving rm RvWaiting"
  proof (cases "pcalls w t")
    case (Sending sm m p)
    with sh n show ?thesis by (cases p) auto
  next
    case (Receiving rm p)
    with sh n show ?thesis by (cases p) auto
  next
    case (Trying p)
    with sh n show ?thesis by (cases p) auto
  next
    case (DroppingTx p)
    with sh n show ?thesis by (cases p) auto
  next
    case (DroppingRx p)
    with sh n show ?thesis by (cases p) auto
  qed (use sh n in auto)
  then show "rx_state w = RxUsed t" using assms(1) by (auto simp: pinv_def puses_def)
qed

lemma one_expects:
  assumes "pinv E g w" "expects w t h" "expects w u k" shows "t = u"
  using expects_receiver(1) [OF assms(1,2)] expects_receiver(1) [OF assms(1,3)] by simp

lemma waits_on_unique: "expects w t (HFlag f) \<Longrightarrow> expects w t (HFlag f') \<Longrightarrow> f = f'"
  by (auto simp: expects_def)

lemma one_flag:
  assumes "winv E g w" shows "spin_list w = [] \<or> (\<exists>f. spin_list w = [f])"
proof (cases "spin_list w")
  case (Cons f fs)
  note wD = winvD [OF assms]
  have d: "distinct (spin_list w)" using wD(2) by (simp add: cvinv_def places_def flag_places_def)
  have "f' = f" if "f' \<in> set fs" for f'
  proof -
    from Cons that wD(3) [of f] wD(3) [of f'] obtain t u where "expects w t (HFlag f)" "expects w u (HFlag f')" by auto
    with one_expects [OF wD(1)] waits_on_unique show ?thesis by metis
  qed
  with d Cons show ?thesis by (cases fs) auto
qed simp

section \<open>Preservation\<close>

lemma cvinv_csteps: "(cstep E g)\<^sup>*\<^sup>* w w' \<Longrightarrow> cvinv E w \<Longrightarrow> cvinv E w'"
  by (induction rule: rtranclp_induct) (auto intro: cvinv_step)

lemma before_push_holding: "pinv E g w \<Longrightarrow> before_push w t \<Longrightarrow> agents w t = Holding"
proof -
  assume i: "pinv E g w" and b: "before_push w t"
  have sh: "pshape (pcalls w t) (agents w t) (ccalls w t)" and c: "cinv E w" using pinvD [OF i] by blast+
  from cinv_call [OF c, of t] sh b show ?thesis by (auto simp: before_push_def)
qed

text \<open>A step of agent \<open>t\<close>.\<close>

lemma winv_agent:
  assumes inv: "winv E g w" and p: "pinv E g w' \<and> (cstep E g)\<^sup>*\<^sup>* w w'"
    and others: "\<And>u. u \<noteq> t \<Longrightarrow> pcalls w' u = pcalls w u \<and> ccalls w' u = ccalls w u"
    and flags: "\<And>f. f \<in> set (spin_list w') \<Longrightarrow>
      expects w' t (HFlag f) \<or> f \<in> set (spin_list w) \<and> \<not> expects w t (HFlag f)"
    and wake: "inner (mtx w') \<noteq> [] \<Longrightarrow> spin_list w' \<noteq> [] \<Longrightarrow>
      about_to_wake w' t \<or> inner (mtx w) \<noteq> [] \<and> spin_list w \<noteq> [] \<and> \<not> about_to_wake w t"
    and own: "before_push w' t \<Longrightarrow> inner (mtx w') = []"
    and queue: "inner (mtx w') = inner (mtx w) \<or> agents w t = Holding"
  shows "winv E g w'"
proof -
  note wD = winvD [OF inv]
  have ex: "expects w' u h = expects w u h" if "u \<noteq> t" for u h using others [OF that] by (simp add: expects_def)
  have ab: "about_to_wake w' u = about_to_wake w u" if "u \<noteq> t" for u using others [OF that] by (simp add: about_to_wake_def)
  have "\<exists>u. expects w' u (HFlag f)" if "f \<in> set (spin_list w')" for f
    using flags [OF that] wD(3) ex by metis
  moreover have "\<exists>u. about_to_wake w' u" if "inner (mtx w') \<noteq> []" "spin_list w' \<noteq> []"
    using wake [OF that] wD(4) ab by metis
  moreover have "inner (mtx w') = []" if "before_push w' u" for u
  proof (cases "u = t")
    case False
    then have b: "before_push w u" using others [OF False] that by (simp add: before_push_def)
    have "minv E w" using wD(1) by (simp add: pinv_def cinv_def)
    then have "agents w t \<noteq> Holding"
      using minv_holding_unique before_push_holding [OF wD(1) b] False by metis
    with queue wD(5) [OF b] show ?thesis by simp
  qed (use own that in simp)
  ultimately show ?thesis using p cvinv_csteps wD(2) by (auto simp: winv_def)
qed

text \<open>A step that leaves the lists of the condition variable and the queue's length alone.\<close>

lemma winv_quiet:
  assumes inv: "winv E g w" and p: "pinv E g w' \<and> (cstep E g)\<^sup>*\<^sup>* w w'"
    and others: "\<And>u. u \<noteq> t \<Longrightarrow> pcalls w' u = pcalls w u \<and> ccalls w' u = ccalls w u"
    and cv: "cv w' = cv w" and rx: "\<And>h. \<not> expects w t h"
    and wake: "inner (mtx w') \<noteq> [] \<Longrightarrow> about_to_wake w' t \<or> inner (mtx w) \<noteq> [] \<and> \<not> about_to_wake w t"
    and own: "before_push w' t \<Longrightarrow> inner (mtx w') = []"
    and queue: "inner (mtx w') = inner (mtx w) \<or> agents w t = Holding"
  shows "winv E g w'"
proof -
  have "spin_list w' = spin_list w" using cv by (simp add: cv_lists)
  then show ?thesis using assms by (intro winv_agent [OF inv p others]) auto
qed

lemma not_expects: "pinv E g w \<Longrightarrow> \<nexists>rm. pcalls w t = Receiving rm RvWaiting \<Longrightarrow> \<not> expects w t h"
  using expects_receiver(2) by blast

subsection \<open>The wait of the receiver\<close>

text \<open>A step of a wait never goes back before its push, and a spin wait keeps its flag until
  the flag is off the list.\<close>

lemma wait_not_back: "wait_step E g t op p w = (Next SPush, w') \<Longrightarrow> p = SPush \<and> w' = w"
proof (cases p)
  case BPark
  then show "wait_step E g t op p w = (Next SPush, w') \<Longrightarrow> ?thesis"
    by (cases op) (auto split: prod.splits ctl.splits)
next
  case (BParkT u)
  then show "wait_step E g t op p w = (Next SPush, w') \<Longrightarrow> ?thesis"
    by (cases op) (auto split: prod.splits ctl.splits)
qed (cases op; auto simp: drop_guard_def lock_again_def Let_def
    split: prod.splits option.splits if_splits mpc.splits)+

lemma quiet_spin_flag:
  assumes st: "wait_step E g t op p w = (c, w')" and q: "\<not> loud p" and p: "waits_on t p = Some (HFlag f)"
    and k: "\<not> wake_flags w f"
  shows "\<exists>q. c = Next q \<and> waits_on t q = Some (HFlag f)"
  using p
proof (cases p)
  case (SRelease f')
  with st p show ?thesis by (cases op) (auto simp: drop_guard_def Let_def split: if_splits)
next
  case (SLoad f')
  with st p k show ?thesis by (cases op) auto
next
  case (SNow f')
  with st p show ?thesis by (cases op) auto
next
  case (SLast f')
  with st p k show ?thesis by (cases op) auto
qed (use q in auto)

lemma wait_spin_flag:
  assumes cv: "cvinv E w" and pc: "call_pc (ccalls w t) = Some p" and st: "wait_step E g t op p w = (c, w')"
    and f: "f \<in> set (spin_list w')"
  shows "(\<exists>q. c = Next q \<and> waits_on t q = Some (HFlag f)) \<or> f \<in> set (spin_list w) \<and> waits_on t p \<noteq> Some (HFlag f)"
proof -
  have pl: "distinct (spin_list w)" "wake_flags w f \<Longrightarrow> f \<notin> set (spin_list w)" and ci: "cinv E w"
    using cv by (auto simp: cvinv_def places_def flag_places_def)
  show ?thesis
  proof (cases "loud p")
    case False
    have "in_phase (pc_phase p) (agents w t)" using call_pc_ok [OF ci pc] by blast
    from wait_step_quiet [OF st this False] have "quiet w w'" by (simp add: quiet_step_def)
    with f have f: "f \<in> set (spin_list w)" by (simp add: quietD)
    with quiet_spin_flag [OF st False] pl(2) show ?thesis by blast
  next
    case True
    have E: "cont_ok E" using ci by (simp add: cinv_def minv_def)
    from wait_step_loud [OF st True E] consider "c = Next p" "w' = w" | "loud_effect E t p c w w'" by blast
    then show ?thesis
    proof cases
      case 2
      show ?thesis
      proof (cases p)
        case SPush
        with 2 spin_flag_fresh [of w "next_flag w" w'] f show ?thesis by (auto simp: loud_effect_def)
      next
        case (SRemove h)
        with 2 f pl(1) show ?thesis by (auto simp: loud_effect_def)
      qed (use 2 f True in \<open>auto simp: loud_effect_def\<close>)
    qed (use f in auto)
  qed
qed

lemma wait_spin_new:
  assumes cv: "cvinv E w" and pc: "call_pc (ccalls w t) = Some p" and st: "wait_step E g t op p w = (c, w')"
    and f: "spin_list w' \<noteq> []" shows "spin_list w \<noteq> [] \<or> p = SPush"
proof (cases "loud p")
  case False
  have "cinv E w" using cv by (simp add: cvinv_def)
  then have "in_phase (pc_phase p) (agents w t)" using call_pc_ok [OF _ pc] by blast
  from wait_step_quiet [OF st this False] have "quiet w w'" by (simp add: quiet_step_def)
  with f show ?thesis by (simp add: quietD)
next
  case True
  have "cont_ok E" using cv by (simp add: cvinv_def cinv_def minv_def)
  from wait_step_loud [OF st True this] f True show ?thesis
    by (cases p) (auto simp: loud_effect_def)
qed

text \<open>Which steps leave the condition variable alone.\<close>

lemma lock_progress_more: "mworld.more (lock_progress E t w) = mworld.more w"
  by (auto simp: lock_progress_def lock_more split: mpc.splits)

lemma cv_more: "mworld.more w' = mworld.more w \<Longrightarrow> cv w' = cv w \<and> ccalls w' = ccalls w"
  for w w' :: "('k, 'a, 'z) cworld_scheme"
  by (drule cv_same_more, drule cv_sameD) simp

lemma lock_call_cv: "cv (lock_call t lm w) = cv w" "ccalls (lock_call t lm w) = ccalls w"
  for w :: "('k, 'a, 'z) cworld_scheme"
  by (simp_all add: lock_call_def set_agent_def)

lemma drop_guard_cv:
  fixes w w' :: "('k, 'a, 'z) cworld_scheme"
  shows "drop_guard E t stay next w = (c, w') \<Longrightarrow> cv w' = cv w \<and> ccalls w' = ccalls w"
  by (rule cv_more) (auto simp: drop_guard_def Let_def release_more)

lemmas lock_progress_cv = cv_more [OF lock_progress_more]

lemma pop_queue_cv: "pop_queue w = (x, w') \<Longrightarrow> cv w' = cv w \<and> ccalls w' = ccalls w"
  by (auto simp: pop_queue_def split: prod.splits)

lemma send_cv: "send_body_step E t lm m p w = (c, w') \<Longrightarrow> p \<noteq> SdNotifying \<Longrightarrow> cv w' = cv w"
  by (cases p) (auto simp: lock_call_cv lock_progress_cv push_back_def Let_def dest: drop_guard_cv)

lemma recv_cv:
  assumes "recv_step E g t rm p w = (c, w')" "p \<noteq> RvWaiting" shows "cv w' = cv w \<and> ccalls w' = ccalls w"
proof (cases p)
  case RvPop
  with assms show ?thesis
    by (auto simp: recv_step_body split: if_splits prod.splits dest: pop_queue_cv)
qed (use assms in \<open>auto simp: recv_step_body lock_call_cv lock_progress_cv Let_def split: if_splits dest: drop_guard_cv\<close>)

lemma try_cv:
  assumes "try_recv_step E t p w = (c, w')" shows "cv w' = cv w \<and> ccalls w' = ccalls w"
proof (cases p)
  case TrPop
  with assms show ?thesis by (auto split: prod.splits dest: pop_queue_cv)
qed (use assms in \<open>auto simp: lock_call_cv lock_progress_cv Let_def dest: drop_guard_cv\<close>)

lemma end_cv [simp]:
  "cv (end_tx t d w) = cv w" "cv (end_rx t d w) = cv w" "cv (set_pcall t d w) = cv w"
  "ccalls (end_tx t d w) = ccalls w" "ccalls (end_rx t d w) = ccalls w" "ccalls (set_pcall t d w) = ccalls w"
  "mtx (set_pcall t d w) = mtx w" "pcalls (set_pcall t d w) = (pcalls w)(t := d)"
  by (simp_all add: end_tx_def end_rx_def set_pcall_def)

lemma calmD:
  assumes "calm E g t w w' d"
  shows "inner (mtx w') = inner (mtx w)" "pcalls w' = pcalls w" "u \<noteq> t \<Longrightarrow> ccalls w' u = ccalls w u"
  using assms calm_fields(8) [OF assms] by (simp_all add: calm_def outcome_def)

subsection \<open>Every step\<close>

lemma not_sending [simp]:
  "\<nexists>sm m p. pcalls w t = Sending sm m p \<Longrightarrow> \<not> about_to_wake w t"
  by (auto simp: about_to_wake_def)

lemma not_before [simp]:
  "\<nexists>rm. pcalls w t = Receiving rm RvWaiting \<Longrightarrow> \<not> before_push w t"
  by (auto simp: before_push_def)

lemma winv_same:
  assumes inv: "winv E g w" and p: "pinv E g w' \<and> (cstep E g)\<^sup>*\<^sup>* w w'"
    and same: "cv w' = cv w" "pcalls w' = pcalls w" "ccalls w' = ccalls w" "inner (mtx w') = inner (mtx w)"
  shows "winv E g w'"
proof -
  have "spin_list w' = spin_list w" "expects w' = expects w" "about_to_wake w' = about_to_wake w" "before_push w' = before_push w"
    using same by (simp_all add: cv_lists expects_def about_to_wake_def before_push_def fun_eq_iff)
  with inv p same cvinv_csteps [of E g w w'] show ?thesis by (simp add: winv_def)
qed

lemma winv_send:
  assumes inv: "winv E g w" and pc: "pcalls w t = Sending sm m p"
    and p: "pinv E g (run_send E g t sm m p w) \<and> (cstep E g)\<^sup>*\<^sup>* w (run_send E g t sm m p w)"
  shows "winv E g (run_send E g t sm m p w)"
proof -
  note wD = winvD [OF inv]
  note iD = pinvD [OF wD(1), of t]
  obtain c w' where st: "send_step E g t sm m p w = (c, w')" by force
  then obtain lm where sb: "send_body_step E t lm m p w = (c, w')" by (auto simp: send_step_body)
  have w'': "run_send E g t sm m p w = end_tx t (after_send sm m c) w'" by (simp add: run_send_def st)
  have nx: "\<not> expects w t h" for h using not_expects [OF wD(1)] pc by auto
  have nb: "\<not> before_push (end_tx t (after_send sm m c) w') t" by (cases c) auto
  show ?thesis
  proof (cases "p = SdPush")
    case True
    with sb have cw: "c = Next SdDrop" "w' = push_back m w" by simp_all
    have a: "agents w t = Holding" using iD pc True by simp
    show ?thesis unfolding w''
    proof (rule winv_quiet [OF inv p [unfolded w'']])
      show "about_to_wake (end_tx t (after_send sm m c) w') t \<or> inner (mtx w) \<noteq> [] \<and> \<not> about_to_wake w t"
        using cw by (simp add: about_to_wake_def)
    qed (use cw a nx nb in \<open>auto simp: push_back_def\<close>)
  next
    case False
    have ca: "calm E g t w w' (after_send sm m c)"
      using send_body_calm [of E w p t] iD pc sb False by simp
    note cD = calmD [OF ca]
    show ?thesis
    proof (cases "p = SdNotifying")
      case True
      then obtain q where q: "ccalls w t = Notifying q" using iD pc by auto
      obtain d v where v: "notify_step E q w = (d, v)" by force
      have w': "w' = set_call t (after_notify d) v"
        using sb True q v by (auto simp: notify_progress_def run_notify_def Let_def)
      have sub: "set (spin_list w') \<subseteq> set (spin_list w)" using notify_spin [OF v] w' by simp
      have popped: "spin_list w' = []" if "q = OneSpin"
      proof -
        obtain x u where u: "on_spin vec_pop w = (x, u)" by force
        from on_list_lists(3) [OF u] have "vec_pop (spin_list w) = (x, spin_list u)" by simp
        then have "spin_list u = []" using one_flag [OF inv] by (auto simp: vec_pop_def)
        with v u that w' show ?thesis by (auto simp: notify_step_def split: option.splits)
      qed
      have sl: "spin_list (end_tx t (after_send sm m c) w') = spin_list w'" by (simp add: cv_lists)
      show ?thesis unfolding w''
      proof (rule winv_agent [OF inv p [unfolded w'']])
        show "about_to_wake (end_tx t (after_send sm m c) w') t \<or>
            inner (mtx w) \<noteq> [] \<and> spin_list w \<noteq> [] \<and> \<not> about_to_wake w t"
          if "inner (mtx (end_tx t (after_send sm m c) w')) \<noteq> []" "spin_list (end_tx t (after_send sm m c) w') \<noteq> []"
          using that cD(1) sl sub popped pc q True by (auto simp: about_to_wake_def)
      qed (use cD nx nb sub sl in auto)
    next
      case np: False
      have ab: "about_to_wake w t \<longrightarrow> about_to_wake (end_tx t (after_send sm m c) w') t"
        using pc sb np cD by (cases p) (auto simp: about_to_wake_def drop_guard_def Let_def split: if_splits)
      show ?thesis unfolding w''
        by (rule winv_quiet [OF inv p [unfolded w'']]) (use cD nx nb send_cv [OF sb np] ab in auto)
    qed
  qed
qed

text \<open>A step of the receiver inside its wait.\<close>

lemma winv_waiting:
  assumes inv: "winv E g w" and pc: "pcalls w t = Receiving rm RvWaiting"
    and p: "pinv E g (run_recv E g t rm RvWaiting w) \<and> (cstep E g)\<^sup>*\<^sup>* w (run_recv E g t rm RvWaiting w)"
  shows "winv E g (run_recv E g t rm RvWaiting w)"
proof -
  note wD = winvD [OF inv]
  note iD = pinvD [OF wD(1), of t]
  obtain c w' where st: "recv_step E g t rm RvWaiting w = (c, w')" by force
  have w'': "run_recv E g t rm RvWaiting w = end_rx t (after_recv rm c) w'" (is "_ = ?v") by (simp add: run_recv_def st)
  have sl: "spin_list ?v = spin_list w'" by (simp add: cv_lists)
  have ca: "calm E g t w w' (after_recv rm c)"
    using recv_step_calm [OF wD(1) pc st] by simp
  note cD = calmD [OF ca]
  have na: "\<not> about_to_wake w t" using pc by simp
  have ci: "cinv E w" using iD by simp
  from iD pc consider (new) "agents w t = Holding" "ccalls w t = NoCall"
    | (old) op q where "ccalls w t = Waiting op q" by auto
  then show ?thesis
  proof cases
    case new
    then have b: "before_push w t" using pc by (simp add: before_push_def)
    have "cv w' = cv w" using st new
      by (auto simp: recv_step_body wait_progress_def Let_def split: if_splits)
    moreover have "\<not> expects w t h" for h using new by (simp add: expects_def)
    ultimately show ?thesis unfolding w''
      by (intro winv_quiet [OF inv p [unfolded w'']]) (use cD wD(5) [OF b] in auto)
  next
    case old
    obtain d v where v: "wait_step E g t op q w = (d, v)" by force
    have w1: "wait_progress E g t (recv_wait g rm) w = set_call t (after_wait op d) v"
      using old v by (simp add: wait_progress_def run_wait_def)
    have pcq: "call_pc (ccalls w t) = Some q" using old by simp
    have slv: "spin_list w' = spin_list v"
      using st by (cases d) (auto simp: recv_step_body Let_def w1 split: if_splits)
    have go: "c = Next RvWaiting \<and> ccalls w' t = Waiting op q'" if "d = Next q'" for q'
      using st that by (auto simp: recv_step_body Let_def w1 split: if_splits)
    have stop: "\<nexists>rm. after_recv rm' c = Receiving rm RvWaiting" if "\<nexists>q'. d = Next q'" for rm'
      using st that by (cases d) (auto simp: recv_step_body Let_def w1 split: if_splits option.splits)
    show ?thesis unfolding w''
    proof (rule winv_agent [OF inv p [unfolded w'']])
      fix f assume "f \<in> set (spin_list ?v)"
      then have "f \<in> set (spin_list v)" using sl slv by simp
      from wait_spin_flag [OF wD(2) pcq v this]
      show "expects ?v t (HFlag f) \<or> f \<in> set (spin_list w) \<and> \<not> expects w t (HFlag f)"
        using go old by (auto simp: expects_def)
    next
      assume q: "inner (mtx ?v) \<noteq> []" and l: "spin_list ?v \<noteq> []"
      have "q \<noteq> SPush" using wD(5) [of t] q cD(1) old pc by (auto simp: before_push_def)
      with wait_spin_new [OF wD(2) pcq v] l sl slv have "spin_list w \<noteq> []" by simp
      with q cD(1) na show "about_to_wake ?v t \<or> inner (mtx w) \<noteq> [] \<and> spin_list w \<noteq> [] \<and> \<not> about_to_wake w t"
        by simp
    next
      assume b: "before_push ?v t"
      then obtain q' where q': "d = Next q'" using stop [of rm] by (auto simp: before_push_def)
      with b go have "q' = SPush" by (auto simp: before_push_def)
      with v q' wait_not_back have "q = SPush" by blast
      then show "inner (mtx ?v) = []" using wD(5) [of t] cD(1) old pc by (auto simp: before_push_def)
    qed (use cD in auto)
  qed
qed

lemma pop_queue_tl: "pop_queue w = (x, w') \<Longrightarrow> inner (mtx w') = tl (inner (mtx w)) \<and> pcalls w' = pcalls w"
  by (auto simp: pop_queue_eq guard_deref_mut_def split: list.splits)

text \<open>Any other step of the receiver.\<close>

lemma winv_rx:
  assumes inv: "winv E g w" and p: "pinv E g (end_rx t d w') \<and> (cstep E g)\<^sup>*\<^sup>* w (end_rx t d w')"
    and pc: "uses_rx (pcalls w t)" "\<nexists>rm. pcalls w t = Receiving rm RvWaiting"
    and cv: "cv w' = cv w \<and> ccalls w' = ccalls w"
    and st: "calm E g t w w' d \<or> agents w t = Holding \<and> (\<exists>x. pop_queue w = (x, w'))"
    and own: "(\<exists>rm. d = Receiving rm RvWaiting) \<longrightarrow> inner (mtx w) = []"
  shows "winv E g (end_rx t d w')"
proof -
  have q: "inner (mtx w') = inner (mtx w) \<or> agents w t = Holding"
    and tl: "inner (mtx w') = [] \<or> inner (mtx w) \<noteq> []" and pcs: "pcalls w' = pcalls w"
    using st by (auto dest: calmD pop_queue_tl)
  have e: "inner (mtx w) = [] \<Longrightarrow> inner (mtx w') = []" using tl by blast
  have na: "\<not> about_to_wake w t" using pc by (cases "pcalls w t") auto
  show ?thesis
    by (rule winv_quiet [OF inv p])
      (use q tl pcs cv na not_expects [OF winvD(1) [OF inv] pc(2)] own e in \<open>auto simp: before_push_def\<close>)
qed

lemma winv_recv:
  assumes inv: "winv E g w" and pc: "pcalls w t = Receiving rm p"
    and p: "pinv E g (run_recv E g t rm p w) \<and> (cstep E g)\<^sup>*\<^sup>* w (run_recv E g t rm p w)"
  shows "winv E g (run_recv E g t rm p w)"
proof (cases "p = RvWaiting")
  case False
  note wD = winvD [OF inv]
  note iD = pinvD [OF wD(1), of t]
  obtain c w' where st: "recv_step E g t rm p w = (c, w')" by force
  have w'': "run_recv E g t rm p w = end_rx t (after_recv rm c) w'" by (simp add: run_recv_def st)
  show ?thesis unfolding w''
  proof (rule winv_rx [OF inv p [unfolded w'']])
    show "cv w' = cv w \<and> ccalls w' = ccalls w" by (rule recv_cv [OF st False])
    show "calm E g t w w' (after_recv rm c) \<or> agents w t = Holding \<and> (\<exists>x. pop_queue w = (x, w'))"
    proof (cases "p = RvPop")
      case True
      then show ?thesis using st iD pc by (auto simp: recv_step_body split: if_splits prod.splits)
    qed (use recv_step_calm [OF wD(1) pc st] in simp)
    show "(\<exists>r. after_recv rm c = Receiving r RvWaiting) \<longrightarrow> inner (mtx w) = []"
    proof (cases p)
      case RvCount
      with iD pc show ?thesis by simp
    qed (use st False in \<open>auto simp: recv_step_body drop_guard_def Let_def
        split: if_splits prod.splits mpc.splits option.splits\<close>)
  qed (use pc False in simp_all)
qed (use winv_waiting inv pc p in blast)

lemma winv_try:
  assumes inv: "winv E g w" and pc: "pcalls w t = Trying p"
    and p: "pinv E g (run_try E t p w) \<and> (cstep E g)\<^sup>*\<^sup>* w (run_try E t p w)"
  shows "winv E g (run_try E t p w)"
proof -
  note wD = winvD [OF inv]
  note iD = pinvD [OF wD(1), of t]
  obtain c w' where st: "try_recv_step E t p w = (c, w')" by force
  have w'': "run_try E t p w = end_rx t (after_try c) w'" by (simp add: run_try_def st)
  show ?thesis unfolding w''
  proof (rule winv_rx [OF inv p [unfolded w'']])
    show "cv w' = cv w \<and> ccalls w' = ccalls w" by (rule try_cv [OF st])
    show "calm E g t w w' (after_try c) \<or> agents w t = Holding \<and> (\<exists>x. pop_queue w = (x, w'))"
    proof (cases "p = TrPop")
      case True
      then show ?thesis using st iD pc by (auto split: prod.splits)
    qed (use try_step_calm [OF wD(1) pc st] in simp)
    show "(\<exists>r. after_try c = Receiving r RvWaiting) \<longrightarrow> inner (mtx w) = []" by (cases c) simp_all
  qed (use pc in simp_all)
qed

text \<open>A step of the drop of a half.\<close>

lemma winv_half:
  assumes inv: "winv E g w" and pc: "pcalls w t = f p" and f: "f = DroppingTx \<or> f = DroppingRx"
    and st: "sender_drop_step E g t p w = (c, w') \<or> receiver_drop_step E t p w = (c, w')"
    and p: "pinv E g (set_pcall t (after_half f c) w') \<and> (cstep E g)\<^sup>*\<^sup>* w (set_pcall t (after_half f c) w')"
  shows "winv E g (set_pcall t (after_half f c) w')" (is "winv E g ?v")
proof -
  note wD = winvD [OF inv]
  have sh: "half_shape p (agents w t) (ccalls w t)" and ci: "cinv E w" using pinvD [OF wD(1), of t] pc f by auto
  have ca: "calm E g t w w' (after_half f c)" using half_calm [OF ci sh st f] by simp
  note cD = calmD [OF ca]
  have na: "\<not> about_to_wake w t" "\<not> before_push ?v t" and nx: "\<And>h. \<not> expects w t h"
    using f pc not_expects [OF wD(1)] by (auto simp: before_push_def) (cases c; auto)+
  have sub: "set (spin_list ?v) \<subseteq> set (spin_list w)"
  proof (cases p)
    case DhNotify
    then have "cv w' = cv w" using st by auto
    then show ?thesis by (simp add: cv_lists)
  next
    case DhNotifying
    then obtain q where q: "ccalls w t = Notifying q" using sh by auto
    obtain d v where v: "notify_step E q w = (d, v)" by force
    have "w' = set_call t (after_notify d) v"
      using st DhNotifying q v by (auto simp: notify_progress_def run_notify_def Let_def)
    then have "spin_list ?v = spin_list v" by (simp add: cv_lists)
    with notify_spin [OF v] show ?thesis by simp
  qed (use sh in simp)
  show ?thesis by (rule winv_agent [OF inv p]) (use cD na nx sub in auto)
qed

text \<open>The beginnings of a call, and the first steps of the drops.\<close>

lemma winv_fields:
  assumes inv: "winv E g w" and p: "pinv E g w' \<and> (cstep E g)\<^sup>*\<^sup>* w w'"
    and same: "cv w' = cv w" "ccalls w' = ccalls w" "inner (mtx w') = inner (mtx w)" "pcalls w' = (pcalls w)(t := d)"
    and r: "resting (pcalls w t)" and d: "\<nexists>rm. d = Receiving rm RvWaiting"
  shows "winv E g w'"
proof -
  have n: "\<not> about_to_wake w t" "\<not> expects w t h" for h
    using r not_expects [OF winvD(1) [OF inv], of t] by (cases "pcalls w t"; auto)+
  have "\<not> before_push w' t" using same d by (simp add: before_push_def)
  then show ?thesis by (intro winv_quiet [OF inv p]) (use same n in auto)
qed

text \<open>A future that is dropped does not wait for a flag.\<close>

lemma awaits_no_flag: "call_awaits (ccalls w t) (agents w t) \<Longrightarrow> \<not> expects w t (HFlag f)"
  by (cases "(ccalls w t, agents w t)" rule: call_awaits.cases)
    (auto simp: expects_def elim!: wait_awaits.elims)

lemma winv_abandon:
  assumes inv: "winv E g w" and a: "pcall_awaits (pcalls w t) (agents w t) (ccalls w t)"
    and p: "pinv E g (abandon_pcall t w) \<and> (cstep E g)\<^sup>*\<^sup>* w (abandon_pcall t w)"
  shows "winv E g (abandon_pcall t w)"
proof -
  let ?v = "abandon_pcall t w"
  have same: "cv ?v = cv w" "ccalls ?v = (ccalls w)(t := NoCall)" "pcalls ?v = (pcalls w)(t := PIdle)"
      "mtx ?v = mtx w"
    by (simp_all add: abandon_pcall_def abandon_call_def end_tx_def end_rx_def set_pcall_def set_call_def set_agent_def)
  have "\<not> expects w t (HFlag f)" for f
  proof (cases "call_awaits (ccalls w t) (agents w t)")
    case False
    then have "\<nexists>rm. pcalls w t = Receiving rm RvWaiting"
      using a by (cases "pcalls w t") auto
    with winvD(1) [OF inv] show ?thesis by (rule not_expects)
  qed (rule awaits_no_flag)
  moreover have "\<not> about_to_wake w t"
    using a by (auto simp: about_to_wake_def)
  ultimately show ?thesis
    by (intro winv_agent [OF inv p]) (use same in \<open>auto simp: cv_lists before_push_def\<close>)
qed

lemma winv_step: "pstep E g w w' \<Longrightarrow> winv E g w \<Longrightarrow> winv E g w'"
proof -
  assume step: "pstep E g w w'" and inv: "winv E g w"
  then have p: "pinv E g w' \<and> (cstep E g)\<^sup>*\<^sup>* w w'" using pstep_sim winvD(1) by blast
  from step inv p show ?thesis
  proof (induction rule: pstep.induct)
    case (env w w')
    then have m: "mworld.more w' = mworld.more w" and i: "mtx w' = mtx w" by (simp_all add: env_frame_def)
    show ?case by (rule winv_same [OF env.prems]) (simp_all add: cv_more [OF m] pworld_same(8) [OF more_more [OF m]] i)
  next
    case (begin_send w t sm m)
    then show ?case by - (rule winv_fields [of E g w _ t "Sending sm m SdCheck"], simp_all add: set_pcall_def)
  next
    case (send w t sm m p)
    show ?case by (rule winv_send [OF send.prems(1) send.hyps send.prems(2)])
  next
    case (begin_recv w t rm)
    then show ?case by - (rule winv_fields [of E g w _ t "Receiving rm RvStart"], simp_all add: set_pcall_def)
  next
    case (recv w t rm p)
    show ?case by (rule winv_recv [OF recv.prems(1) recv.hyps recv.prems(2)])
  next
    case (begin_try w t)
    then show ?case by - (rule winv_fields [of E g w _ t "Trying TrStart"], simp_all add: set_pcall_def)
  next
    case (trying w t p)
    show ?case by (rule winv_try [OF trying.prems(1) trying.hyps trying.prems(2)])
  next
    case (abandon w t)
    show ?case by (rule winv_abandon [OF abandon.prems(1) abandon.hyps abandon.prems(2)])
  next
    case (clone w)
    then show ?case by - (rule winv_same [of E g w], simp_all add: sender_clone_def)
  next
    case (drop_tx w t)
    then show ?case
      by - (rule winv_fields [of E g w _ t "if sender_count w = 1 then DroppingTx DhNotify else PIdle"],
        simp_all add: run_drop_tx_def set_pcall_def)
  next
    case (dropping_tx w t p)
    obtain c w' where "sender_drop_step E g t p w = (c, w')" by force
    with winv_half [of E g w t DroppingTx p c w'] dropping_tx show ?case by (simp add: run_drop_tx_def)
  next
    case (drop_rx w t)
    then show ?case
      by - (rule winv_fields [of E g w _ t "DroppingRx DhNotify"], simp_all add: run_drop_rx_def set_pcall_def)
  next
    case (dropping_rx w t p)
    obtain c w' where "receiver_drop_step E t p w = (c, w')" by force
    with winv_half [of E g w t DroppingRx p c w'] dropping_rx show ?case by (simp add: run_drop_rx_def)
  qed
qed

lemma winv_init: "pinit E w \<Longrightarrow> winv E g w"
proof -
  assume i: "pinit E w"
  then have c: "cinit E [] w" by (simp add: pinit_def)
  have "spin_list w = []" using c by (simp add: cinit_def condvar_new_def spin_new_def cv_lists)
  moreover have "\<not> before_push w t" for t using pinit_fields(9) [OF i] by (simp add: before_push_def)
  ultimately show ?thesis using pinv_init [OF i] cvinv_init [OF c] pinit_fields(1) [OF i] by (simp add: winv_def)
qed

interpretation channel_wake: machine_invariant "pinit E" "pstep E g" "winv E g" for E g
  by unfold_locales (auto intro: winv_init winv_step)

end
