(* ===== verification/MpscProps.thy ===== *)
theory MpscProps
  imports MpscWake
begin

text \<open>
  The properties of the channel, over every reachable state of \<^verbatim>\<open>MpscMachine\<close> and for
  single calls, and an executable scheduler for the concrete runs.
\<close>

section \<open>Concrete runs\<close>

datatype 'm pevent =
    PTick nat | PFire | PSend tid send_method 'm | PRecv tid recv_method | PTry tid | PClone
  | PDropTx tid | PDropRx tid | PStep tid | PAbandon tid

fun pexec :: "'k env \<Rightarrow> target \<Rightarrow> 'm pevent \<Rightarrow> ('k, 'm, 'z) pworld_scheme \<Rightarrow> ('k, 'm, 'z) pworld_scheme" where
  "pexec E g (PTick n) w = w\<lparr>now := now w + n\<rparr>"
| "pexec E g PFire w =
     (case timers w of x # xs \<Rightarrow> if fst x \<le> now w then fire_timer E x w else w | [] \<Rightarrow> w)"
| "pexec E g (PSend t sm m) w =
     (if resting (pcalls w t) \<and> 0 < handles w
      then (set_pcall t (Sending sm m SdCheck) w)\<lparr>tx_users := insert t (tx_users w)\<rparr> else w)"
| "pexec E g (PRecv t rm) w =
     (if resting (pcalls w t) \<and> rx_state w = RxFree
      then (set_pcall t (Receiving rm RvStart) w)\<lparr>rx_state := RxUsed t\<rparr> else w)"
| "pexec E g (PTry t) w =
     (if resting (pcalls w t) \<and> rx_state w = RxFree
      then (set_pcall t (Trying TrStart) w)\<lparr>rx_state := RxUsed t\<rparr> else w)"
| "pexec E g PClone w =
     (if 0 < handles w \<and> handles w < 2 ^ (usize_bits g - 1) then sender_clone g w else w)"
| "pexec E g (PDropTx t) w =
     (if resting (pcalls w t) \<and> 0 < handles w \<and> (tx_users w = {} \<or> 1 < handles w)
      then run_drop_tx E g t DhFirst w else w)"
| "pexec E g (PDropRx t) w =
     (if resting (pcalls w t) \<and> rx_state w = RxFree
      then run_drop_rx E t DhFirst (w\<lparr>rx_state := RxGone\<rparr>) else w)"
| "pexec E g (PAbandon t) w =
     (if pcall_awaits (pcalls w t) (agents w t) (ccalls w t) then abandon_pcall t w else w)"
| "pexec E g (PStep t) w =
     (case pcalls w t of
        Sending sm m p \<Rightarrow> run_send E g t sm m p w
      | Receiving rm p \<Rightarrow> run_recv E g t rm p w
      | Trying p \<Rightarrow> run_try E t p w
      | DroppingTx p \<Rightarrow> run_drop_tx E g t p w
      | DroppingRx p \<Rightarrow> run_drop_rx E t p w
      | _ \<Rightarrow> w)"

lemma pexec_sound: "pexec E g e w = w \<or> pstep E g w (pexec E g e w)"
proof (cases e)
  case (PTick n)
  have "pstep E g w (w\<lparr>now := now w + n\<rparr>)" by (rule pstep.env [OF mstep.tick]) (simp add: env_frame_def)
  with PTick show ?thesis by simp
next
  case PFire
  have "env_frame w (fire_timer E x w)" for x by (simp add: env_frame_def fire_timer_def send_to_def)
  with PFire mstep.fire [of _ w E] show ?thesis by (auto split: list.splits intro: pstep.env)
next
  case (PStep t)
  then show ?thesis by (cases "pcalls w t") (auto intro: pstep.intros)
qed (auto intro: pstep.intros)

definition prun :: "'k env \<Rightarrow> target \<Rightarrow> 'm pevent list \<Rightarrow> ('k, 'm, 'z) pworld_scheme \<Rightarrow> ('k, 'm, 'z) pworld_scheme" where
  "prun E g es w = fold (pexec E g) es w"

lemma prun_simps [simp]: "prun E g [] w = w" "prun E g (e # es) w = prun E g es (pexec E g e w)"
  by (simp_all add: prun_def)

lemma prun_steps: "(pstep E g)\<^sup>*\<^sup>* w (prun E g es w)"
proof (induction es arbitrary: w)
  case (Cons e es)
  have "(pstep E g)\<^sup>*\<^sup>* w (pexec E g e w)" using pexec_sound [of E g e w] by auto
  with Cons [of "pexec E g e w"] show ?case by simp
qed simp

definition pworld0 :: "(nat \<times> nat list, 'm) pworld" where
  "pworld0 = channel \<lparr>now = 0, token = (\<lambda>_. False), conts = (0, []), timers = [],
     mtx = mutex_new [], agents = (\<lambda>_. Idle), cv = condvar_new, wake_flags = (\<lambda>_. False),
     next_flag = 0, waiter_ids = 0, ccalls = (\<lambda>_. NoCall), sender_count = 1, receiver_active = True,
     handles = 1, tx_users = {}, rx_state = RxFree, pcalls = (\<lambda>_. PIdle), sent = [], received = []\<rparr>"

lemma pworld0_init: "pinit (demo_env p) pworld0"
  by (simp add: pinit_def cinit_def minit_def pworld0_def channel_def demo_env_ok)

lemma pworld0_reach:
  "reach (pinit (demo_env p)) (pstep (demo_env p) g) (prun (demo_env p) g es pworld0)"
  by (rule reach_rtranclp [OF reach_init prun_steps]) (rule pworld0_init)

text \<open>The counter of one or two senders.\<close>

lemma usize_small:
  "usize_dec g (Suc 0) = 0" "usize_dec g (Suc (Suc 0)) = Suc 0" "usize_inc g (Suc 0) = Suc (Suc 0)"
  "Suc 0 < 2 ^ (usize_bits g - Suc 0)"
proof -
  have b: "2 \<le> usize_bits g - 1" by (simp add: usize_bits_def split: target.split)
  then have "(2 :: nat) ^ 2 \<le> 2 ^ (usize_bits g - 1)" by (rule power_increasing) simp
  then have h: "4 \<le> (2 :: nat) ^ (usize_bits g - 1)" by simp
  then have f: "4 < (2 :: nat) ^ usize_bits g" using usize_half [of g] by (rule le_less_trans)
  show "Suc 0 < 2 ^ (usize_bits g - Suc 0)" using h by simp
  show "usize_dec g (Suc 0) = 0" "usize_dec g (Suc (Suc 0)) = Suc 0" using f by (subst usize_dec_eq; simp)+
  show "usize_inc g (Suc 0) = Suc (Suc 0)" using h usize_inc_eq [of "Suc 0" g] by simp
qed

lemmas prun_defs = crun_defs pworld0_def channel_def set_pcall_def end_tx_def end_rx_def run_send_def run_recv_def
  run_try_def run_drop_tx_def run_drop_rx_def send_step_body recv_step_body lock_call_def lock_progress_def
  wait_progress_def notify_progress_def push_back_def pop_queue_def pop_front_def sender_clone_def
  wait_sync_def usize_small abandon_pcall_def abandon_call_def

section \<open>The two histories\<close>

text \<open>C35: first in, first out, nothing lost, nothing invented. However many agents send and
  receive by whatever methods, what has been received followed by what is in the queue is what
  has been sent, in order; a send that returned \<^verbatim>\<open>Ok\<close> has put its message there, one that returned an
  error hands its own message back and the receiver is gone, and what a receive returned was
  taken from there. A receive that is dropped while it waits takes nothing with it.\<close>

theorem channel_fifo:
  assumes r: "reach (pinit E) (pstep E g) w"
  shows "sent w = received w @ inner (mtx w) \<and>
    (\<forall>t sm m u. pcalls w t = Sent sm m (Inr u) \<longrightarrow> m \<in> set (sent w)) \<and>
    (\<forall>t sm m m'. pcalls w t = Sent sm m (Inl (SendError m')) \<longrightarrow> m' = m \<and> rx_state w = RxGone) \<and>
    (\<forall>t rm m. pcalls w t = Received rm (Inr m) \<or> pcalls w t = Tried (Inr m) \<longrightarrow> m \<in> set (received w))"
proof -
  from channel_inv.reach_inv [OF r] have gl: "pglobal g w" and f: "\<And>t. pfact w (pcalls w t)" by (auto simp: pinv_def)
  then have "sent w = received w @ inner (mtx w)" by (simp add: pglobal_def)
  moreover have "m' = m \<and> rx_state w = RxGone" if "pcalls w t = Sent sm m (Inl (SendError m'))" for t sm m m'
    using f [of t] gl that by (simp add: pglobal_def)
  moreover have "m \<in> set (sent w)" if "pcalls w t = Sent sm m (Inr u)" for t sm m u using f [of t] that by simp
  moreover have "m \<in> set (received w)" if "pcalls w t = Received rm (Inr m) \<or> pcalls w t = Tried (Inr m)" for t rm m
    using f [of t] that by auto
  ultimately show ?thesis by blast
qed

text \<open>Two producers and a consumer, after a receive whose future was dropped while it waited.\<close>

theorem channel_fifo_witness:
  "\<exists>w :: (nat \<times> nat list, nat) pworld. reach (pinit (demo_env True)) (pstep (demo_env True) Native) w \<and>
     pcalls w 1 = Sent SendSpin 5 (Inr ()) \<and> pcalls w 2 = Sent SendAsync 6 (Inr ()) \<and>
     pcalls w 3 = Received RecvSync (Inr 5) \<and> received w @ inner (mtx w) = [5, 6]"
proof -
  define es where "es = [PRecv 3 RecvAsync] @ replicate 20 (PStep 3) @ [PAbandon 3] @
    [PSend 1 SendSpin 5, PSend 2 SendAsync 6 :: nat pevent] @ replicate 20 (PStep 1) @
    replicate 22 (PStep 2) @ [PRecv 3 RecvSync] @ replicate 20 (PStep 3)"
  define w where "w = prun (demo_env True) Native es (pworld0 :: (nat \<times> nat list, nat) pworld)"
  note r = pworld0_reach [of True Native es, folded w_def]
  have a: "pcalls w 1 = Sent SendSpin 5 (Inr ())" "pcalls w 2 = Sent SendAsync 6 (Inr ())"
    "pcalls w 3 = Received RecvSync (Inr 5)" "sent w = [5, 6]"
    unfolding w_def es_def by (simp_all add: prun_defs eval_nat_numeral)
  from channel_fifo [OF r] a have "received w @ inner (mtx w) = [5, 6]" by simp
  with a r show ?thesis by blast
qed

section \<open>The ends of the channel\<close>

text \<open>C36: the errors of the receiving methods. \<^verbatim>\<open>Disconnected\<close>, from any method, means
  that no sender is left, that none can come back, and that every message that was ever sent has
  been received; \<^verbatim>\<open>Timeout\<close> comes only from a method with a deadline, and after it.\<close>

theorem recv_errors:
  assumes r: "reach (pinit E) (pstep E g) w"
  shows "(\<forall>t rm e. pcalls w t = Received rm (Inl (FailRecv e)) \<or>
        pcalls w t = Received rm (Inl (FailTimeout TimeoutDisconnected)) \<or>
        pcalls w t = Tried (Inl TryDisconnected) \<longrightarrow> handles w = 0 \<and> received w = sent w \<and> inner (mtx w) = []) \<and>
    (\<forall>t rm. pcalls w t = Received rm (Inl (FailTimeout Timeout)) \<longrightarrow>
        (\<exists>d. recv_deadline rm = Some d \<and> d \<le> now w))"
proof -
  from channel_inv.reach_inv [OF r] have gl: "pglobal g w" and f: "\<And>t. pfact w (pcalls w t)" by (auto simp: pinv_def)
  have "handles w = 0 \<and> received w = sent w \<and> inner (mtx w) = []"
    if "pcalls w t = Received rm (Inl (FailRecv e)) \<or> pcalls w t = Received rm (Inl (FailTimeout TimeoutDisconnected)) \<or>
      pcalls w t = Tried (Inl TryDisconnected)" for t rm e
  proof -
    have "drained w" using f [of t] that by auto
    with gl show ?thesis by (simp add: drained_def pglobal_def)
  qed
  moreover have "\<exists>d. recv_deadline rm = Some d \<and> d \<le> now w"
    if "pcalls w t = Received rm (Inl (FailTimeout Timeout))" for t rm
    using f [of t] that by simp
  ultimately show ?thesis by blast
qed

text \<open>Agent 1 gives up at its deadline; after the last sender is dropped agent 3 sees it.\<close>

theorem recv_errors_witness:
  "\<exists>w :: (nat \<times> nat list, nat) pworld. reach (pinit (demo_env True)) (pstep (demo_env True) Native) w \<and>
     pcalls w 1 = Received (RecvSpinTimeout 0) (Inl (FailTimeout Timeout)) \<and>
     pcalls w 3 = Received RecvSync (Inl (FailRecv RecvDisconnected)) \<and> handles w = 0 \<and> received w = sent w"
proof -
  define es where "es = [PRecv 1 (RecvSpinTimeout 0) :: nat pevent] @ replicate 36 (PStep 1) @ [PDropTx 2] @
    replicate 8 (PStep 2) @ [PRecv 3 RecvSync] @ replicate 20 (PStep 3)"
  define w where "w = prun (demo_env True) Native es (pworld0 :: (nat \<times> nat list, nat) pworld)"
  note r = pworld0_reach [of True Native es, folded w_def]
  have a: "pcalls w 1 = Received (RecvSpinTimeout 0) (Inl (FailTimeout Timeout))"
    "pcalls w 3 = Received RecvSync (Inl (FailRecv RecvDisconnected))"
    unfolding w_def es_def by (simp_all add: prun_defs mem_take_def eval_nat_numeral)
  from recv_errors [OF r] a have "handles w = 0 \<and> received w = sent w" by blast
  with a r show ?thesis by blast
qed

text \<open>C37: the counter of the senders. It is the number of senders there are, it stays below the
  bound of \<^verbatim>\<open>usize\<close> on every target, and the wrapping increment of a clone and the wrapping
  decrement of a drop never wrap.\<close>

theorem sender_count_exact:
  assumes r: "reach (pinit E) (pstep E g) w"
  shows "sender_count w = handles w \<and> handles w < 2 ^ usize_bits g \<and>
    (handles w < 2 ^ (usize_bits g - 1) \<longrightarrow> usize_inc g (sender_count w) = handles w + 1) \<and>
    (0 < handles w \<longrightarrow> usize_dec g (sender_count w) = handles w - 1)"
proof -
  from channel_inv.reach_inv [OF r] have "pglobal g w" by (simp add: pinv_def)
  then show ?thesis using usize_inc_eq [of "handles w" g] usize_dec_eq [of "handles w" g]
    by (simp add: pglobal_def)
qed

theorem sender_count_exact_witness:
  "\<exists>w :: (nat \<times> nat list, nat) pworld.
     reach (pinit (demo_env True)) (pstep (demo_env True) (Wasm32 \<lparr>js_shared_array_buffer = False, js_atomics = True,
       js_wait_is_function = True, js_alloc_throws = False, js_wait_result = None\<rparr>)) w \<and>
     handles w = 2 \<and> sender_count w = 2"
proof -
  let ?g = "Wasm32 \<lparr>js_shared_array_buffer = False, js_atomics = True,
    js_wait_is_function = True, js_alloc_throws = False, js_wait_result = None\<rparr>"
  define es where "es = [PClone, PDropTx 1, PClone :: nat pevent]"
  define w where "w = prun (demo_env True) ?g es (pworld0 :: (nat \<times> nat list, nat) pworld)"
  note r = pworld0_reach [of True ?g es, folded w_def]
  have a: "handles w = 2" unfolding w_def es_def by (simp add: prun_defs)
  from sender_count_exact [OF r] a r show ?thesis by auto
qed

section \<open>A lost wake-up\<close>

text \<open>Agent 1 sleeps in a receive and nothing is left that could wake it.\<close>

definition stranded :: "('k, 'm, 'z) pworld_scheme \<Rightarrow> bool" where
  "stranded w \<longleftrightarrow> pcalls w 1 = Receiving RecvBlock RvWaiting \<and> ccalls w 1 = Waiting WaitBlock BPark \<and>
     \<not> token w 1 \<and> handles w = 0 \<and> rx_state w = RxUsed 1 \<and> (\<forall>t. t \<noteq> 1 \<longrightarrow> resting (pcalls w t))"

lemma stranded_step: "can_park E \<Longrightarrow> stranded w \<Longrightarrow> stranded (pexec E g e w)"
proof (cases e)
  case (PStep t)
  assume E: "can_park E" and s: "stranded w"
  show ?thesis
  proof (cases "t = 1")
    case True
    have "run_recv E g 1 RecvBlock RvWaiting w = end_rx 1 (Receiving RecvBlock RvWaiting)
        (set_call 1 (Waiting WaitBlock BPark) w)"
      using E s by (simp add: run_recv_def recv_step_body wait_progress_def stranded_def run_wait_def park_def Let_def)
    with True PStep s show ?thesis by (simp add: stranded_def end_rx_def set_pcall_def set_call_def)
  next
    case False
    with s have "resting (pcalls w t)" by (simp add: stranded_def)
    with PStep s show ?thesis by (cases "pcalls w t") auto
  qed
next
  case (PAbandon t)
  have "\<not> pcall_awaits (pcalls w t) (agents w t) (ccalls w t)" if "stranded w"
  proof (cases "t = 1")
    case False
    with that have "resting (pcalls w t)" by (simp add: stranded_def)
    then show ?thesis by (cases "pcalls w t") simp_all
  qed (use that in \<open>simp add: stranded_def\<close>)
  with PAbandon show "can_park E \<Longrightarrow> stranded w \<Longrightarrow> ?thesis" by simp
qed (auto simp: stranded_def fire_timer_def send_to_def split: list.splits)

lemma stranded_run: "can_park E \<Longrightarrow> stranded w \<Longrightarrow> stranded (prun E g es w)"
  by (induction es arbitrary: w) (simp_all add: stranded_step)

text \<open>C38: the last sender's drop can be missed. The receiver has found the queue empty and
  \<^verbatim>\<open>sender_count\<close> above zero and has not yet put itself on the wait list; now the last sender
  is dropped, counts down and notifies nobody, without taking the mutex. The receiver then waits,
  although the channel is disconnected, and no step of any agent, of the clock or of a timer ever
  ends its wait; only a stray parking token could.\<close>

theorem last_drop_missed:
  "\<exists>w :: (nat \<times> nat list, nat) pworld. reach (pinit (demo_env True)) (pstep (demo_env True) Native) w \<and>
     sender_count w = 0 \<and> inner (mtx w) = [] \<and>
     (\<forall>es. pcalls (prun (demo_env True) Native es w) 1 = Receiving RecvBlock RvWaiting)"
proof -
  define es where "es = [PRecv 1 RecvBlock :: nat pevent] @ replicate 6 (PStep 1) @ [PDropTx 2] @
    replicate 8 (PStep 2) @ replicate 14 (PStep 1)"
  define w where "w = prun (demo_env True) Native es (pworld0 :: (nat \<times> nat list, nat) pworld)"
  note r = pworld0_reach [of True Native es, folded w_def]
  have a: "sender_count w = 0" "inner (mtx w) = []" "stranded w"
    unfolding w_def es_def stranded_def by (simp_all add: prun_defs mem_take_def eval_nat_numeral)
  have "can_park (demo_env True)" by (simp add: demo_env_def)
  from stranded_run [OF this a(3)] have "pcalls (prun (demo_env True) Native fs w) 1 = Receiving RecvBlock RvWaiting" for fs
    by (simp add: stranded_def)
  with a r show ?thesis by blast
qed

section \<open>One message, there and back\<close>

lemma lock_entries:
  "entry (lock_sync g) = BlockReg RSwap \<or> entry (lock_sync g) = SpinSwap"
  "entry (lock_sync_timeout g d) = BlockTNow d \<or> entry (lock_sync_timeout g d) = SpinTSwap d"
  by (simp_all add: lock_sync_def lock_sync_timeout_def split: strategy.split)

text \<open>A send and a receive on a free mutex, run alone: the definitions that a run unfolds when
  the state is not concrete.\<close>

lemmas alone_defs = lock_call_def lock_progress_def set_agent_def run_lock_def run_drop_def sync_reg_def
  async_reg_def lock_attempt_def compare_exchange_def spin_swap_def spin_store_def lock_swap_def
  drop_guard_def release_step_def push_back_def pop_queue_eq guard_deref_def guard_deref_mut_def
  mutex_new_def spin_new_def mem_take_def Let_def

lemma run_alone_Next:
  "run_alone stp n p s = (Next p', s') \<Longrightarrow> run_alone stp (n + m) p s = run_alone stp m p' s'"
  by (induction n arbitrary: p s) (auto split: prod.splits ctl.splits)

lemma notify_sel:
  "mtx (with_lists fs hs xs w) = mtx w" "agents (with_lists fs hs xs w) = agents w"
  "ccalls (with_lists fs hs xs w) = ccalls w"
  by (simp_all add: with_lists_def)

lemma notify_alone:
  assumes "ccalls w t = Notifying OneSpin"
  shows "\<exists>w'. run_alone (send_body_step E t lm m) 4 SdNotifying w = (Return (Inr ()), w') \<and>
    mtx w' = mtx w \<and> agents w' = agents w \<and> ccalls w' t = NoCall"
  using assms by (simp add: eval_nat_numeral notify_progress_def run_notify_def notify_one_steps
      notify_wake_steps Let_def notify_sel set_flag_def unpark_def send_to_def set_call_def)

lemma send_alone:
  assumes "mtx w = mutex_new q" "receiver_active w" "agents w t = Idle" "ccalls w t = NoCall"
  shows "\<exists>w'. run_alone (send_step E g t sm m) 26 SdCheck w = (Return (Inr ()), w') \<and>
    mtx w' = mutex_new (q @ [m]) \<and> agents w' t = Idle \<and> ccalls w' t = NoCall"
proof -
  define lm where "lm = (case sm of SendSpin \<Rightarrow> LockSpin | SendBlock \<Rightarrow> LockBlock | SendSync \<Rightarrow> lock_sync g | SendAsync \<Rightarrow> LockAsync)"
  have e: "entry lm \<in> {SpinSwap, BlockReg RSwap, AsyncReg RSwap}"
    unfolding lm_def using lock_entries(1) [of g] by (cases sm) auto
  have "\<exists>w' k. run_alone (send_body_step E t lm m) k SdCheck w = (Next SdNotifying, w') \<and> k \<le> 22 \<and>
    mtx w' = mutex_new (q @ [m]) \<and> agents w' t = Idle \<and> ccalls w' t = Notifying OneSpin" (is "\<exists>w' k. ?P w' k")
  proof -
    from e consider "entry lm = SpinSwap" | "entry lm = BlockReg RSwap" | "entry lm = AsyncReg RSwap" by auto
    then show ?thesis
    proof cases
      case 1
      then have "\<exists>w'. ?P w' 16" using assms by (simp add: eval_nat_numeral alone_defs)
      then show ?thesis by blast
    next
      case 2
      then have "\<exists>w'. ?P w' 18" using assms by (simp add: eval_nat_numeral alone_defs)
      then show ?thesis by blast
    next
      case 3
      then have "\<exists>w'. ?P w' 18" using assms by (simp add: eval_nat_numeral alone_defs split: prod.splits)
      then show ?thesis by blast
    qed
  qed
  then obtain w1 k where k: "run_alone (send_body_step E t lm m) k SdCheck w = (Next SdNotifying, w1)" "k \<le> 22"
    and w1: "mtx w1 = mutex_new (q @ [m])" "agents w1 t = Idle" "ccalls w1 t = Notifying OneSpin" by blast
  from notify_alone [OF w1(3)] obtain w2 where
    n: "run_alone (send_body_step E t lm m) 4 SdNotifying w1 = (Return (Inr ()), w2)"
    and w2: "mtx w2 = mtx w1" "agents w2 = agents w1" "ccalls w2 t = NoCall" by blast
  have "run_alone (send_body_step E t lm m) (k + 4) SdCheck w = (Return (Inr ()), w2)"
    using run_alone_Next [OF k(1), of 4] n by simp
  from run_alone_Return_mono [OF this, of "22 - k"] k(2) w1 w2
  show ?thesis unfolding send_step_body lm_def [symmetric] by auto
qed

lemma recv_entries:
  "entry (recv_lock g rm) \<in> {SpinSwap, BlockReg RSwap, AsyncReg RSwap} \<or>
   (\<exists>d. entry (recv_lock g rm) \<in> {SpinTSwap d, BlockTNow d, AsyncTNow d})"
  by (cases rm) (use lock_entries in \<open>auto\<close>)

lemma recv_alone:
  fixes w :: "('k, 'm, 'z) pworld_scheme"
  assumes q: "mtx w = mutex_new (x # q)" and a: "agents w t = Idle"
  shows "\<exists>w'. run_alone (recv_step E g t rm) 20 RvStart w = (Return (Inr x), w') \<and> mtx w' = mutex_new q"
proof -
  define bd :: "'m recv_result recv_pc \<Rightarrow> ('k, 'm, 'z) pworld_scheme \<Rightarrow>
      ('m recv_result recv_pc, 'm recv_result) ctl \<times> ('k, 'm, 'z) pworld_scheme"
    where "bd = (if recv_deadline rm = None then recv_body_step else recv_timeout_body_step)
      E g t (recv_lock g rm) (recv_wait g rm)"
  have b: "bd = recv_body_step E g t (recv_lock g rm) (recv_wait g rm) \<or>
    bd = recv_timeout_body_step E g t (recv_lock g rm) (recv_wait g rm)" by (simp add: bd_def)
  from recv_entries [of g rm] consider "entry (recv_lock g rm) = SpinSwap" | "entry (recv_lock g rm) = BlockReg RSwap"
    | "entry (recv_lock g rm) = AsyncReg RSwap" | d where "entry (recv_lock g rm) = SpinTSwap d"
    | d where "entry (recv_lock g rm) = BlockTNow d" | d where "entry (recv_lock g rm) = AsyncTNow d" by auto
  then have "\<exists>w'. run_alone bd 20 RvStart w = (Return (Inr x), w') \<and>
      mtx w' = mutex_new q"
  proof cases
    case 1
    with b q a show ?thesis by (elim disjE) (simp_all add: eval_nat_numeral alone_defs)
  next
    case 2
    with b q a show ?thesis by (elim disjE) (simp_all add: eval_nat_numeral alone_defs)
  next
    case 3
    with b q a show ?thesis by (elim disjE) (simp_all add: eval_nat_numeral alone_defs split: prod.splits)
  next
    case (4 d)
    with b q a show ?thesis by (elim disjE) (simp_all add: eval_nat_numeral alone_defs)
  next
    case (5 d)
    with b q a show ?thesis
      by (elim disjE; cases "d \<le> now w") (simp_all add: eval_nat_numeral alone_defs try_lock_eq)
  next
    case (6 d)
    with b q a show ?thesis
      by (elim disjE; cases "d \<le> now w") (simp_all add: eval_nat_numeral alone_defs try_lock_eq split: prod.splits)
  qed
  then show ?thesis by (simp add: recv_step_body bd_def)
qed

text \<open>C40: a message comes back as it went. With nobody else in the channel, a send by any
  method returns \<^verbatim>\<open>Ok\<close> within 26 steps with its message at the end of the queue, whoever is on
  the wait lists; a receive by any method, with a deadline that is over or not, then returns the
  oldest message within 20 steps, and the mutex is free again after each. On an empty queue that
  is the message just sent.\<close>

theorem send_recv_roundtrip:
  assumes "mtx w = mutex_new q" "receiver_active w" "agents w t = Idle" "ccalls w t = NoCall"
  shows "\<exists>w1 w2. run_alone (send_step E g t sm m) 26 SdCheck w = (Return (Inr ()), w1) \<and>
    mtx w1 = mutex_new (q @ [m]) \<and>
    run_alone (recv_step E g t rm) 20 RvStart w1 = (Return (Inr (hd (q @ [m]))), w2) \<and>
    mtx w2 = mutex_new (tl (q @ [m]))"
proof -
  obtain w1 where s: "run_alone (send_step E g t sm m) 26 SdCheck w = (Return (Inr ()), w1)"
    and w1: "mtx w1 = mutex_new (q @ [m])" "agents w1 t = Idle"
    using send_alone [OF assms, of E g sm m] by blast
  have "q @ [m] = hd (q @ [m]) # tl (q @ [m])" by simp
  with w1(1) have "mtx w1 = mutex_new (hd (q @ [m]) # tl (q @ [m]))" by simp
  from recv_alone [OF this w1(2), of E g rm] s w1(1) show ?thesis by blast
qed

theorem send_recv_roundtrip_witness:
  "\<exists>w1 w2. run_alone (send_step (demo_env True) Native 1 SendBlock 9) 26 SdCheck
      (pworld0 :: (nat \<times> nat list, nat) pworld) = (Return (Inr ()), w1) \<and> inner (mtx w1) = [9] \<and>
    run_alone (recv_step (demo_env True) Native 1 (RecvAsyncTimeout 0)) 20 RvStart w1 = (Return (Inr 9), w2) \<and>
    inner (mtx w2) = []"
proof -
  have "mtx (pworld0 :: (nat \<times> nat list, nat) pworld) = mutex_new []" "receiver_active (pworld0 :: (nat \<times> nat list, nat) pworld)"
    "agents (pworld0 :: (nat \<times> nat list, nat) pworld) 1 = Idle" "ccalls (pworld0 :: (nat \<times> nat list, nat) pworld) 1 = NoCall"
    by (simp_all add: pworld0_def channel_def)
  from send_recv_roundtrip [OF this, of "demo_env True" Native SendBlock 9 "RecvAsyncTimeout 0"]
  show ?thesis by (auto simp: mutex_new_def)
qed

section \<open>A spinning receiver\<close>

text \<open>C39: a receiver that spins does not spin past a message. While a receive waits by
  spinning and its flag is not set, a queue that is not empty means that a sender is between its
  push and the pop of its notification, or that some notifier already has this flag in its hand.\<close>

theorem no_message_left_spinning:
  assumes r: "reach (pinit E) (pstep E g) w" and x: "expects w t (HFlag f)" "\<not> wake_flags w f"
    and q: "inner (mtx w) \<noteq> []"
  shows "\<exists>u. about_to_wake w u \<or> HFlag f \<in> in_hand_of w u"
proof -
  note wD = winvD [OF channel_wake.reach_inv [OF r]]
  from wD(2) x(1) have "cared_for E w (HFlag f)" by (auto simp: cvinv_def track_def)
  with x(2) consider "f \<in> set (spin_list w)" | u where "HFlag f \<in> in_hand_of w u" by (auto simp: cared_for_def)
  then show ?thesis
  proof cases
    case 1
    then have "spin_list w \<noteq> []" by auto
    with wD(4) [OF q] show ?thesis by blast
  qed blast
qed

text \<open>The receiver spins, and the sender has pushed and still holds the mutex.\<close>

theorem no_message_left_spinning_witness:
  "\<exists>w :: (nat \<times> nat list, nat) pworld. reach (pinit (demo_env True)) (pstep (demo_env True) Native) w \<and>
     ccalls w 1 = Waiting WaitSpin (SLoad 0) \<and> \<not> wake_flags w 0 \<and> inner (mtx w) = [5] \<and>
     (\<exists>u. about_to_wake w u \<or> HFlag 0 \<in> in_hand_of w u)"
proof -
  define es where "es = [PRecv 1 RecvSpin :: nat pevent] @ replicate 18 (PStep 1) @ [PSend 2 SendSpin 5] @
    replicate 7 (PStep 2)"
  define w where "w = prun (demo_env True) Native es (pworld0 :: (nat \<times> nat list, nat) pworld)"
  note r = pworld0_reach [of True Native es, folded w_def]
  have a: "ccalls w 1 = Waiting WaitSpin (SLoad 0)" "\<not> wake_flags w 0" "inner (mtx w) = [5]"
    unfolding w_def es_def by (simp_all add: prun_defs eval_nat_numeral)
  from a(1) have "expects w 1 (HFlag 0)" by (simp add: expects_def)
  from no_message_left_spinning [OF r this] a r show ?thesis by auto
qed

end
