(* ===== verification/Spec2Isabelle.thy ===== *)
theory Spec2Isabelle
  imports MutexProps RwProps CondvarProps MpscProps
begin

text \<open>
  Verification of the crate \<^verbatim>\<open>wasm_safe_mutex\<close>: a spinlock, a mutex, a reader-writer lock,
  a condition variable and a channel that work on native targets and on WebAssembly, where a
  browser's main thread may not block.

  \<^bold>\<open>The program.\<close> \<^verbatim>\<open>src/spinlock.rs\<close> guards the wait lists of everything above it.
  \<^verbatim>\<open>src/mutex.rs\<close> with \<^verbatim>\<open>src/mutex/*.rs\<close> is a lock word with a list of blocked
  threads and a list of waiting tasks; \<^verbatim>\<open>src/rwlock.rs\<close> with \<^verbatim>\<open>src/rwlock/*.rs\<close> is a
  lock byte with such lists for readers and for writers; \<^verbatim>\<open>src/guard.rs\<close> holds their guards,
  whose drops call \<^verbatim>\<open>did_unlock*\<close>. \<^verbatim>\<open>src/condvar.rs\<close> with \<^verbatim>\<open>src/condvar/*.rs\<close>
  releases a mutex, waits and locks it again, with lists for spinning threads, parked threads
  and tasks. \<^verbatim>\<open>src/mpsc.rs\<close> is a queue under a mutex with one condition variable.
  \<^verbatim>\<open>src/wasm_support.rs\<close> is the probe by which every \<^verbatim>\<open>_sync\<close> method chooses
  between blocking and spinning.

  \<^bold>\<open>The theories.\<close>
  \<^item> \<open>Prelude\<close>: names of the basic types, the outcome \<open>ctl\<close> of one atomic step, the
    operations of the standard containers, reachability, the locales \<open>machine_invariant\<close> and
    \<open>machine_simulation\<close> that every component interprets, and \<open>run_alone\<close>, which runs one
    call while nobody else moves.
  \<^item> \<open>Platform\<close>: the probe, the clock, parking tokens, the timeout threads, and the interface
    of the third-party crate \<^verbatim>\<open>continue\<close>.
  \<^item> \<open>Spinlock\<close>: \<^verbatim>\<open>with_mut\<close> step by step; exclusion, linearizability, and what a
    panic of a closure does.
  \<^item> \<open>WaitList\<close>: the two code fragments that all blocking and async acquisitions share, an
    abstract protocol of them, the proof that it loses no wakeup, and the locale
    \<open>wait_list_client\<close> by which the mutex and the reader-writer lock inherit that.
  \<^item> \<open>Mutex\<close>, \<open>MutexMachine\<close>, \<open>MutexLists\<close>, \<open>MutexProps\<close>: the data and methods, any
    number of agents using them, the refinement of the protocol by the two lists, the properties.
  \<^item> \<open>RwLock\<close>, \<open>RwMachine\<close>, \<open>RwLists\<close>, \<open>RwProps\<close>: the same for the reader-writer
    lock, on 8-bit words.
  \<^item> \<open>Condvar\<close>, \<open>CondvarMachine\<close>, \<open>CondvarLists\<close>, \<open>CondvarProps\<close>: the waits, the
    loops and the notifications on top of the mutex; each step is a step, or a few, of the
    mutex's machine (\<open>condvar_sim\<close>), so the mutex's properties hold while agents wait; what a
    wait returns; which waiter is on which list, in whose hand, or woken.
  \<^item> \<open>Mpsc\<close>, \<open>MpscMachine\<close>, \<open>MpscWake\<close>, \<open>MpscProps\<close>: the channel on top of both; each step is a
    step, or a few, of the condition variable's machine (\<open>channel_sim\<close>); the order of the
    messages, the errors, the counter of the senders, a wakeup that is lost, and (\<open>MpscWake\<close>)
    why a receiver that spins does not miss a message.

  \<^bold>\<open>How code and model correspond.\<close> A struct is a record, an enum a datatype, an
  \<^verbatim>\<open>AtomicU8\<close> and an \<^verbatim>\<open>AtomicU64\<close> a word of that width, a \<^verbatim>\<open>usize\<close> a natural
  number modulo two to the width of the target. A method is a function from a program counter,
  whose arguments are the locals that live across a step, to the next one (\<open>Next\<close>), a result
  (\<open>Return\<close>) or a panic (\<open>Panic\<close>), with the new state. One step holds at most one access to
  shared memory, so a step relation over a map from agents to program counters has every
  interleaving. A step that waits is \<open>Next\<close> of its own program counter. Threads and tasks
  are both agents; a future that is pending is polled again by its next step, or is dropped by its
  owner (the rules \<open>abandon\<close> and \<open>rabandon\<close> of the machines), which frees the agent and
  leaves everything else as it is, its entries on the lists included. The records
  extend each other, \<open>os\<close>, \<open>mworld\<close> (or \<open>rworld\<close>), \<open>cworld\<close>, \<open>pworld\<close>, and a
  definition for one of them works on all that extend it. What the rest of the program may do
  is part of the machines: time passes, timers fire, stray parking tokens appear, other
  continuations are made and completed.

  \<^bold>\<open>What the lemmas show.\<close> For each lock: exclusion and data-race freedom over every
  reachable state, sound timeouts, no lost wakeup, freedom from deadlock, refinement of a lock
  without wait lists, what a guard's drop does, what a panic of a closure leaves behind; all of
  this whichever futures are dropped while they wait. For
  the condition variable: the type and meaning of every result, the condition of the
  \<^verbatim>\<open>_while\<close> loops, no lost notification, exactness of the spin wait's timeout, the effect of
  the notifications. For the channel: first in, first out without loss for any mix of methods,
  the meaning of the errors, no wrap of the counter, the round trip of one message, and that a
  receiver that spins is not left spinning while there is a message; a receiver that parks or
  awaits has no such property here, since a handle that a spurious wakeup of \<^verbatim>\<open>park\<close> left
  on the list can take a notification. Some
  properties are about behaviour that the code has and probably does not want: a panic inside
  the spinlock, 127 readers, waits that swallow a notification after they have timed out, were
  dropped or returned early, and the drop of the last sender that the receiver misses.

  \<^bold>\<open>Bounds.\<close> \<open>run_alone\<close> has fuel; each theorem that uses it states a number of steps
  and proves that the call returns within it, four for an acquisition that finds the lock free, 14
  for a \<^verbatim>\<open>with_mut\<close> call, 26 and 20 for a send and a receive, and a number that grows with
  the wait lists where the code loops over them. Nothing else is bounded: the machines have any
  number of agents and runs of any length. The count of senders stays below the width of
  \<^verbatim>\<open>usize\<close> because \<^verbatim>\<open>Arc::clone\<close> ends the program beyond \<^verbatim>\<open>isize::MAX\<close>.

  \<^bold>\<open>Modelling decisions.\<close> Memory is sequentially consistent; the orderings written in the
  code are not modelled. The crate \<^verbatim>\<open>continue\<close> is the parameter \<open>env\<close> with its documented
  behaviour \<open>cont_ok\<close>. In the condition variable a closure passed to \<^verbatim>\<open>Spinlock::with_mut\<close>
  is one atomic step, which the spinlock's linearizability justifies; in the locks it is run step
  by step. A condition variable is used with one mutex. \<^verbatim>\<open>fetch_update\<close> is one atomic step. In
  \<^verbatim>\<open>wait_async_timeout\<close> the timeout's continuation is made in the step that starts its
  thread. The clone of a sender is one step. The receiver of a continuation that is dropped is
  not told to the sender's side, since the code never asks. The access to a queue through its guard is one
  step, which the exclusion of the mutex justifies.

  \<^bold>\<open>Not modelled.\<close> \<^verbatim>\<open>Debug\<close> implementations; \<^verbatim>\<open>src/lib.rs\<close>, which declares modules; tests and scripts; the \<^verbatim>\<open>unsafe impl\<close>s of \<^verbatim>\<open>Send\<close> and
  \<^verbatim>\<open>Sync\<close>; the insides of \<^verbatim>\<open>wasm_safe_thread\<close> and of the standard library; the debugging output of \<^verbatim>\<open>notify_one\<close>.
\<close>

end
